(* ===== verification/L2_Prelude.thy ===== *)
theory L2_Prelude
  imports Main "HOL-Library.Word"
begin

text \<open>
  Shared material: machine types of the x86-64 target, the outcome type in which every
  fallible C function of the bootstrap compiler returns its result, and generic lemmas on
  lists, intervals and words.
\<close>

section \<open>Machine types\<close>

type_synonym byte = "8 word"
type_synonym u64 = "64 word"
type_synonym addr = "64 word"

text \<open>
  The collections the component proofs use: equations that unfold one step of a
  program (\<open>run_simps\<close>) and laws of the byte encodings (\<open>codec_simps\<close>).
\<close>

named_theorems run_simps
named_theorems codec_simps

section \<open>Outcomes\<close>

text \<open>
  A call of the C code returns, leaves by \<open>longjump\<close> with an error object, runs into
  undefined behaviour (an access outside of an object), or does not return within the fuel
  that the model gives to its loops.
\<close>

datatype ('e, 'a) outcome = Ret 'a | Throw 'e | Undef | NoFuel

fun bindO :: "('e, 'a) outcome \<Rightarrow> ('a \<Rightarrow> ('e, 'b) outcome) \<Rightarrow> ('e, 'b) outcome" where
  "bindO (Ret x) k = k x"
| "bindO (Throw e) k = Throw e"
| "bindO Undef k = Undef"
| "bindO NoFuel k = NoFuel"

lemma bindO_eq_Ret [simp]: "bindO m k = Ret y \<longleftrightarrow> (\<exists>x. m = Ret x \<and> k x = Ret y)"
  by (cases m) auto

lemma bindO_eq_Throw:
  "bindO m k = Throw e \<longleftrightarrow> m = Throw e \<or> (\<exists>x. m = Ret x \<and> k x = Throw e)"
  by (cases m) auto

lemma bindO_eq_NoFuel:
  "bindO m k = NoFuel \<longleftrightarrow> m = NoFuel \<or> (\<exists>x. m = Ret x \<and> k x = NoFuel)"
  by (cases m) auto

lemma bindO_eq_Undef:
  "bindO m k = Undef \<longleftrightarrow> m = Undef \<or> (\<exists>x. m = Ret x \<and> k x = Undef)"
  by (cases m) auto

lemma bindO_Ret_right [simp]: "bindO m Ret = m"
  by (cases m) auto

lemma bindO_assoc: "bindO (bindO m k) h = bindO m (\<lambda>x. bindO (k x) h)"
  by (cases m) auto

lemma bindO_cong [fundef_cong]:
  "m = m' \<Longrightarrow> (\<And>x. m' = Ret x \<Longrightarrow> k x = k' x) \<Longrightarrow> bindO m k = bindO m' k'"
  by (cases m) auto

text \<open>More fuel may turn \<open>NoFuel\<close> into another outcome and changes nothing else.\<close>

definition fuel_le :: "('e, 'a) outcome \<Rightarrow> ('e, 'a) outcome \<Rightarrow> bool" where
  "fuel_le m m' \<longleftrightarrow> m = NoFuel \<or> m = m'"

lemma fuel_le_refl [simp, intro]: "fuel_le m m"
  by (simp add: fuel_le_def)

lemma fuel_le_NoFuel [simp, intro]: "fuel_le NoFuel m"
  by (simp add: fuel_le_def)

lemma fuel_le_trans: "fuel_le a b \<Longrightarrow> fuel_le b c \<Longrightarrow> fuel_le a c"
  by (auto simp: fuel_le_def)

lemma fuel_le_bindO:
  "fuel_le m m' \<Longrightarrow> (\<And>x. fuel_le (k x) (k' x)) \<Longrightarrow> fuel_le (bindO m k) (bindO m' k')"
  by (cases m; force simp: fuel_le_def)

lemma fuel_leD: "fuel_le m m' \<Longrightarrow> m \<noteq> NoFuel \<Longrightarrow> m' = m"
  by (auto simp: fuel_le_def)

text \<open>
  A function of the fuel settles on an outcome when every large enough fuel gives it. This is
  how the model says that a call of the C code returns.
\<close>

definition settles :: "(nat \<Rightarrow> 'a) \<Rightarrow> 'a \<Rightarrow> bool" where
  "settles f v \<longleftrightarrow> (\<exists>n. \<forall>m \<ge> n. f m = v)"

lemma settles_const [simp, intro]: "settles (\<lambda>n. v) v"
  by (simp add: settles_def)

lemma settles_unique: "settles f v \<Longrightarrow> settles f w \<Longrightarrow> v = w"
  unfolding settles_def by (metis nle_le)

lemma settles_Suc: "settles (\<lambda>n. f (Suc n)) v \<longleftrightarrow> settles f v"
proof
  assume "settles (\<lambda>n. f (Suc n)) v"
  then obtain n where "f (Suc m) = v" if "n \<le> m" for m by (auto simp: settles_def)
  then have "f m = v" if "Suc n \<le> m" for m using that by (cases m) auto
  then show "settles f v" by (auto simp: settles_def)
qed (auto simp: settles_def intro: le_SucI)

lemma settles_SucI: "settles (\<lambda>n. f (Suc n)) v \<Longrightarrow> settles f v"
  by (simp only: settles_Suc)

lemma settles_bindO:
  assumes "settles f (Ret x)" "settles (\<lambda>n. k n x) v"
  shows "settles (\<lambda>n. bindO (f n) (k n)) v"
proof -
  from assms obtain i j where "\<forall>m \<ge> i. f m = Ret x" "\<forall>m \<ge> j. k m x = v"
    by (auto simp: settles_def)
  then show ?thesis by (auto simp: settles_def intro!: exI [of _ "max i j"])
qed

text \<open>Loops that run a fallible step for each element of a list, as \<open>for\<close> and \<open>foreach\<close> do.\<close>

fun for_each :: "('i \<Rightarrow> 'a \<Rightarrow> ('e, 'a) outcome) \<Rightarrow> 'i list \<Rightarrow> 'a \<Rightarrow> ('e, 'a) outcome" where
  "for_each f [] x = Ret x"
| "for_each f (i # is) x = bindO (f i x) (for_each f is)"

lemma for_each_append: "for_each f (is @ js) x = bindO (for_each f is x) (for_each f js)"
  by (induction "is" arbitrary: x) (auto simp: bindO_assoc intro!: bindO_cong)

lemma for_each_cong [fundef_cong]:
  "is = js \<Longrightarrow> x = y \<Longrightarrow> (\<And>i z. i \<in> set js \<Longrightarrow> f i z = g i z) \<Longrightarrow> for_each f is x = for_each g js y"
  by (induction "is" arbitrary: js x y) (auto intro!: bindO_cong)

lemma for_each_fold: "(\<And>i x. i \<in> set is \<Longrightarrow> f i x = Ret (g i x)) \<Longrightarrow> for_each f is x = Ret (fold g is x)"
  by (induction "is" arbitrary: x) auto

lemma for_each_upto_Suc: "for_each f [0..<Suc n] x = bindO (for_each f [0..<n] x) (f n)"
proof -
  have "for_each f [] = Ret" by (rule ext) simp
  then have "for_each f [n] = f n" by (intro ext) simp
  then show ?thesis by (simp add: for_each_append)
qed

lemma settles_at: "settles f v \<Longrightarrow> \<exists>n. f n = v"
  by (auto simp: settles_def)

section \<open>Intervals of addresses\<close>

text \<open>A block of memory is its first address and its length; both are natural numbers.\<close>

type_synonym block = "nat \<times> nat"

fun block_disjoint :: "block \<Rightarrow> block \<Rightarrow> bool" where
  "block_disjoint (a, n) (b, m) \<longleftrightarrow> a + n \<le> b \<or> b + m \<le> a"

fun block_within :: "block \<Rightarrow> block \<Rightarrow> bool" where
  "block_within (a, n) (b, m) \<longleftrightarrow> b \<le> a \<and> a + n \<le> b + m"

lemma block_disjoint_sym: "block_disjoint x y \<Longrightarrow> block_disjoint y x"
  by (cases x; cases y) auto

lemma block_disjoint_within:
  "block_disjoint x y \<Longrightarrow> block_within z x \<Longrightarrow> block_disjoint z y"
  by (cases x; cases y; cases z) auto

fun blocks_disjoint :: "block list \<Rightarrow> bool" where
  "blocks_disjoint [] = True"
| "blocks_disjoint (b # bs) = (list_all (block_disjoint b) bs \<and> blocks_disjoint bs)"

lemma blocks_disjoint_nth:
  "blocks_disjoint bs \<Longrightarrow> i < j \<Longrightarrow> j < length bs \<Longrightarrow> block_disjoint (bs ! i) (bs ! j)"
proof (induction bs arbitrary: i j)
  case (Cons b bs)
  then show ?case
    by (cases i; cases j) (auto simp: list_all_length)
qed simp

lemma blocks_disjoint_nth_neq:
  "blocks_disjoint bs \<Longrightarrow> i \<noteq> j \<Longrightarrow> i < length bs \<Longrightarrow> j < length bs \<Longrightarrow>
   block_disjoint (bs ! i) (bs ! j)"
  using blocks_disjoint_nth [of bs i j] blocks_disjoint_nth [of bs j i]
  by (cases "i < j") (auto intro: block_disjoint_sym)

section \<open>Lists\<close>

lemma takeWhile_until: "x \<notin> set xs \<Longrightarrow> takeWhile (\<lambda>y. y \<noteq> x) (xs @ x # ys) = xs"
  by (induction xs) auto

section \<open>Words\<close>

lemma unat_add_small:
  fixes a b :: "'a::len word"
  assumes "unat a + unat b < 2 ^ LENGTH('a)"
  shows "unat (a + b) = unat a + unat b"
  using assms by (simp add: unat_word_ariths)

lemma unat_sub_small:
  fixes a b :: "'a::len word"
  assumes "b \<le> a"
  shows "unat (a - b) = unat a - unat b"
  using assms by (rule unat_sub)

lemma unat_pred_Suc: "(n :: 'a::len word) \<noteq> 0 \<Longrightarrow> unat n = Suc (unat (n - 1))"
  by (simp add: unat_minus_one unat_gt_0)

lemma of_nat_pred: "0 < i \<Longrightarrow> (of_nat i :: 'a::len word) - 1 = of_nat (i - 1)"
  by (cases i) simp_all

lemma add_of_nat_pred: "0 < i \<Longrightarrow> p + of_nat i - 1 = p + (of_nat (i - 1) :: 'a::len word)"
  by (cases i) simp_all

lemma unat_lt_u64 [simp]: "unat (x :: u64) < 18446744073709551616"
  using unsigned_less [where ?'a = nat, of x] by simp

lemma unat_lt_byte [simp]: "unat (x :: byte) < 256"
  using unsigned_less [where ?'a = nat, of x] by simp

end
