(* ===== verification/C_Strings.thy ===== *)
theory C_Strings
  imports L2_Prelude
begin

text \<open>
  The C string and memory routines of \<open>bootstrap/x86_64_linux_interface.c\<close>, over a byte
  memory indexed by 64-bit addresses. Loops that run until they meet a byte are
  \<open>partial_function (option)\<close>: \<open>None\<close> is a loop that does not end. The lemmas show
  that each routine returns on well-formed C strings and relate its result to HOL lists.
\<close>

type_synonym mem = "addr \<Rightarrow> byte"

section \<open>Characters and bytes\<close>

definition byte_of :: "char \<Rightarrow> byte" where
  "byte_of c = word_of_nat (of_char c)"

lemma unat_byte_of [simp]: "unat (byte_of c) = of_char c"
proof -
  have "(of_char c :: nat) < 256" by simp
  then show ?thesis by (simp add: byte_of_def unat_of_nat)
qed

lemma byte_of_inject [simp]: "byte_of c = byte_of d \<longleftrightarrow> c = d"
proof
  assume "byte_of c = byte_of d"
  then have "(of_char c :: nat) = of_char d" by (metis unat_byte_of)
  then show "c = d" by simp
qed simp

lemma byte_of_zero [simp]: "byte_of c = 0 \<longleftrightarrow> c = CHR 0x00"
proof -
  have "byte_of (CHR 0x00) = 0" by (simp add: byte_of_def)
  then show ?thesis by (metis byte_of_inject)
qed

lemma sint_eq_iff [simp]: "sint (a :: byte) = sint b \<longleftrightarrow> a = b"
  by (auto intro: signed_word_eqI)

lemma sint_eq_0 [simp]: "sint (a :: byte) = 0 \<longleftrightarrow> a = 0"
  by (simp add: signed_eq_0_iff)

section \<open>Reading and writing runs of bytes\<close>

fun upd_bytes :: "mem \<Rightarrow> addr \<Rightarrow> byte list \<Rightarrow> mem" where
  "upd_bytes m p [] = m"
| "upd_bytes m p (b # bs) = upd_bytes (m(p := b)) (p + 1) bs"

fun get_bytes :: "mem \<Rightarrow> addr \<Rightarrow> nat \<Rightarrow> byte list" where
  "get_bytes m p 0 = []"
| "get_bytes m p (Suc n) = m p # get_bytes m (p + 1) n"

text \<open>The addresses of a run of \<open>n\<close> bytes from \<open>p\<close>; they are distinct when the run is
  not longer than the address space.\<close>

definition run_of :: "addr \<Rightarrow> nat \<Rightarrow> addr set" where
  "run_of p n = (\<lambda>i. p + of_nat i) ` {..<n}"

lemma run_of_0 [simp]: "run_of p 0 = {}"
  by (simp add: run_of_def)

lemma run_of_Suc: "run_of p (Suc n) = insert p (run_of (p + 1) n)"
proof -
  have "{..<Suc n} = insert 0 (Suc ` {..<n})" by (rule lessThan_Suc_eq_insert_0)
  then show ?thesis by (auto simp: run_of_def image_image algebra_simps)
qed

lemma length_get_bytes [simp]: "length (get_bytes m p n) = n"
  by (induction n arbitrary: p) auto

lemma upd_bytes_outside: "a \<notin> run_of p (length bs) \<Longrightarrow> upd_bytes m p bs a = m a"
  by (induction bs arbitrary: m p) (auto simp: run_of_Suc)

lemma start_not_in_rest:
  assumes "n < 2 ^ 64"
  shows "p \<notin> run_of (p + 1) n"
proof
  assume "p \<in> run_of (p + 1) n"
  then obtain i where i: "i < n" and "p = p + 1 + of_nat i"
    by (auto simp: run_of_def)
  then have "(of_nat (Suc i) :: addr) = 0" by (simp add: algebra_simps)
  then have "(2 ^ 64 :: nat) dvd Suc i"
    by (simp only: word_of_nat_eq_0_iff) simp
  with i assms show False by (auto dest: dvd_imp_le)
qed

lemma get_upd_bytes:
  "length bs < 2 ^ 64 \<Longrightarrow> get_bytes (upd_bytes m p bs) p (length bs) = bs"
proof (induction bs arbitrary: m p)
  case (Cons b bs)
  have "p \<notin> run_of (p + 1) (length bs)"
    using Cons.prems by (intro start_not_in_rest) simp
  then have "upd_bytes (m(p := b)) (p + 1) bs p = b"
    by (simp add: upd_bytes_outside)
  then show ?case using Cons by simp
qed simp

lemma get_bytes_cong:
  "(\<And>a. a \<in> run_of p n \<Longrightarrow> m a = m' a) \<Longrightarrow> get_bytes m p n = get_bytes m' p n"
  by (induction n arbitrary: p) (auto simp: run_of_Suc)

section \<open>C strings\<close>

fun cstr :: "mem \<Rightarrow> addr \<Rightarrow> string \<Rightarrow> bool" where
  "cstr m p [] = (m p = 0)"
| "cstr m p (c # s) = (c \<noteq> CHR 0x00 \<and> m p = byte_of c \<and> cstr m (p + 1) s)"

lemma cstr_get_bytes:
  "cstr m p s \<longleftrightarrow>
     CHR 0x00 \<notin> set s \<and> get_bytes m p (Suc (length s)) = map byte_of s @ [0]"
  by (induction s arbitrary: p) auto

lemma cstr_unique: "cstr m p s \<Longrightarrow> cstr m p t \<Longrightarrow> s = t"
proof (induction s arbitrary: p t)
  case Nil
  then show ?case by (cases t) (auto dest: sym)
next
  case (Cons c s)
  then show ?case by (cases t) auto
qed

lemma cstr_upd_bytes:
  assumes "CHR 0x00 \<notin> set s" and "Suc (length s) < 2 ^ 64"
  shows "cstr (upd_bytes m p (map byte_of s @ [0])) p s"
  using assms get_upd_bytes [of "map byte_of s @ [0]" m p]
  by (simp only: cstr_get_bytes) simp

subsection \<open>strlen\<close>

partial_function (option) strlen_loop :: "mem \<Rightarrow> addr \<Rightarrow> u64 \<Rightarrow> u64 option" where
  "strlen_loop m str i =
     (if m (str + i) \<noteq> 0 then strlen_loop m str (i + 1) else Some i)"

definition strlen :: "mem \<Rightarrow> addr \<Rightarrow> u64 option" where
  "strlen m str = strlen_loop m str 0"

lemma strlen_loop_cstr:
  "cstr m (str + i) s \<Longrightarrow> strlen_loop m str i = Some (i + of_nat (length s))"
proof (induction s arbitrary: i)
  case Nil
  then show ?case by (simp add: strlen_loop.simps)
next
  case (Cons c s)
  then have "strlen_loop m str (i + 1) = Some (i + 1 + of_nat (length s))"
    by (simp add: add.assoc)
  with Cons.prems show ?case
    by (subst strlen_loop.simps) (simp add: algebra_simps)
qed

lemma strlen_cstr [run_simps]: "cstr m p s \<Longrightarrow> strlen m p = Some (of_nat (length s))"
  unfolding strlen_def by (subst strlen_loop_cstr [where s = s]) simp_all

subsection \<open>strvlen\<close>

text \<open>The length of a vector of C strings that ends in an empty string. The counter is a
  C \<open>int\<close>, which indexes the array after sign extension.\<close>

partial_function (option) strvlen_loop :: "mem \<Rightarrow> addr \<Rightarrow> 32 word \<Rightarrow> 32 word option" where
  "strvlen_loop m strv i =
     (if m (strv + scast (i - 1)) \<noteq> 0 \<or> m (strv + scast i) \<noteq> 0
      then strvlen_loop m strv (i + 1) else Some i)"

definition strvlen :: "mem \<Rightarrow> addr \<Rightarrow> 32 word option" where
  "strvlen m strv = strvlen_loop m strv 1"

subsection \<open>strrchr\<close>

partial_function (option) strrchr_loop :: "mem \<Rightarrow> addr \<Rightarrow> int \<Rightarrow> addr \<Rightarrow> addr option" where
  "strrchr_loop m s c t =
     (if s \<le> t then (if sint (m t) = c then Some t else strrchr_loop m s c (t - 1))
      else Some 0)"

definition strrchr :: "mem \<Rightarrow> addr \<Rightarrow> int \<Rightarrow> addr option" where
  "strrchr m s c = (case strlen m s of None \<Rightarrow> None
     | Some n \<Rightarrow> strrchr_loop m s c (s + n))"

lemma cstr_nth: "cstr m p s \<Longrightarrow> i < length s \<Longrightarrow> m (p + of_nat i) = byte_of (s ! i)"
proof (induction s arbitrary: p i)
  case (Cons c s)
  then show ?case by (cases i) (auto simp: add.assoc dest: Cons.IH [of "p + 1"])
qed simp

lemma cstr_end: "cstr m p s \<Longrightarrow> m (p + of_nat (length s)) = 0"
  by (induction s arbitrary: p) (auto simp: add.assoc [symmetric])

lemma strrchr_loop_step:
  assumes "cstr m p s" and "c \<noteq> CHR 0x00" and "p \<noteq> 0" and "unat p + length s < 2 ^ 64"
    and "i \<le> length s" and "c \<notin> set (drop i s)"
  shows "strrchr_loop m p (sint (byte_of c)) (p + of_nat (length s)) =
    (if i = 0 then Some 0 else strrchr_loop m p (sint (byte_of c)) (p + of_nat (i - 1)))"
  using assms(5,6)
proof (induction "length s - i" arbitrary: i)
  case 0
  then have i: "i = length s" by simp
  have le: "p \<le> p + of_nat (length s)"
    using assms(4) by (simp add: word_le_nat_alt unat_word_ariths unat_of_nat)
  have "m (p + of_nat (length s)) = 0" using assms(1) by (rule cstr_end)
  then have *: "strrchr_loop m p (sint (byte_of c)) (p + of_nat (length s)) =
      strrchr_loop m p (sint (byte_of c)) (p + of_nat (length s) - 1)"
    using le assms(2) by (subst strrchr_loop.simps) (auto dest!: sym [of 0] simp: )
  show ?case
  proof (cases "i = 0")
    case True
    then have "p + of_nat (length s) - 1 = p - 1" using i by simp
    moreover have "\<not> p \<le> p - 1"
      using assms(3) by (simp add: word_le_nat_alt unat_minus_one unat_gt_0 not_le)
    ultimately show ?thesis using True * by (simp add: strrchr_loop.simps [of m p _ "p - 1"])
  next
    case False
    then show ?thesis using * i by (simp add: add_of_nat_pred)
  qed
next
  case (Suc n)
  then have lt: "i < length s" by simp
  have IH: "strrchr_loop m p (sint (byte_of c)) (p + of_nat (length s)) =
      strrchr_loop m p (sint (byte_of c)) (p + of_nat i)"
    using Suc.hyps(1) [of "Suc i"] Suc.hyps(2) Suc.prems lt
    by (auto simp: Cons_nth_drop_Suc [symmetric])
  have ne: "s ! i \<noteq> c"
    using Suc.prems lt by (auto simp: Cons_nth_drop_Suc [symmetric])
  have le: "p \<le> p + of_nat i"
    using assms(4) lt by (simp add: word_le_nat_alt unat_word_ariths unat_of_nat)
  have "m (p + of_nat i) = byte_of (s ! i)" using assms(1) lt by (rule cstr_nth)
  then have *: "strrchr_loop m p (sint (byte_of c)) (p + of_nat i) =
      strrchr_loop m p (sint (byte_of c)) (p + of_nat i - 1)"
    using le ne by (subst strrchr_loop.simps) simp
  show ?case
  proof (cases "i = 0")
    case True
    moreover have "\<not> p \<le> p - 1"
      using assms(3) by (simp add: word_le_nat_alt unat_minus_one unat_gt_0 not_le)
    ultimately show ?thesis using IH * by (simp add: strrchr_loop.simps [of m p _ "p - 1"])
  next
    case False
    then show ?thesis using IH * by (simp add: add_of_nat_pred)
  qed
qed

lemma strrchr_last:
  assumes "cstr m p (u @ c # v)" and "c \<noteq> CHR 0x00" and "c \<notin> set v" and "p \<noteq> 0"
    and "unat p + length (u @ c # v) < 2 ^ 64"
  shows "strrchr m p (sint (byte_of c)) = Some (p + of_nat (length u))"
proof -
  let ?s = "u @ c # v"
  have nth: "m (p + of_nat (length u)) = byte_of c"
    using cstr_nth [OF assms(1), of "length u"] by simp
  have le: "p \<le> p + of_nat (length u)"
    using assms(5) by (simp add: word_le_nat_alt unat_word_ariths unat_of_nat)
  have "strrchr_loop m p (sint (byte_of c)) (p + of_nat (length ?s)) =
      strrchr_loop m p (sint (byte_of c)) (p + of_nat (length u))"
    using strrchr_loop_step [OF assms(1,2,4,5), of "Suc (length u)"] assms(3) by simp
  then show ?thesis
    using nth le strlen_cstr [OF assms(1)]
    by (simp add: strrchr_def strrchr_loop.simps [of m p _ "p + of_nat (length u)"])
qed

lemma strrchr_none:
  assumes "cstr m p s" and "c \<noteq> CHR 0x00" and "c \<notin> set s" and "p \<noteq> 0"
    and "unat p + length s < 2 ^ 64"
  shows "strrchr m p (sint (byte_of c)) = Some 0"
  using strrchr_loop_step [OF assms(1,2,4,5), of 0] assms(3) strlen_cstr [OF assms(1)]
  by (simp add: strrchr_def)

subsection \<open>strcpy\<close>

partial_function (option) strcpy_loop :: "mem \<Rightarrow> addr \<Rightarrow> addr \<Rightarrow> mem option" where
  "strcpy_loop m dest src =
     (if m src \<noteq> 0 then strcpy_loop (m(dest := m src)) (dest + 1) (src + 1)
      else Some (m(dest := 0)))"

definition strcpy :: "mem \<Rightarrow> addr \<Rightarrow> addr \<Rightarrow> (addr \<times> mem) option" where
  "strcpy m dest src = map_option (\<lambda>m'. (dest, m')) (strcpy_loop m dest src)"

lemma strcpy_loop_cstr:
  assumes "cstr m src s" and "Suc (length s) < 2 ^ 64"
    and "run_of dest (Suc (length s)) \<inter> run_of src (Suc (length s)) = {}"
  shows "strcpy_loop m dest src = Some (upd_bytes m dest (map byte_of s @ [0]))"
  using assms
proof (induction s arbitrary: m dest src)
  case Nil
  then show ?case by (simp add: strcpy_loop.simps fun_upd_def)
next
  case (Cons c s)
  let ?m = "m(dest := byte_of c)"
  have out: "dest \<notin> run_of (src + 1) (Suc (length s))"
    using Cons.prems(3) by (auto simp: run_of_Suc)
  have "get_bytes ?m (src + 1) (Suc (length s)) = get_bytes m (src + 1) (Suc (length s))"
    using out by (intro get_bytes_cong) auto
  with Cons.prems(1) have "cstr ?m (src + 1) s"
    by (auto simp: cstr_get_bytes)
  moreover have "run_of (dest + 1) (Suc (length s)) \<inter> run_of (src + 1) (Suc (length s)) = {}"
    using Cons.prems(3) by (auto simp: run_of_Suc)
  ultimately have "strcpy_loop ?m (dest + 1) (src + 1) =
      Some (upd_bytes ?m (dest + 1) (map byte_of s @ [0]))"
    using Cons.prems(2) by (intro Cons.IH) (auto simp: fun_upd_def)
  with Cons.prems(1) show ?case by (subst strcpy_loop.simps) (simp add: fun_upd_def)
qed

lemma strcpy_cstr:
  assumes "cstr m src s" and "Suc (length s) < 2 ^ 64"
    and "run_of dest (Suc (length s)) \<inter> run_of src (Suc (length s)) = {}"
  shows "strcpy m dest src = Some (dest, upd_bytes m dest (map byte_of s @ [0]))"
  using strcpy_loop_cstr [OF assms] by (simp add: strcpy_def)

subsection \<open>strcmp\<close>

partial_function (option) strcmp :: "mem \<Rightarrow> addr \<Rightarrow> addr \<Rightarrow> int option" where
  "strcmp m s1 s2 =
     (if m s1 \<noteq> 0 \<and> m s2 \<noteq> 0 \<and> m s1 = m s2 then strcmp m (s1 + 1) (s2 + 1)
      else Some (sint (m s1) - sint (m s2)))"

lemma strcmp_cstr:
  "cstr m p s \<Longrightarrow> cstr m q t \<Longrightarrow> \<exists>r. strcmp m p q = Some r \<and> (r = 0 \<longleftrightarrow> s = t)"
proof (induction s arbitrary: p q t)
  case Nil
  then show ?case
    by (cases t) (auto simp: strcmp.simps [of m p q])
next
  case (Cons c s)
  show ?case
  proof (cases t)
    case Nil
    with Cons.prems show ?thesis
      by (auto simp: strcmp.simps [of m p q])
  next
    case t: (Cons d t')
    show ?thesis
    proof (cases "c = d")
      case True
      with Cons.prems t have "strcmp m p q = strcmp m (p + 1) (q + 1)"
        by (simp add: strcmp.simps [of m p q])
      with Cons.prems t True show ?thesis
        using Cons.IH [of "p + 1" "q + 1" t'] by simp
    next
      case False
      with Cons.prems t show ?thesis
        by (auto simp: strcmp.simps [of m p q])
    qed
  qed
qed

subsection \<open>memcpy and memset\<close>

function memcpy_loop :: "mem \<Rightarrow> addr \<Rightarrow> addr \<Rightarrow> u64 \<Rightarrow> mem" where
  "memcpy_loop m dest src n =
     (if n \<noteq> 0 then memcpy_loop (m(dest := m src)) (dest + 1) (src + 1) (n - 1) else m)"
  by pat_completeness auto
termination
  by (relation "measure (\<lambda>(m, dest, src, n). unat n)") (auto simp: measure_unat)

declare memcpy_loop.simps [simp del]

definition memcpy :: "mem \<Rightarrow> addr \<Rightarrow> addr \<Rightarrow> u64 \<Rightarrow> addr \<times> mem" where
  "memcpy m dest src n = (dest, memcpy_loop m dest src n)"

lemma memcpy_loop_bytes:
  assumes "run_of dest (unat n) \<inter> run_of src (unat n) = {}"
  shows "memcpy_loop m dest src n = upd_bytes m dest (get_bytes m src (unat n))"
  using assms
proof (induction m dest src n rule: memcpy_loop.induct)
  case (1 m dest src n)
  show ?case
  proof (cases "n = 0")
    case True
    then show ?thesis by (simp add: memcpy_loop.simps)
  next
    case False
    let ?m = "m(dest := m src)"
    have n: "unat n = Suc (unat (n - 1))"
      using False by (rule unat_pred_Suc)
    from 1(2) have dis: "run_of (dest + 1) (unat (n - 1)) \<inter> run_of (src + 1) (unat (n - 1)) = {}"
      and out: "dest \<notin> run_of (src + 1) (unat (n - 1))"
      by (auto simp: n run_of_Suc)
    have "get_bytes ?m (src + 1) (unat (n - 1)) = get_bytes m (src + 1) (unat (n - 1))"
      using out by (intro get_bytes_cong) auto
    with 1(1) [OF False dis] False show ?thesis
      by (subst memcpy_loop.simps) (simp add: n fun_upd_def)
  qed
qed

function memset :: "mem \<Rightarrow> addr \<Rightarrow> int \<Rightarrow> u64 \<Rightarrow> mem" where
  "memset m s c n =
     (if n \<noteq> 0 then memset (m(s := word_of_int c)) (s + 1) c (n - 1) else m)"
  by pat_completeness auto
termination
  by (relation "measure (\<lambda>(m, s, c, n). unat n)") (auto simp: measure_unat)

declare memset.simps [simp del]

lemma memset_bytes:
  "memset m s c n = upd_bytes m s (replicate (unat n) (word_of_int c))"
proof (induction m s c n rule: memset.induct)
  case (1 m s c n)
  show ?case
  proof (cases "n = 0")
    case True
    then show ?thesis by (simp add: memset.simps)
  next
    case False
    have n: "unat n = Suc (unat (n - 1))"
      using False by (rule unat_pred_Suc)
    from 1 [OF False] False show ?thesis
      by (subst memset.simps) (simp add: n fun_upd_def)
  qed
qed

subsection \<open>isspace\<close>

definition isspace :: "char \<Rightarrow> bool" where
  "isspace c \<longleftrightarrow> c = CHR '' '' \<or> c = CHR 0x0C \<or> c = CHR 0x0A \<or> c = CHR 0x0D \<or>
     c = CHR 0x09 \<or> c = CHR 0x0B"

subsection \<open>Numbers to text\<close>

text \<open>The digit characters of the \<open>switch\<close> in \<open>ulong_to_str\<close>.\<close>

definition digit_char :: "u64 \<Rightarrow> char" where
  "digit_char d =
     (if d = 0 then CHR ''0'' else if d = 1 then CHR ''1'' else if d = 2 then CHR ''2''
      else if d = 3 then CHR ''3'' else if d = 4 then CHR ''4'' else if d = 5 then CHR ''5''
      else if d = 6 then CHR ''6'' else if d = 7 then CHR ''7'' else if d = 8 then CHR ''8''
      else CHR ''9'')"

text \<open>
  The loop writes into the array \<open>str\<close> from the back. An index below the array would be
  undefined behaviour, modelled as \<open>None\<close>.
\<close>

function ulong_loop :: "u64 \<Rightarrow> int \<Rightarrow> string \<Rightarrow> (int \<times> string) option" where
  "ulong_loop i j str =
     (if i \<noteq> 0 then
        (if j < 0 then None
         else ulong_loop (i div 10) (j - 1) (str[nat j := digit_char (i mod 10)]))
      else Some (j, str))"
  by pat_completeness auto
termination
  by (relation "measure (\<lambda>(i, j, str). unat i)")
     (auto simp: unat_div unat_gt_0 intro!: div_less_dividend)

declare ulong_loop.simps [simp del]

text \<open>The result of \<open>ulong_to_str\<close> is a pointer into the array and the array.\<close>

definition ulong_to_str :: "u64 \<Rightarrow> string \<Rightarrow> (int \<times> string) option" where
  "ulong_to_str i str =
     (case ulong_loop i 19 (str[20 := CHR 0x00]) of
        None \<Rightarrow> None
      | Some (j, str') \<Rightarrow> Some (j + 1, str'))"

definition text_at :: "int \<Rightarrow> string \<Rightarrow> string" where
  "text_at k str = takeWhile (\<lambda>c. c \<noteq> CHR 0x00) (drop (nat k) str)"

text \<open>\<open>write_ulong\<close> and \<open>write_long\<close>, as the text they write.\<close>

definition write_ulong_text :: "u64 \<Rightarrow> string \<Rightarrow> string option" where
  "write_ulong_text i buf = (case ulong_to_str i buf of None \<Rightarrow> None
     | Some (k, str) \<Rightarrow> Some (text_at k str))"

definition write_long_text :: "u64 \<Rightarrow> string \<Rightarrow> string option" where
  "write_long_text i buf =
     (if sint i < 0 then map_option (\<lambda>t. CHR ''-'' # t) (write_ulong_text (- i) buf)
      else write_ulong_text i buf)"

text \<open>The usual decimal notation, as a specification; zero has no digits here.\<close>

fun decimal :: "nat \<Rightarrow> string" where
  "decimal n = (if n < 10 then [char_of (48 + n)] else decimal (n div 10) @ [char_of (48 + n mod 10)])"

declare decimal.simps [simp del]

definition digits_of :: "nat \<Rightarrow> string" where
  "digits_of n = (if n = 0 then [] else decimal n)"

lemma digits_of_step:
  "n \<noteq> 0 \<Longrightarrow> digits_of n = digits_of (n div 10) @ [char_of (48 + n mod 10)]"
  by (cases "n < 10") (auto simp: digits_of_def decimal.simps [of n])

lemma digit_char_of_nat: "n < 10 \<Longrightarrow> char_of (48 + n) = digit_char (of_nat n)"
proof -
  assume "n < 10"
  then have "n \<in> {0, 1, 2, 3, 4, 5, 6, 7, 8, 9}" by auto
  then show ?thesis
    by (auto simp: digit_char_def char_of_eq_iff)
qed

lemma digit_char_nat: "unat d < 10 \<Longrightarrow> digit_char d = char_of (48 + unat d)"
  using digit_char_of_nat [of "unat d"] by simp

lemma unat_div10: "unat (i div 10 :: u64) = unat i div 10"
  by (simp add: unat_div)

lemma unat_mod10: "unat (i mod 10 :: u64) = unat i mod 10"
  by (simp add: unat_mod)

lemma ulong_loop_digits:
  "unat i < 10 ^ k \<Longrightarrow> k \<le> nat (j + 1) \<Longrightarrow> -1 \<le> j \<Longrightarrow> nat (j + 1) \<le> length str \<Longrightarrow>
   \<exists>j' str'. ulong_loop i j str = Some (j', str') \<and> -1 \<le> j' \<and> j' \<le> j \<and>
     length str' = length str \<and>
     drop (nat (j' + 1)) str' = digits_of (unat i) @ drop (nat (j + 1)) str"
proof (induction i j str arbitrary: k rule: ulong_loop.induct)
  case (1 i j str)
  show ?case
  proof (cases "i = 0")
    case True
    then show ?thesis using "1.prems"
      by (simp add: ulong_loop.simps digits_of_def)
  next
    case False
    then have "unat i \<noteq> 0" by (simp add: unat_eq_0)
    with "1.prems" have "k \<noteq> 0" by (intro notI) simp
    then obtain k' where k: "k = Suc k'" by (cases k) auto
    have j: "0 \<le> j" using "1.prems" k by linarith
    then have Suc_j: "nat (j + 1) = Suc (nat j)" by linarith
    let ?str = "str[nat j := digit_char (i mod 10)]"
    have small: "unat (i div 10) < 10 ^ k'"
      using "1.prems"(1) k by (simp add: unat_div10 less_mult_imp_div_less mult.commute)
    obtain j' str' where r: "ulong_loop (i div 10) (j - 1) ?str = Some (j', str')"
      and j': "-1 \<le> j'" "j' \<le> j - 1" and len: "length str' = length str"
      and d: "drop (nat (j' + 1)) str' = digits_of (unat (i div 10)) @ drop (nat (j - 1 + 1)) ?str"
      using "1.IH" [of k'] False j small "1.prems" k by (auto simp: Suc_j)
    have "drop (nat j) ?str = digit_char (i mod 10) # drop (nat (j + 1)) str"
      using "1.prems" j by (simp add: Cons_nth_drop_Suc [symmetric] Suc_j)
    then have "drop (nat (j' + 1)) str' = digits_of (unat i) @ drop (nat (j + 1)) str"
      using d \<open>unat i \<noteq> 0\<close>
      by (simp add: digits_of_step [of "unat i"] unat_div10 unat_mod10 digit_char_nat)
    then show ?thesis
      using r j' len j False by (auto simp: ulong_loop.simps [of i j])
  qed
qed

lemma decimal_no_nul: "CHR 0x00 \<notin> set (decimal n)"
proof (induction n rule: decimal.induct)
  case (1 n)
  have nz: "CHR 0x00 \<noteq> char_of (48 + d)" if "d < 10" for d :: nat
  proof -
    have "(of_char (char_of (48 + d)) :: nat) = 48 + d" using that by simp
    moreover have "(of_char (CHR 0x00) :: nat) = 0" by simp
    ultimately show ?thesis by (metis add_is_0 zero_neq_numeral)
  qed
  from 1 nz [of n] nz [of "n mod 10"] show ?case by (subst decimal.simps) auto
qed

lemma ulong_to_str_text:
  assumes "length str = 21"
  shows "\<exists>k str'. ulong_to_str i str = Some (k, str') \<and> 0 \<le> k \<and> k \<le> 20 \<and>
    length str' = 21 \<and> text_at k str' = digits_of (unat i)"
proof -
  let ?str = "str[20 := CHR 0x00]"
  have "unat i < 10 ^ 20" using unat_lt_u64 [of i] by (rule less_le_trans) simp
  with assms obtain j' str' where r: "ulong_loop i 19 ?str = Some (j', str')"
    and j': "-1 \<le> j'" "j' \<le> 19" and len: "length str' = 21"
    and d: "drop (nat (j' + 1)) str' = digits_of (unat i) @ drop (nat (19 + 1)) ?str"
    using ulong_loop_digits [of i 20 19 ?str] by auto
  have "drop 20 ?str = [CHR 0x00]"
    using assms by (simp add: Cons_nth_drop_Suc [symmetric])
  then have "takeWhile (\<lambda>c. c \<noteq> CHR 0x00) (drop (nat (j' + 1)) str') = digits_of (unat i)"
    using d decimal_no_nul by (auto simp: digits_of_def takeWhile_until)
  then show ?thesis
    using r j' len by (auto simp: ulong_to_str_def text_at_def)
qed

text \<open>Decimal notation determines the number.\<close>

definition value_of :: "string \<Rightarrow> nat" where
  "value_of s = foldl (\<lambda>a c. 10 * a + (of_char c - 48)) 0 s"

lemma value_of_digits: "value_of (digits_of n) = n"
proof (induction n rule: less_induct)
  case (less n)
  show ?case
  proof (cases "n = 0")
    case True
    then show ?thesis by (simp add: digits_of_def value_of_def)
  next
    case False
    then have "value_of (digits_of (n div 10)) = n div 10" by (intro less) simp
    with False show ?thesis
      by (simp add: digits_of_step [of n] value_of_def del: of_char_of)
         (simp add: of_char_of)
  qed
qed

lemma digits_of_inject: "digits_of m = digits_of n \<longleftrightarrow> m = n"
  by (metis value_of_digits)

end
