(* ===== verification/Fragments.thy ===== *)
theory Fragments
  imports C_Strings "HOL-Library.Signed_Division"
begin

text \<open>
  Fragments, the S-expressions of \<open>bootstrap/lexer.c\<close>. In the C code a fragment is a list
  whose elements are characters or fragments; a token is a list that starts with a
  character, and a variable is a cell that is its own rest. A variable is modelled by its
  address; what it points to is the store of theory \<open>Unify\<close>.
\<close>

datatype frag = Ch char | Lst "frag list" | Var addr

section \<open>Characters\<close>

text \<open>The static table \<open>chars\<close>: entries that stand for themselves, and zero entries for
  control characters, delimiters and separators.\<close>

definition chars :: string where
  "chars = replicate 33 (CHR 0x00) @ [CHR ''!'', CHR 0x22] @ ''#$%&'' @ [CHR 0x27] @
     [CHR 0x00, CHR 0x00] @ ''*+,-./0123456789'' @ [CHR 0x00, CHR 0x00] @
     ''<=>?@ABCDEFGHIJKLMNOPQRSTUVWXYZ'' @ [CHR 0x00, CHR 0x5C, CHR 0x00] @ ''^_'' @ [CHR 0x60] @
     ''abcdefghijklmnopqrstuvwxyz'' @ [CHR 0x00, CHR ''|'', CHR 0x00, CHR ''~'', CHR 0x00]"

lemma length_chars: "length chars = 128"
  by (simp add: chars_def)

text \<open>
  \<open>_char(d)\<close> indexes the table with a signed \<open>char\<close>: for a byte from 128 up the index is
  negative and the access is outside of the table (\<open>None\<close>).
\<close>

definition char_entry :: "char \<Rightarrow> frag option" where
  "char_entry d = (if sint (byte_of d) < 0 then None else Some (Ch (chars ! nat (sint (byte_of d)))))"

text \<open>The characters that the table keeps.\<close>

definition kept_char :: "char \<Rightarrow> bool" where
  "kept_char c \<longleftrightarrow> char_entry c = Some (Ch c) \<and> c \<noteq> CHR 0x00"

definition char_equals :: "frag \<Rightarrow> frag \<Rightarrow> bool" where
  "char_equals a b \<longleftrightarrow> (case (a, b) of (Ch c, Ch d) \<Rightarrow> c = d | _ \<Rightarrow> False)"

section \<open>Tokens\<close>

fun build_token_loop :: "string \<Rightarrow> frag list \<Rightarrow> ('e, frag) outcome" where
  "build_token_loop [] sexprs = Ret (Lst sexprs)"
| "build_token_loop (c # str) sexprs =
     (case char_entry c of None \<Rightarrow> Undef
      | Some e \<Rightarrow> build_token_loop str (sexprs @ [e]))"

definition build_token :: "string \<Rightarrow> ('e, frag) outcome" where
  "build_token str = build_token_loop str []"

text \<open>The counter of \<open>gentok\<close> is a static \<open>unsigned long\<close>; it is returned updated.\<close>

definition gentok :: "u64 \<Rightarrow> string \<Rightarrow> ('e, frag) outcome \<times> u64" where
  "gentok counter buf =
     (let counter' = counter + 1
      in (case ulong_to_str counter' buf of
            None \<Rightarrow> Undef
          | Some (k, str) \<Rightarrow> build_token (text_at k str), counter'))"

fun is_var :: "frag \<Rightarrow> bool" where
  "is_var (Var _) = True"
| "is_var _ = False"

definition var_equals :: "frag \<Rightarrow> frag \<Rightarrow> bool" where
  "var_equals a b \<longleftrightarrow> a = b"

fun is_ch :: "frag \<Rightarrow> bool" where
  "is_ch (Ch _) = True"
| "is_ch _ = False"

fun is_token :: "frag \<Rightarrow> bool" where
  "is_token (Lst (Ch _ # _)) = True"
| "is_token _ = False"

text \<open>
  \<open>to_string\<close> reads the first byte behind every element. For an element that is not a
  character this is the low byte of the address kept in the element's first word: the
  parameter \<open>low_byte\<close>. The result is the C string in the buffer, up to its first null byte;
  on a variable, a cyclic list, the loop does not end.
\<close>

fun element_char :: "(frag \<Rightarrow> char) \<Rightarrow> frag \<Rightarrow> char" where
  "element_char low_byte (Ch c) = c"
| "element_char low_byte e = low_byte e"

fun to_string :: "(frag \<Rightarrow> char) \<Rightarrow> frag \<Rightarrow> string option" where
  "to_string low_byte (Lst d) =
     Some (takeWhile (\<lambda>c. c \<noteq> CHR 0x00) (map (element_char low_byte) d))"
| "to_string low_byte (Var a) = None"
| "to_string low_byte (Ch c) = None"

fun token_chars_equal :: "(frag \<Rightarrow> char) \<Rightarrow> frag list \<Rightarrow> frag list \<Rightarrow> bool" where
  "token_chars_equal low_byte (x # a) (y # b) =
     (if element_char low_byte x \<noteq> element_char low_byte y then False
      else token_chars_equal low_byte a b)"
| "token_chars_equal low_byte _ _ = True"

fun token_equals :: "(frag \<Rightarrow> char) \<Rightarrow> frag \<Rightarrow> frag \<Rightarrow> bool" where
  "token_equals low_byte (Lst a) (Lst b) =
     (if length a \<noteq> length b then False else token_chars_equal low_byte a b)"
| "token_equals low_byte _ _ = False"

section \<open>Printing\<close>

definition ulong_text :: "u64 \<Rightarrow> string" where
  "ulong_text i = (case write_ulong_text i (replicate 21 (CHR 0x00)) of None \<Rightarrow> [] | Some t \<Rightarrow> t)"

fun print_fragment :: "frag \<Rightarrow> string" where
  "print_fragment (Var a) = ''!'' @ ulong_text (word_of_int (sint a smod 8192))"
| "print_fragment (Ch c) = []"
| "print_fragment (Lst d) =
     (if is_token (Lst d) then concat (map (\<lambda>t. case t of Ch c \<Rightarrow> [c] | _ \<Rightarrow> []) d)
      else ''('' @ concat (map (\<lambda>t. print_fragment t @ '' '') d) @ '')'')"

section \<open>Generated tokens\<close>

lemma digit_in_table:
  fixes k :: nat
  assumes "k < 10"
  shows "char_entry (char_of (48 + k)) = Some (Ch (char_of (48 + k)))"
proof -
  have "list_all (\<lambda>c. char_entry c = Some (Ch c)) ''0123456789''" by code_simp
  then have *: "char_entry c = Some (Ch c)" if "c \<in> set ''0123456789''" for c
    using that by (simp only: list_all_iff)
  have "k \<in> {0, 1, 2, 3, 4, 5, 6, 7, 8, 9}" using assms by auto
  then have "char_of (48 + k) \<in> set ''0123456789''"
    by (auto simp: char_of_eq_iff)
  then show ?thesis by (rule *)
qed

lemma build_token_loop_Ret:
  "(\<And>c. c \<in> set str \<Longrightarrow> char_entry c = Some (Ch c)) \<Longrightarrow>
   build_token_loop str l = Ret (Lst (l @ map Ch str))"
  by (induction str arbitrary: l) auto

lemma build_token_digits: "build_token (digits_of n) = Ret (Lst (map Ch (digits_of n)))"
proof -
  have "char_entry c = Some (Ch c)" if "c \<in> set (digits_of n)" for c
    using that
  proof (induction n rule: less_induct)
    case (less n)
    show ?case
    proof (cases "n = 0")
      case False
      then have "c \<in> set (digits_of (n div 10)) \<or> c = char_of (48 + n mod 10)"
        using less.prems by (subst (asm) digits_of_step) auto
      then show ?thesis using less.IH [of "n div 10"] False digit_in_table [of "n mod 10"] by auto
    qed (use less.prems in \<open>simp add: digits_of_def\<close>)
  qed
  then show ?thesis by (simp add: build_token_def build_token_loop_Ret)
qed

lemma gentok_digits:
  "length buf = 21 \<Longrightarrow> gentok c buf = (Ret (Lst (map Ch (digits_of (unat (c + 1))))), c + 1)"
  using ulong_to_str_text [of buf "c + 1"] by (auto simp: gentok_def Let_def build_token_digits)

lemma digits_of_empty: "digits_of n = [] \<longleftrightarrow> n = 0"
  using digits_of_inject [of n 0] by (simp add: digits_of_def)

text \<open>C22. Tokens that \<open>gentok\<close> generates for different counters are
different, and all of them are tokens but the one that follows the wrap-around of the
counter.\<close>

lemma gentok_distinct:
  assumes "length buf = 21" and "length buf' = 21"
  shows "((fst (gentok c buf) :: ('e, frag) outcome) = fst (gentok d buf') \<longleftrightarrow> c = d) \<and>
    (\<exists>t. (fst (gentok c buf) :: ('e, frag) outcome) = Ret t \<and> (is_token t \<longleftrightarrow> c + 1 \<noteq> 0))"
proof -
  have "digits_of (unat (c + 1)) = digits_of (unat (d + 1)) \<longleftrightarrow> c = d"
    unfolding digits_of_inject by (metis add_right_cancel word_unat_eq_iff)
  moreover have "map Ch u = map Ch v \<longleftrightarrow> u = v" for u v
    by (simp add: inj_on_def inj_map_eq_map)
  moreover have "is_token (Lst (map Ch u)) \<longleftrightarrow> u \<noteq> []" for u
    by (cases u) simp_all
  ultimately show ?thesis
    using assms by (simp add: gentok_digits digits_of_empty unat_eq_zero)
qed

lemma gentok_distinct_witness:
  "((fst (gentok 41 (replicate 21 (CHR 0x00))) :: (unit, frag) outcome) = fst (gentok 7 (replicate 21 (CHR ''x''))) \<longleftrightarrow> (41 :: u64) = 7) \<and>
    (\<exists>t. (fst (gentok 41 (replicate 21 (CHR 0x00))) :: (unit, frag) outcome) = Ret t \<and> (is_token t \<longleftrightarrow> (41 :: u64) + 1 \<noteq> 0))"
  by (rule gentok_distinct) simp_all

end
