(* ===== verification/L2_Errors.thy ===== *)
theory L2_Errors
  imports Fragments
begin

text \<open>
  The error objects of \<open>bootstrap/errors.c\<close>. A \<open>throw_\<close> function allocates one in the region
  of the handler and jumps to the handler: in the model the call is the outcome \<open>Throw\<close> of the
  error object. The type \<open>'x\<close> is the type of expressions, which only unification errors carry.
\<close>

datatype error_type = unification | arguments | param_count_mismatch | special_form
  | unexpected_character | multiple_definition | object | missing_file | undefined_symbol
  | unsupported_intrinsics

fun error_code :: "error_type \<Rightarrow> nat" where
  "error_code unification = 0"
| "error_code arguments = 1"
| "error_code param_count_mismatch = 2"
| "error_code special_form = 3"
| "error_code unexpected_character = 4"
| "error_code multiple_definition = 5"
| "error_code object = 6"
| "error_code missing_file = 7"
| "error_code undefined_symbol = 8"
| "error_code unsupported_intrinsics = 9"

lemma error_code_inject: "error_code a = error_code b \<longleftrightarrow> a = b"
  by (cases a; cases b) simp_all

text \<open>The tags are C enumeration constants and are ordered as integers.\<close>

instantiation error_type :: linorder
begin

definition less_eq_error_type :: "error_type \<Rightarrow> error_type \<Rightarrow> bool" where
  "less_eq_error_type a b \<longleftrightarrow> error_code a \<le> error_code b"

definition less_error_type :: "error_type \<Rightarrow> error_type \<Rightarrow> bool" where
  "less_error_type a b \<longleftrightarrow> error_code a < error_code b"

instance
  by standard (auto simp: less_eq_error_type_def less_error_type_def error_code_inject)

end

datatype 'x evaluate_error =
    arguments_error
  | special_form_error (expression_list: frag) (subexpression_list: "frag option")
  | unexpected_character_error (character: int) (position: int)
  | multiple_definition_error (reference_value: string)
  | object_error
  | missing_file_error (path: string)
  | undefined_symbol_error (symbol_value: string)
  | unification_error (lhs: frag) (rhs: frag) (expr: 'x)
  | unsupported_intrinsics_error (intrinsic_name: string)

fun type_of_error :: "'x evaluate_error \<Rightarrow> error_type" where
  "type_of_error arguments_error = arguments"
| "type_of_error (special_form_error _ _) = special_form"
| "type_of_error (unexpected_character_error _ _) = unexpected_character"
| "type_of_error (multiple_definition_error _) = multiple_definition"
| "type_of_error object_error = object"
| "type_of_error (missing_file_error _) = missing_file"
| "type_of_error (undefined_symbol_error _) = undefined_symbol"
| "type_of_error (unification_error _ _ _) = unification"
| "type_of_error (unsupported_intrinsics_error _) = unsupported_intrinsics"

type_synonym ('x, 'a) evaluation = "('x evaluate_error, 'a) outcome"

definition throw_arguments :: "('x, 'a) evaluation" where
  "throw_arguments = Throw arguments_error"

definition throw_special_form :: "frag \<Rightarrow> frag option \<Rightarrow> ('x, 'a) evaluation" where
  "throw_special_form d s = Throw (special_form_error d s)"

definition throw_unexpected_character :: "int \<Rightarrow> nat \<Rightarrow> ('x, 'a) evaluation" where
  "throw_unexpected_character c p = Throw (unexpected_character_error c (int p))"

definition throw_multiple_definition :: "string \<Rightarrow> ('x, 'a) evaluation" where
  "throw_multiple_definition v = Throw (multiple_definition_error v)"

definition throw_object :: "('x, 'a) evaluation" where
  "throw_object = Throw object_error"

definition throw_missing_file :: "string \<Rightarrow> ('x, 'a) evaluation" where
  "throw_missing_file p = Throw (missing_file_error p)"

definition throw_undefined_symbol :: "string \<Rightarrow> ('x, 'a) evaluation" where
  "throw_undefined_symbol s = Throw (undefined_symbol_error s)"

definition throw_unification :: "frag \<Rightarrow> frag \<Rightarrow> 'x \<Rightarrow> ('x, 'a) evaluation" where
  "throw_unification l r e = Throw (unification_error l r e)"

definition throw_unsupported_intrinsics :: "string \<Rightarrow> ('x, 'a) evaluation" where
  "throw_unsupported_intrinsics n = Throw (unsupported_intrinsics_error n)"

lemmas throw_defs = throw_arguments_def throw_special_form_def throw_unexpected_character_def
  throw_multiple_definition_def throw_object_def throw_missing_file_def
  throw_undefined_symbol_def throw_unification_def throw_unsupported_intrinsics_def

end
