(* ===== verification/Unify.thy ===== *)
theory Unify
  imports L2_Errors
begin

text \<open>
  Signature variables: \<open>evaluate\<close>, \<open>recursive_evaluate\<close> and \<open>copy_fragment\<close> of
  \<open>bootstrap/lexer.c\<close>, \<open>occurs_in\<close> and \<open>unify\<close> of \<open>bootstrap/analysis.c\<close>. The values of the
  variables are a store; a variable that holds itself is unbound. The lemmas show that
  unification ends on acyclic stores, keeps them acyclic, and computes most general unifiers.
\<close>

type_synonym store = "addr \<Rightarrow> frag"

section \<open>The operations\<close>

definition set_val :: "addr \<Rightarrow> frag \<Rightarrow> store \<Rightarrow> store" where
  "set_val a val s = s(a := val)"

definition get_val :: "addr \<Rightarrow> store \<Rightarrow> frag" where
  "get_val a s = s a"

primrec evaluate :: "nat \<Rightarrow> store \<Rightarrow> frag \<Rightarrow> ('e, frag) outcome" where
  "evaluate 0 s val = NoFuel"
| "evaluate (Suc n) s val =
     (case val of Var a \<Rightarrow> if val \<noteq> get_val a s then evaluate n s (get_val a s) else Ret val
      | _ \<Rightarrow> Ret val)"

text \<open>The \<open>foreach\<close> loops of the recursive functions, with the body as an argument.\<close>

primrec collect :: "(frag \<Rightarrow> ('e, frag) outcome) \<Rightarrow> frag list \<Rightarrow> ('e, frag list) outcome" where
  "collect f [] = Ret []"
| "collect f (t # d) = bindO (f t) (\<lambda>x. bindO (collect f d) (\<lambda>xs. Ret (x # xs)))"

primrec exists_in :: "(frag \<Rightarrow> ('e, bool) outcome) \<Rightarrow> frag list \<Rightarrow> ('e, bool) outcome" where
  "exists_in p [] = Ret False"
| "exists_in p (a # d) = bindO (p a) (\<lambda>b. if b then Ret True else exists_in p d)"

text \<open>A character is not a list: treating it as one is an access outside of it.\<close>

primrec recursive_evaluate :: "nat \<Rightarrow> store \<Rightarrow> frag \<Rightarrow> ('e, frag) outcome" where
  "recursive_evaluate 0 s t = NoFuel"
| "recursive_evaluate (Suc n) s t =
     bindO (evaluate n s t) (\<lambda>d. case d of Ch c \<Rightarrow> Undef | Var a \<Rightarrow> Ret d
       | Lst xs \<Rightarrow> if is_token d then Ret d
                   else bindO (collect (recursive_evaluate n s) xs) (\<lambda>res. Ret (Lst res)))"

primrec occurs_in :: "nat \<Rightarrow> store \<Rightarrow> addr \<Rightarrow> frag \<Rightarrow> ('e, bool) outcome" where
  "occurs_in 0 s var val = NoFuel"
| "occurs_in (Suc n) s var val =
     bindO (evaluate n s val) (\<lambda>eval. case eval of Ch c \<Rightarrow> Undef
       | Var b \<Rightarrow> Ret (var_equals (Var var) eval)
       | Lst d \<Rightarrow> if is_token eval then Ret False else exists_in (occurs_in n s var) d)"

definition unify_var :: "nat \<Rightarrow> addr \<Rightarrow> frag \<Rightarrow> store \<Rightarrow> ('e, bool \<times> store) outcome" where
  "unify_var n var val s =
     bindO (occurs_in n s var val) (\<lambda>b.
       if \<not> b then Ret (True, set_val var val s) else Ret (False, s))"

fun unify_zipped ::
  "(frag \<Rightarrow> frag \<Rightarrow> store \<Rightarrow> ('e, bool \<times> store) outcome) \<Rightarrow> frag list \<Rightarrow> frag list \<Rightarrow> store \<Rightarrow>
    ('e, bool \<times> store) outcome" where
  "unify_zipped u (a # xl) (b # yl) s =
     bindO (u a b s) (\<lambda>(ok, s'). if \<not> ok then Ret (False, s') else unify_zipped u xl yl s')"
| "unify_zipped u _ _ s = Ret (True, s)"

primrec unify :: "(frag \<Rightarrow> char) \<Rightarrow> nat \<Rightarrow> frag \<Rightarrow> frag \<Rightarrow> store \<Rightarrow> ('e, bool \<times> store) outcome" where
  "unify lb 0 x y s = NoFuel"
| "unify lb (Suc n) x y s =
     bindO (evaluate n s x) (\<lambda>xl. bindO (evaluate n s y) (\<lambda>yl.
       case (xl, yl) of
         (Var a, Var b) \<Rightarrow> if var_equals xl yl then Ret (True, s) else unify_var n a yl s
       | (Var a, _) \<Rightarrow> unify_var n a yl s
       | (_, Var b) \<Rightarrow> unify_var n b xl s
       | (Lst d, Lst e) \<Rightarrow>
           if is_token xl \<and> is_token yl then Ret (token_equals lb xl yl, s)
           else if is_token xl \<or> is_token yl then Ret (False, s)
           else if length d = length e then unify_zipped (unify lb n) d e s
           else Ret (False, s)
       | _ \<Rightarrow> Undef))"

text \<open>
  \<open>copy_fragment\<close> renames variables: \<open>old_vars\<close> and \<open>new_vars\<close> are parallel lists. A new
  variable is a cell of the allocator \<open>new\<close> that points to itself.
\<close>

definition var :: "('s \<Rightarrow> addr \<times> 's) \<Rightarrow> store \<times> 's \<Rightarrow> addr \<times> store \<times> 's" where
  "var new ss = (let (a, r) = new (snd ss) in (a, (fst ss)(a := Var a), r))"

fun renamed :: "addr \<Rightarrow> addr list \<Rightarrow> addr list \<Rightarrow> addr option" where
  "renamed l (ov # old_vars) (nv # new_vars) =
     (if ov = l then Some nv else renamed l old_vars new_vars)"
| "renamed l _ _ = None"

type_synonym 's copying = "addr list \<times> addr list \<times> store \<times> 's"

fun copy_token :: "frag list \<Rightarrow> ('e, frag list) outcome" where
  "copy_token [] = Ret []"
| "copy_token (Ch s # l) =
     (case char_entry s of None \<Rightarrow> Undef | Some e \<Rightarrow> bindO (copy_token l) (\<lambda>c. Ret (e # c)))"
| "copy_token (_ # l) = Undef"

fun copy_fragment :: "('s \<Rightarrow> addr \<times> 's) \<Rightarrow> frag \<Rightarrow> 's copying \<Rightarrow> ('e, frag \<times> 's copying) outcome"
and copy_fragments :: "('s \<Rightarrow> addr \<times> 's) \<Rightarrow> frag list \<Rightarrow> 's copying \<Rightarrow> ('e, frag list \<times> 's copying) outcome"
where
  "copy_fragment new (Var l) (old_vars, new_vars, ss) =
     (case renamed l old_vars new_vars of
        Some nv \<Rightarrow> Ret (Var nv, (old_vars, new_vars, ss))
      | None \<Rightarrow> (case var new ss of (nv, ss') \<Rightarrow> Ret (Var nv, (l # old_vars, nv # new_vars, ss'))))"
| "copy_fragment new (Lst l) st =
     (if is_token (Lst l) then bindO (copy_token l) (\<lambda>c. Ret (Lst c, st))
      else bindO (copy_fragments new l st) (\<lambda>(c, st'). Ret (Lst c, st')))"
| "copy_fragment new (Ch c) st = Undef"
| "copy_fragments new [] st = Ret ([], st)"
| "copy_fragments new (s # l) st =
     bindO (copy_fragment new s st) (\<lambda>(c, st1).
       bindO (copy_fragments new l st1) (\<lambda>(cs, st2). Ret (c # cs, st2)))"

section \<open>Signatures, substitutions and stores\<close>

fun is_signature :: "frag \<Rightarrow> bool" where
  "is_signature (Var _) = True"
| "is_signature (Lst d) = ((d \<noteq> [] \<and> list_all is_ch d) \<or> list_all is_signature d)"
| "is_signature (Ch _) = False"

fun vars :: "frag \<Rightarrow> addr set" where
  "vars (Var a) = {a}"
| "vars (Lst d) = (\<Union>t \<in> set d. vars t)"
| "vars (Ch _) = {}"

fun subst :: "(addr \<Rightarrow> frag) \<Rightarrow> frag \<Rightarrow> frag" where
  "subst \<sigma> (Var a) = \<sigma> a"
| "subst \<sigma> (Lst d) = Lst (map (subst \<sigma>) d)"
| "subst \<sigma> (Ch c) = Ch c"

text \<open>A substitution is a solution of a store when it respects what the store says of every
  variable.\<close>

definition solves :: "(addr \<Rightarrow> frag) \<Rightarrow> store \<Rightarrow> bool" where
  "solves \<sigma> s \<longleftrightarrow> (\<forall>a. is_signature (\<sigma> a) \<and> \<sigma> a = subst \<sigma> (s a))"

definition ranked :: "(addr \<Rightarrow> nat) \<Rightarrow> store \<Rightarrow> bool" where
  "ranked r s \<longleftrightarrow> (\<forall>a. s a \<noteq> Var a \<longrightarrow> (\<forall>b \<in> vars (s a). r b < r a))"

definition unbound :: "addr set \<Rightarrow> store \<Rightarrow> nat" where
  "unbound V s = card {a \<in> V. s a = Var a}"

text \<open>The invariant of the store: it holds signatures over a finite set of variables and
  is acyclic.\<close>

definition closed :: "addr set \<Rightarrow> store \<Rightarrow> bool" where
  "closed V s \<longleftrightarrow> finite V \<and> (\<forall>a. is_signature (s a)) \<and> (\<forall>a \<in> V. vars (s a) \<subseteq> V)"

definition store_inv :: "addr set \<Rightarrow> store \<Rightarrow> bool" where
  "store_inv V s \<longleftrightarrow> closed V s \<and> (\<exists>r. ranked r s)"

lemma is_token_iff: "is_signature (Lst d) \<Longrightarrow> is_token (Lst d) \<longleftrightarrow> d \<noteq> [] \<and> list_all is_ch d"
  by (cases d) (auto elim: is_token.elims is_ch.elims)

lemma not_token_elements: "is_signature (Lst d) \<Longrightarrow> \<not> is_token (Lst d) \<Longrightarrow> list_all is_signature d"
  using is_token_iff by auto

lemma subst_characters: "list_all is_ch d \<Longrightarrow> map (subst \<sigma>) d = d"
  by (induction d) (auto elim: is_ch.elims)

lemma vars_characters: "list_all is_ch d \<Longrightarrow> vars (Lst d) = {}"
  by (induction d) (auto elim: is_ch.elims)

lemma subst_token: "is_signature t \<Longrightarrow> is_token t \<Longrightarrow> subst \<sigma> t = t"
  by (cases t) (auto simp: is_token_iff subst_characters)

lemma vars_token: "is_signature t \<Longrightarrow> is_token t \<Longrightarrow> vars t = {}"
  by (cases t) (auto simp: is_token_iff vars_characters simp del: vars.simps)

lemma subst_not_ch:
  assumes "is_signature x" "\<And>a. is_signature (\<sigma> a)"
  shows "\<not> is_ch (subst \<sigma> x)"
proof (cases x)
  case (Var a)
  then show ?thesis using assms(2) [of a] by (cases "\<sigma> a") auto
qed (use assms(1) in auto)

lemma is_token_Cons: "is_token (Lst (x # xs)) = is_ch x"
  by (cases x) auto

lemma subst_not_token:
  assumes "is_signature (Lst d)" "\<not> is_token (Lst d)" "\<And>a. is_signature (\<sigma> a)"
  shows "\<not> is_token (subst \<sigma> (Lst d))"
  using not_token_elements [OF assms(1,2)] subst_not_ch [OF _ assms(3)]
  by (cases d) (auto simp: is_token_Cons)

lemma var_cases: "evaluate (Suc n) s (Var a) = (if s a \<noteq> Var a then evaluate n s (s a) else Ret (Var a))"
  by (auto simp: get_val_def)

lemma evaluate_Lst [simp]: "evaluate (Suc n) s (Lst d) = Ret (Lst d)"
  by simp

declare evaluate.simps(2) [simp del]

subsection \<open>evaluate\<close>

lemma evaluate_induct [consumes 1, case_names root step]:
  assumes "evaluate n s t = Ret e"
    and "(\<And>a. e = Var a \<Longrightarrow> s a = Var a) \<Longrightarrow> P e"
    and "\<And>a. s a \<noteq> Var a \<Longrightarrow> P (s a) \<Longrightarrow> P (Var a)"
  shows "P t"
  using assms
  by (induction n arbitrary: t) (auto simp: evaluate.simps(2) get_val_def split: frag.splits if_splits)

lemma evaluate_root:
  assumes "evaluate n s t = Ret e" "e = Var a"
  shows "s a = Var a"
proof -
  have "e = Var a \<longrightarrow> s a = Var a" using assms(1) by (rule evaluate_induct) simp_all
  with assms(2) show ?thesis by simp
qed

lemma evaluate_signature:
  assumes "evaluate n s t = Ret e" "closed V s" "is_signature t"
  shows "is_signature e"
proof -
  have "is_signature t \<longrightarrow> is_signature e"
    using assms(1) by (rule evaluate_induct) (use assms(2) in \<open>simp_all add: closed_def\<close>)
  with assms(3) show ?thesis by simp
qed

lemma evaluate_vars:
  assumes "evaluate n s t = Ret e" "closed V s" "vars t \<subseteq> V"
  shows "vars e \<subseteq> V"
proof -
  have "vars t \<subseteq> V \<longrightarrow> vars e \<subseteq> V"
    using assms(1) by (rule evaluate_induct) (use assms(2) in \<open>auto simp: closed_def\<close>)
  with assms(3) show ?thesis by simp
qed

lemma solves_var: "solves \<sigma> s \<Longrightarrow> subst \<sigma> (s a) = \<sigma> a"
  unfolding solves_def by metis

lemma evaluate_subst:
  assumes "evaluate n s t = Ret e" "solves \<sigma> s"
  shows "subst \<sigma> e = subst \<sigma> t"
  using assms(1) by (rule evaluate_induct) (simp_all add: solves_var [OF assms(2)])

lemma evaluate_rank:
  assumes "evaluate n s t = Ret e" "ranked r s" "\<forall>b \<in> vars t. r b < k"
  shows "e = t \<or> (\<exists>j < k. \<forall>b \<in> vars e. r b < j)"
proof -
  have "\<forall>k. (\<forall>b \<in> vars t. r b < k) \<longrightarrow> e = t \<or> (\<exists>j < k. \<forall>b \<in> vars e. r b < j)"
    using assms(1)
  proof (rule evaluate_induct)
    fix a assume a: "s a \<noteq> Var a"
      "\<forall>k. (\<forall>b \<in> vars (s a). r b < k) \<longrightarrow> e = s a \<or> (\<exists>j < k. \<forall>b \<in> vars e. r b < j)"
    then have "\<forall>b \<in> vars (s a). r b < r a" using assms(2) by (auto simp: ranked_def)
    with a(2) have "e = s a \<or> (\<exists>j < r a. \<forall>b \<in> vars e. r b < j)" by blast
    then have "\<exists>j \<le> r a. \<forall>b \<in> vars e. r b < j"
      using \<open>\<forall>b \<in> vars (s a). r b < r a\<close> by (auto intro: less_imp_le)
    then show "\<forall>k. (\<forall>b \<in> vars (Var a). r b < k) \<longrightarrow> e = Var a \<or> (\<exists>j < k. \<forall>b \<in> vars e. r b < j)"
      by (auto intro: le_less_trans)
  qed simp
  with assms(3) show ?thesis by blast
qed

lemma evaluate_settles_root:
  "(\<And>a. t = Var a \<Longrightarrow> s a = Var a) \<Longrightarrow> settles (\<lambda>n. evaluate n s t) (Ret t)"
  by (rule settles_SucI) (cases t; simp add: evaluate.simps(2) get_val_def)

lemma evaluate_settles_step:
  "s a \<noteq> Var a \<Longrightarrow> settles (\<lambda>n. evaluate n s (s a)) v \<Longrightarrow> settles (\<lambda>n. evaluate n s (Var a)) v"
  by (rule settles_SucI) (simp add: var_cases)

lemma evaluate_settles:
  assumes "ranked r s"
  shows "\<exists>e. settles (\<lambda>n. evaluate n s t :: ('e, frag) outcome) (Ret e)"
proof -
  have *: "\<exists>e. settles (\<lambda>n. evaluate n s (Var a) :: ('e, frag) outcome) (Ret e)" for a
  proof (induction "r a" arbitrary: a rule: less_induct)
    case less
    show ?case
    proof (cases "s a = Var a")
      case True
      then show ?thesis using evaluate_settles_root [of "Var a" s] by auto
    next
      case False
      have "\<exists>e. settles (\<lambda>n. evaluate n s (s a) :: ('e, frag) outcome) (Ret e)"
      proof (cases "\<exists>b. s a = Var b")
        case True
        then show ?thesis using False assms less by (auto simp: ranked_def)
      qed (use evaluate_settles_root [of "s a" s] in auto)
      then show ?thesis using evaluate_settles_step [where s = s and a = a] False by blast
    qed
  qed
  show ?thesis
  proof (cases "\<exists>b. t = Var b")
    case False
    then show ?thesis using evaluate_settles_root [of t s] by auto
  qed (use * in auto)
qed

subsection \<open>Induction over what a signature stands for\<close>

lemma finite_vars [simp, intro]: "finite (vars t)"
  by (induction t) auto

lemma size_element: "x \<in> set d \<Longrightarrow> size x < size (Lst d)"
  by (induction d) auto

lemma expansion_induct [consumes 3, case_names expand]:
  assumes r: "ranked r s" and c: "closed V s" and t: "is_signature t"
    and P: "\<And>t. is_signature t \<Longrightarrow>
      (\<And>n d x. (evaluate n s t :: ('e, frag) outcome) = Ret (Lst d) \<Longrightarrow> \<not> is_token (Lst d) \<Longrightarrow> x \<in> set d \<Longrightarrow> P x) \<Longrightarrow> P t"
  shows "P t"
proof -
  have "is_signature t \<Longrightarrow> \<forall>b \<in> vars t. r b < k \<Longrightarrow> P t" for k t
  proof (induction k arbitrary: t rule: less_induct)
    case (less k)
    note outer = less.IH
    from less.prems show ?case
    proof (induction "size t" arbitrary: t rule: less_induct)
      case less
      show ?case
      proof (rule P [OF less.prems(1)])
        fix n d x
        assume e: "(evaluate n s t :: ('e, frag) outcome) = Ret (Lst d)" "\<not> is_token (Lst d)" "x \<in> set d"
        have x: "is_signature x"
          using not_token_elements [OF evaluate_signature [OF e(1) c less.prems(1)] e(2)] e(3)
          by (simp add: list_all_iff)
        from evaluate_rank [OF e(1) r less.prems(2)] show "P x"
        proof
          assume "Lst d = t"
          moreover have "\<forall>b \<in> vars x. r b < k" using less.prems(2) e(3) \<open>Lst d = t\<close> by auto
          ultimately show ?thesis using less.hyps [of x] size_element [OF e(3)] x by simp
        next
          assume "\<exists>j < k. \<forall>b \<in> vars (Lst d). r b < j"
          then show ?thesis using outer x e(3) by auto
        qed
      qed
    qed
  qed
  moreover have "\<exists>k. \<forall>b \<in> vars t. r b < k"
    using finite_nat_set_iff_bounded [of "r ` vars t"] by auto
  ultimately show ?thesis using t by blast
qed

lemma elements_signature:
  assumes "evaluate n s t = Ret (Lst d)" "\<not> is_token (Lst d)" "closed V s" "is_signature t"
  shows "\<forall>x \<in> set d. is_signature x"
  using not_token_elements [OF evaluate_signature [OF assms(1,3,4)] assms(2)] by (simp add: list_all_iff)

lemma evaluate_signature_cases:
  assumes "evaluate n s t = Ret e" "closed V s" "is_signature t"
  obtains a where "e = Var a" "s a = Var a"
  | d where "e = Lst d" "d \<noteq> []" "list_all is_ch d" "is_token e"
  | d where "e = Lst d" "\<not> is_token e" "\<forall>x \<in> set d. is_signature x"
proof (cases e)
  case (Var a)
  then show ?thesis using that(1) evaluate_root [OF assms(1)] by blast
next
  case (Lst d)
  then show ?thesis
    using that(2,3) evaluate_signature [OF assms] elements_signature [OF _ _ assms(2,3), of n d] assms(1)
    by (cases "is_token e") (auto simp: is_token_iff)
next
  case (Ch c)
  then show ?thesis using evaluate_signature [OF assms] by simp
qed

section \<open>The occurs check\<close>

definition edges :: "store \<Rightarrow> (addr \<times> addr) set" where
  "edges s = {(c, b). s c \<noteq> Var c \<and> b \<in> vars (s c)}"

text \<open>A variable occurs in a signature when the signature or what its variables stand for
  mentions it.\<close>

definition mentions :: "store \<Rightarrow> frag \<Rightarrow> addr \<Rightarrow> bool" where
  "mentions s t a \<longleftrightarrow> (\<exists>c \<in> vars t. (c, a) \<in> (edges s)\<^sup>*)"

lemma mentions_bound:
  assumes "s c \<noteq> Var c" "s a = Var a"
  shows "mentions s (Var c) a \<longleftrightarrow> mentions s (s c) a"
proof -
  have "c \<noteq> a" using assms by auto
  then have "(c, a) \<in> (edges s)\<^sup>* \<longleftrightarrow> (\<exists>b. (c, b) \<in> edges s \<and> (b, a) \<in> (edges s)\<^sup>*)"
    by (blast elim: converse_rtranclE intro: converse_rtrancl_into_rtrancl)
  moreover have "(c, b) \<in> edges s \<longleftrightarrow> b \<in> vars (s c)" for b using assms(1) by (simp add: edges_def)
  ultimately show ?thesis by (auto simp only: mentions_def vars.simps)
qed

lemma mentions_evaluate:
  assumes "evaluate n s t = Ret e" "s a = Var a"
  shows "mentions s t a \<longleftrightarrow> mentions s e a"
  using assms(1) by (rule evaluate_induct) (simp_all only: mentions_bound [where s = s, OF _ assms(2)] not_False_eq_True)

lemma mentions_unbound:
  assumes "s b = Var b"
  shows "mentions s (Var b) a \<longleftrightarrow> b = a"
proof -
  have "(b, a) \<in> (edges s)\<^sup>* \<longleftrightarrow> b = a"
    using assms by (auto simp: edges_def elim: converse_rtranclE)
  then show ?thesis by (auto simp: mentions_def)
qed

lemma mentions_Lst: "mentions s (Lst d) a \<longleftrightarrow> (\<exists>x \<in> set d. mentions s x a)"
  by (auto simp: mentions_def)

lemma exists_in_Ret:
  "(\<And>x b. x \<in> set d \<Longrightarrow> p x = Ret b \<Longrightarrow> b = Q x) \<Longrightarrow> exists_in p d = Ret b \<Longrightarrow> b \<longleftrightarrow> (\<exists>x \<in> set d. Q x)"
  by (induction d) (auto split: if_splits)

lemma exists_in_settles:
  "(\<And>x. x \<in> set d \<Longrightarrow> \<exists>b. settles (\<lambda>n. p n x) (Ret b)) \<Longrightarrow> \<exists>b. settles (\<lambda>n. exists_in (p n) d) (Ret b)"
proof (induction d)
  case (Cons x d)
  then obtain b c where b: "settles (\<lambda>n. p n x) (Ret b)" and c: "settles (\<lambda>n. exists_in (p n) d) (Ret c)"
    by auto metis
  have "settles (\<lambda>n. if b then Ret True else exists_in (p n) d) (Ret (b \<or> c))" using c by (cases b) simp_all
  then have "settles (\<lambda>n. exists_in (p n) (x # d)) (Ret (b \<or> c))"
    unfolding exists_in.simps by (rule settles_bindO [OF b])
  then show ?case by blast
qed auto

lemma occurs_in_mentions:
  "occurs_in n s a t = (Ret b :: ('e, bool) outcome) \<Longrightarrow> closed V s \<Longrightarrow> is_signature t \<Longrightarrow> s a = Var a \<Longrightarrow>
   b \<longleftrightarrow> mentions s t a"
proof (induction n arbitrary: t b)
  case (Suc n)
  obtain e where e: "evaluate n s t = (Ret e :: ('e, frag) outcome)"
    using Suc.prems(1) by auto
  note m = mentions_evaluate [OF e Suc.prems(4)]
  from evaluate_signature_cases [OF e Suc.prems(2,3)] show ?case
  proof cases
    case (1 c)
    then show ?thesis using Suc.prems e m mentions_unbound [of s c a] by (auto simp: var_equals_def)
  next
    case (2 d)
    then show ?thesis using Suc.prems e m by (simp add: mentions_def vars_characters del: vars.simps)
  next
    case (3 d)
    then have "exists_in (occurs_in n s a) d = (Ret b :: ('e, bool) outcome)" using Suc.prems(1) e by simp
    then have "b \<longleftrightarrow> (\<exists>x \<in> set d. mentions s x a)"
      by (rule exists_in_Ret [rotated]) (use Suc.IH Suc.prems 3 in blast)
    then show ?thesis using m 3 by (simp add: mentions_Lst)
  qed
qed simp

lemma occurs_in_settles:
  assumes "ranked r s" "closed V s" "is_signature t"
  shows "\<exists>b. settles (\<lambda>n. occurs_in n s a t :: ('e, bool) outcome) (Ret b)"
  using assms
proof (induction t rule: expansion_induct [where ?'e = 'e])
  case (expand t)
  obtain e where e: "settles (\<lambda>n. evaluate n s t :: ('e, frag) outcome) (Ret e)"
    using evaluate_settles [OF assms(1)] by blast
  from settles_at [OF e] obtain m where m: "evaluate m s t = (Ret e :: ('e, frag) outcome)" by blast
  have "\<exists>b. settles (\<lambda>n. (case e of Ch c \<Rightarrow> Undef | Var b \<Rightarrow> Ret (var_equals (Var a) e)
      | Lst d \<Rightarrow> if is_token e then Ret False else exists_in (occurs_in n s a) d) :: ('e, bool) outcome) (Ret b)"
    using m assms(2) expand(1)
  proof (cases rule: evaluate_signature_cases)
    case (3 d)
    then show ?thesis using expand.IH [of m d] m by (simp, intro exists_in_settles) blast
  qed auto
  then show ?case using settles_SucI [where f = "\<lambda>n. occurs_in n s a t", unfolded occurs_in.simps, OF settles_bindO [OF e]] by blast
qed

section \<open>Binding a variable\<close>

lemma ranked_bind:
  assumes r: "ranked r s" and a: "s a = Var a" and t: "\<not> mentions s t a"
  shows "\<exists>r'. ranked r' (s(a := t))"
proof -
  obtain R where R: "\<forall>b \<in> vars t. r b < R"
    using finite_nat_set_iff_bounded [of "r ` vars t"] by auto
  define r' where "r' c = (if (c, a) \<in> (edges s)\<^sup>* then r c + R else r c)" for c
  have "r' b < r' c" if c: "(s(a := t)) c \<noteq> Var c" "b \<in> vars ((s(a := t)) c)" for b c
  proof (cases "c = a")
    case True
    with c have b: "b \<in> vars t" by simp
    with t have "(b, a) \<notin> (edges s)\<^sup>*" by (auto simp: mentions_def)
    then show ?thesis using True b R by (simp add: r'_def trans_less_add2)
  next
    case False
    with c have b: "s c \<noteq> Var c" "b \<in> vars (s c)" by simp_all
    then have "(c, b) \<in> edges s" "r b < r c" using r by (simp_all add: edges_def ranked_def)
    then show ?thesis by (auto simp: r'_def dest: converse_rtrancl_into_rtrancl)
  qed
  then have "ranked r' (s(a := t))" unfolding ranked_def by blast
  then show ?thesis by blast
qed

lemma unbound_bind:
  assumes "finite V" "a \<in> V" "s a = Var a" "t \<noteq> Var a"
  shows "unbound V (s(a := t)) < unbound V s"
proof -
  have "{b \<in> V. (s(a := t)) b = Var b} = {b \<in> V. s b = Var b} - {a}"
    using assms(4) by auto
  moreover have "a \<in> {b \<in> V. s b = Var b}" using assms(2,3) by simp
  moreover have "finite {b \<in> V. s b = Var b}" using assms(1) by simp
  ultimately show ?thesis unfolding unbound_def by (simp only: card_Diff1_less)
qed

lemma store_inv_bind:
  assumes "store_inv V s" "s a = Var a" "a \<in> V" "is_signature t" "vars t \<subseteq> V" "\<not> mentions s t a"
  shows "store_inv V (s(a := t))"
  using assms ranked_bind [of _ s a t] by (auto simp: store_inv_def closed_def)

lemma solves_bind:
  assumes "s a = Var a"
  shows "solves \<sigma> (s(a := t)) \<longleftrightarrow> solves \<sigma> s \<and> \<sigma> a = subst \<sigma> t"
proof -
  have "(\<forall>b. P b \<and> \<sigma> b = subst \<sigma> ((s(a := t)) b)) \<longleftrightarrow>
      (\<forall>b. P b \<and> \<sigma> b = subst \<sigma> (s b)) \<and> \<sigma> a = subst \<sigma> t" for P
    using assms by (metis fun_upd_apply subst.simps(1))
  then show ?thesis by (simp only: solves_def)
qed

lemma size_subst_var: "c \<in> vars t \<Longrightarrow> size (\<sigma> c) \<le> size (subst \<sigma> t)"
proof (induction t)
  case (Lst d)
  then obtain x where x: "x \<in> set d" "c \<in> vars x" by auto
  with Lst.IH have "size (\<sigma> c) \<le> size (subst \<sigma> x)" by simp
  also have "\<dots> < size (Lst (map (subst \<sigma>) d))" using x by (intro size_element) simp
  finally show ?case by simp
qed simp_all

lemma size_mentions:
  assumes "solves \<sigma> s" "mentions s t a"
  shows "size (\<sigma> a) \<le> size (subst \<sigma> t)"
proof -
  obtain c where c: "c \<in> vars t" "(c, a) \<in> (edges s)\<^sup>*" using assms(2) by (auto simp: mentions_def)
  from c(2) have "size (\<sigma> a) \<le> size (\<sigma> c)"
  proof (induction rule: converse_rtrancl_induct)
    case (step y z)
    then have "size (\<sigma> z) \<le> size (subst \<sigma> (s y))" by (intro size_subst_var) (simp add: edges_def)
    then show ?case using step.IH solves_var [OF assms(1), of y] by simp
  qed simp
  then show ?thesis using size_subst_var [OF c(1), of \<sigma>] by simp
qed

lemma mentions_no_solution:
  assumes "solves \<sigma> s" "mentions s (Lst d) a"
  shows "\<sigma> a \<noteq> subst \<sigma> (Lst d)"
proof -
  obtain x where x: "x \<in> set d" "mentions s x a" using assms(2) by (auto simp: mentions_Lst)
  have "size (subst \<sigma> x) < size (Lst (map (subst \<sigma>) d))" using x by (intro size_element) simp
  with size_mentions [OF assms(1) x(2)] show ?thesis by auto
qed

section \<open>Unification\<close>

text \<open>
  What a unifier of the equation \<open>P\<close> does to the store \<open>s\<close>: the result is \<open>s'\<close> with the
  verdict \<open>b\<close>. The solutions of \<open>s'\<close> are exactly the solutions of \<open>s\<close> that satisfy the
  equation, or there are none.
\<close>

definition unified :: "addr set \<Rightarrow> store \<Rightarrow> ((addr \<Rightarrow> frag) \<Rightarrow> bool) \<Rightarrow> bool \<Rightarrow> store \<Rightarrow> bool" where
  "unified V s P b s' \<longleftrightarrow> store_inv V s' \<and> (s' = s \<or> unbound V s' < unbound V s) \<and>
     (b \<longrightarrow> (\<forall>\<sigma>. solves \<sigma> s' \<longleftrightarrow> solves \<sigma> s \<and> P \<sigma>)) \<and>
     (\<not> b \<longrightarrow> (\<forall>\<sigma>. solves \<sigma> s \<longrightarrow> \<not> P \<sigma>))"

lemma unified_True: "store_inv V s \<Longrightarrow> (\<And>\<sigma>. solves \<sigma> s \<Longrightarrow> P \<sigma>) \<Longrightarrow> unified V s P True s"
  by (auto simp: unified_def)

lemma unified_False: "store_inv V s \<Longrightarrow> (\<And>\<sigma>. solves \<sigma> s \<Longrightarrow> \<not> P \<sigma>) \<Longrightarrow> unified V s P False s"
  by (auto simp: unified_def)

lemma unified_cong: "(\<And>\<sigma>. solves \<sigma> s \<Longrightarrow> P \<sigma> \<longleftrightarrow> Q \<sigma>) \<Longrightarrow> unified V s P b s' \<Longrightarrow> unified V s Q b s'"
  unfolding unified_def by blast

lemma unified_and:
  "unified V s P True s1 \<Longrightarrow> unified V s1 Q b s2 \<Longrightarrow> unified V s (\<lambda>\<sigma>. P \<sigma> \<and> Q \<sigma>) b s2"
  by (auto simp: unified_def)

lemma unified_and_False: "unified V s P False s1 \<Longrightarrow> unified V s (\<lambda>\<sigma>. P \<sigma> \<and> Q \<sigma>) False s1"
  by (auto simp: unified_def)

lemma unified_inv: "unified V s P b s' \<Longrightarrow> store_inv V s'"
  by (simp add: unified_def)

lemma unify_var_unified:
  assumes u: "unify_var n a t s = (Ret (b, s') :: ('e, bool \<times> store) outcome)"
    and inv: "store_inv V s" and a: "s a = Var a" "a \<in> V"
    and t: "is_signature t" "vars t \<subseteq> V" "t \<noteq> Var a" "\<And>c. t = Var c \<Longrightarrow> s c = Var c"
  shows "unified V s (\<lambda>\<sigma>. \<sigma> a = subst \<sigma> t) b s'"
proof -
  have c: "closed V s" using inv by (simp add: store_inv_def)
  obtain oc where oc: "occurs_in n s a t = (Ret oc :: ('e, bool) outcome)"
    and r: "(b, s') = (if oc then (False, s) else (True, s(a := t)))"
    using u by (auto simp: unify_var_def set_val_def split: if_splits)
  have m: "oc \<longleftrightarrow> mentions s t a" by (rule occurs_in_mentions [OF oc c t(1) a(1)])
  show ?thesis
  proof (cases "mentions s t a")
    case True
    then obtain d where "t = Lst d"
      using t by (cases t) (auto simp: mentions_unbound)
    with True m r mentions_no_solution [of _ s d a] inv show ?thesis by (auto intro: unified_False)
  next
    case False
    have "finite V" using c by (simp add: closed_def)
    with False m r show ?thesis
      using store_inv_bind [OF inv a t(1,2) False] unbound_bind [of V a s t] a t(3)
      by (simp add: unified_def solves_bind)
  qed
qed

lemma unify_zipped_unified:
  assumes u: "\<And>x y s b s'. x \<in> set d \<Longrightarrow> y \<in> set e \<Longrightarrow> u x y s = Ret (b, s') \<Longrightarrow> store_inv V s \<Longrightarrow>
      unified V s (\<lambda>\<sigma>. subst \<sigma> x = subst \<sigma> y) b s'"
    and "length d = length e" "unify_zipped u d e s = Ret (b, s')" "store_inv V s"
  shows "unified V s (\<lambda>\<sigma>. map (subst \<sigma>) d = map (subst \<sigma>) e) b s'"
  using assms(2,1,3,4)
proof (induction d e arbitrary: s rule: list_induct2)
  case Nil
  then show ?case by (auto intro: unified_True)
next
  case (Cons x d y e)
  obtain c s1 where h: "u x y s = Ret (c, s1)"
    and t: "(if \<not> c then Ret (False, s1) else unify_zipped u d e s1) = Ret (b, s')"
    using Cons.prems(2) by auto
  note 1 = Cons.prems(1) [OF _ _ h Cons.prems(3)]
  show ?case
  proof (cases c)
    case True
    have "unified V s1 (\<lambda>\<sigma>. map (subst \<sigma>) d = map (subst \<sigma>) e) b s'"
      using t True unified_inv [OF 1] Cons.prems(1) by (intro Cons.IH) simp_all
    from unified_and [OF _ this] 1 True show ?thesis by simp
  next
    case False
    with t 1 unified_and_False show ?thesis by simp
  qed
qed

lemma token_chars_equal_iff:
  "list_all is_ch a \<Longrightarrow> list_all is_ch b \<Longrightarrow> length a = length b \<Longrightarrow> token_chars_equal lb a b \<longleftrightarrow> a = b"
  by (induction lb a b rule: token_chars_equal.induct) (auto elim!: is_ch.elims)

lemma token_equals_iff:
  "list_all is_ch a \<Longrightarrow> list_all is_ch b \<Longrightarrow> token_equals lb (Lst a) (Lst b) \<longleftrightarrow> a = b"
  by (auto simp: token_chars_equal_iff)

lemma solves_signature: "solves \<sigma> s \<Longrightarrow> is_signature (\<sigma> a)"
  unfolding solves_def by blast

lemma unify_lists:
  assumes inv: "store_inv V s"
    and x: "is_signature (Lst d)" and y: "is_signature (Lst e)"
    and r: "(if is_token (Lst d) \<and> is_token (Lst e) then Ret (token_equals lb (Lst d) (Lst e), s)
       else if is_token (Lst d) \<or> is_token (Lst e) then Ret (False, s)
       else if length d = length e then unify_zipped u d e s else Ret (False, s)) = Ret (b, s')"
    and u: "\<not> is_token (Lst d) \<Longrightarrow> \<not> is_token (Lst e) \<Longrightarrow> length d = length e \<Longrightarrow> unify_zipped u d e s = Ret (b, s') \<Longrightarrow>
       unified V s (\<lambda>\<sigma>. map (subst \<sigma>) d = map (subst \<sigma>) e) b s'"
  shows "unified V s (\<lambda>\<sigma>. subst \<sigma> (Lst d) = subst \<sigma> (Lst e)) b s'"
proof (cases "is_token (Lst d)"; cases "is_token (Lst e)")
  assume t: "is_token (Lst d)" "is_token (Lst e)"
  then have "list_all is_ch d" "list_all is_ch e" using x y by (simp_all add: is_token_iff)
  then show ?thesis
    using r t inv by (auto simp: token_equals_iff subst_characters simp del: token_equals.simps
        intro: unified_True unified_False)
next
  assume t: "is_token (Lst d)" "\<not> is_token (Lst e)"
  have "\<not> is_token (subst \<sigma> (Lst e))" if "solves \<sigma> s" for \<sigma>
    using that by (intro subst_not_token [OF y t(2)]) (rule solves_signature)
  then have "subst \<sigma> (Lst d) \<noteq> subst \<sigma> (Lst e)" if "solves \<sigma> s" for \<sigma>
    using that subst_token [OF x t(1)] t(1) by metis
  with r t inv show ?thesis by (auto intro: unified_False)
next
  assume t: "\<not> is_token (Lst d)" "is_token (Lst e)"
  have "\<not> is_token (subst \<sigma> (Lst d))" if "solves \<sigma> s" for \<sigma>
    using that by (intro subst_not_token [OF x t(1)]) (rule solves_signature)
  then have "subst \<sigma> (Lst d) \<noteq> subst \<sigma> (Lst e)" if "solves \<sigma> s" for \<sigma>
    using that subst_token [OF y t(2)] t(2) by metis
  with r t inv show ?thesis by (auto intro: unified_False)
next
  assume t: "\<not> is_token (Lst d)" "\<not> is_token (Lst e)"
  show ?thesis
  proof (cases "length d = length e")
    case True
    with r t u show ?thesis by simp
  next
    case False
    then have "map (subst \<sigma>) d \<noteq> map (subst \<sigma>) e" for \<sigma> by (metis length_map)
    with r t inv False show ?thesis by (auto intro: unified_False)
  qed
qed

lemma elements_vars:
  "evaluate n s t = (Ret (Lst d) :: ('e, frag) outcome) \<Longrightarrow> closed V s \<Longrightarrow> vars t \<subseteq> V \<Longrightarrow> x \<in> set d \<Longrightarrow> vars x \<subseteq> V"
  using evaluate_vars [of n s t "Lst d" V] by auto

lemma unify_unified:
  "unify lb n x y s = (Ret (b, s') :: ('e, bool \<times> store) outcome) \<Longrightarrow> store_inv V s \<Longrightarrow>
   is_signature x \<Longrightarrow> is_signature y \<Longrightarrow> vars x \<subseteq> V \<Longrightarrow> vars y \<subseteq> V \<Longrightarrow>
   unified V s (\<lambda>\<sigma>. subst \<sigma> x = subst \<sigma> y) b s'"
proof (induction n arbitrary: x y s b s')
  case (Suc n)
  have c: "closed V s" using Suc.prems(2) by (simp add: store_inv_def)
  obtain xl yl where xl: "evaluate n s x = (Ret xl :: ('e, frag) outcome)"
    and yl: "evaluate n s y = (Ret yl :: ('e, frag) outcome)" using Suc.prems(1) by auto
  note sig = evaluate_signature [OF xl c Suc.prems(3)] evaluate_signature [OF yl c Suc.prems(4)]
  note vs = evaluate_vars [OF xl c Suc.prems(5)] evaluate_vars [OF yl c Suc.prems(6)]
  note rt = evaluate_root [OF xl] evaluate_root [OF yl]
  have "unified V s (\<lambda>\<sigma>. subst \<sigma> xl = subst \<sigma> yl) b s'"
  proof (cases "\<exists>a. xl = Var a")
    case True
    then obtain a where a: "xl = Var a" by blast
    show ?thesis
    proof (cases "yl = xl")
      case True
      then have "b \<and> s' = s" using Suc.prems(1) xl yl a by (auto simp: var_equals_def)
      with True Suc.prems(2) show ?thesis by (auto intro: unified_True)
    next
      case False
      then have "unify_var n a yl s = (Ret (b, s') :: ('e, bool \<times> store) outcome)"
        using Suc.prems(1) xl yl a by (cases yl) (auto simp: var_equals_def)
      from unify_var_unified [OF this Suc.prems(2)] show ?thesis
        using False a rt vs sig by auto
    qed
  next
    case False
    show ?thesis
    proof (cases "\<exists>a. yl = Var a")
      case True
      then obtain a where a: "yl = Var a" by blast
      then have "unify_var n a xl s = (Ret (b, s') :: ('e, bool \<times> store) outcome)"
        using Suc.prems(1) xl yl False sig by (cases xl) auto
      from unify_var_unified [OF this Suc.prems(2)] have "unified V s (\<lambda>\<sigma>. \<sigma> a = subst \<sigma> xl) b s'"
        using False a rt vs sig by auto
      then show ?thesis using a by (auto elim: unified_cong [rotated])
    next
      case False2: False
      obtain d e where de: "xl = Lst d" "yl = Lst e"
        using False False2 sig by (cases xl; cases yl) auto
      note el = elements_signature [OF xl [unfolded de] _ c Suc.prems(3)] elements_signature [OF yl [unfolded de] _ c Suc.prems(4)]
      note ev = elements_vars [OF xl [unfolded de] c Suc.prems(5)] elements_vars [OF yl [unfolded de] c Suc.prems(6)]
      show ?thesis
        unfolding de
      proof (rule unify_lists [OF Suc.prems(2) sig [unfolded de], where lb = lb and u = "unify lb n"])
        show "(if is_token (Lst d) \<and> is_token (Lst e) then Ret (token_equals lb (Lst d) (Lst e), s)
           else if is_token (Lst d) \<or> is_token (Lst e) then Ret (False, s)
           else if length d = length e then unify_zipped (unify lb n) d e s else Ret (False, s)) =
             (Ret (b, s') :: ('e, bool \<times> store) outcome)"
          using Suc.prems(1) xl yl de by simp
        assume t: "\<not> is_token (Lst d)" "\<not> is_token (Lst e)" "length d = length e"
          "unify_zipped (unify lb n) d e s = (Ret (b, s') :: ('e, bool \<times> store) outcome)"
        show "unified V s (\<lambda>\<sigma>. map (subst \<sigma>) d = map (subst \<sigma>) e) b s'"
          by (rule unify_zipped_unified [OF _ t(3,4) Suc.prems(2)]) (rule Suc.IH; use el ev t in blast)
      qed
    qed
  qed
  then show ?case
    by (rule unified_cong [rotated]) (simp add: evaluate_subst [OF xl] evaluate_subst [OF yl])
qed simp

subsection \<open>Unification returns\<close>

lemma unify_var_settles:
  assumes "store_inv V s" "is_signature t"
  shows "\<exists>b s'. settles (\<lambda>n. unify_var n a t s :: ('e, bool \<times> store) outcome) (Ret (b, s'))"
proof -
  obtain r where "ranked r s" "closed V s" using assms(1) by (auto simp: store_inv_def)
  then obtain c where c: "settles (\<lambda>n. occurs_in n s a t :: ('e, bool) outcome) (Ret c)"
    using occurs_in_settles assms(2) by blast
  have "settles (\<lambda>n. if \<not> c then Ret (True, set_val a t s) else Ret (False, s) :: ('e, bool \<times> store) outcome)
      (Ret (\<not> c, if c then s else set_val a t s))"
    by (cases c) simp_all
  then have "settles (\<lambda>n. unify_var n a t s :: ('e, bool \<times> store) outcome) (Ret (\<not> c, if c then s else set_val a t s))"
    unfolding unify_var_def by (rule settles_bindO [OF c])
  then show ?thesis by blast
qed

lemma unify_zipped_settles:
  assumes step: "\<And>x y t. x \<in> set d \<Longrightarrow> y \<in> set e \<Longrightarrow> store_inv V t \<Longrightarrow> ok t \<Longrightarrow>
      \<exists>b s'. settles (\<lambda>n. u n x y t) (Ret (b, s')) \<and> store_inv V s' \<and> ok s'"
    and "length d = length e" "store_inv V s" "ok s"
  shows "\<exists>b s'. settles (\<lambda>n. unify_zipped (u n) d e s) (Ret (b, s'))"
  using assms(2,1,3,4)
proof (induction d e arbitrary: s rule: list_induct2)
  case (Cons x d y e)
  obtain c s1 where h: "settles (\<lambda>n. u n x y s) (Ret (c, s1))" "store_inv V s1" "ok s1"
    using Cons.prems(1) [of x y s] Cons.prems(2,3) by auto
  have "\<exists>b s'. settles (\<lambda>n. unify_zipped (u n) d e s1) (Ret (b, s'))"
    by (rule Cons.IH) (use Cons.prems(1) h in auto)
  then obtain b s' where t: "settles (\<lambda>n. unify_zipped (u n) d e s1) (Ret (b, s'))" by blast
  have "settles (\<lambda>n. unify_zipped (u n) (x # d) (y # e) s) (if c then Ret (b, s') else Ret (False, s1))"
    unfolding unify_zipped.simps by (rule settles_bindO [OF h(1)]) (use t in \<open>cases c; simp\<close>)
  then show ?case by (cases c) auto
qed auto

lemma unify_settles_step:
  assumes inv: "store_inv V s" and sig: "is_signature x" "is_signature y"
    and vs: "vars x \<subseteq> V" "vars y \<subseteq> V"
    and elements: "\<And>n d m e. evaluate n s x = (Ret (Lst d) :: ('e, frag) outcome) \<Longrightarrow> \<not> is_token (Lst d) \<Longrightarrow>
       evaluate m s y = (Ret (Lst e) :: ('e, frag) outcome) \<Longrightarrow> \<not> is_token (Lst e) \<Longrightarrow> length d = length e \<Longrightarrow>
       \<exists>b s'. settles (\<lambda>n. unify_zipped (unify lb n) d e s :: ('e, bool \<times> store) outcome) (Ret (b, s'))"
  shows "\<exists>b s'. settles (\<lambda>n. unify lb n x y s :: ('e, bool \<times> store) outcome) (Ret (b, s'))"
proof -
  obtain r where r: "ranked r s" and c: "closed V s" using inv by (auto simp: store_inv_def)
  obtain xl yl where x: "settles (\<lambda>n. evaluate n s x :: ('e, frag) outcome) (Ret xl)"
    and y: "settles (\<lambda>n. evaluate n s y :: ('e, frag) outcome) (Ret yl)"
    using evaluate_settles [OF r] by blast
  obtain i j where i: "evaluate i s x = (Ret xl :: ('e, frag) outcome)" and j: "evaluate j s y = (Ret yl :: ('e, frag) outcome)"
    using settles_at [OF x] settles_at [OF y] by blast
  note sl = evaluate_signature [OF i c sig(1)] evaluate_signature [OF j c sig(2)]
  have "\<exists>b s'. settles (\<lambda>n. (case (xl, yl) of
         (Var a, Var b) \<Rightarrow> if var_equals xl yl then Ret (True, s) else unify_var n a yl s
       | (Var a, _) \<Rightarrow> unify_var n a yl s
       | (_, Var b) \<Rightarrow> unify_var n b xl s
       | (Lst d, Lst e) \<Rightarrow>
           if is_token xl \<and> is_token yl then Ret (token_equals lb xl yl, s)
           else if is_token xl \<or> is_token yl then Ret (False, s)
           else if length d = length e then unify_zipped (unify lb n) d e s
           else Ret (False, s)
       | _ \<Rightarrow> Undef) :: ('e, bool \<times> store) outcome) (Ret (b, s'))"
  proof (cases "\<exists>d e. xl = Lst d \<and> yl = Lst e")
    case True
    then obtain d e where "xl = Lst d" "yl = Lst e" by blast
    then show ?thesis
      using elements [of i d j e] i j
      by (cases "is_token (Lst d)"; cases "is_token (Lst e)"; cases "length d = length e")
        (simp_all del: token_equals.simps, blast+)
  next
    case False
    then show ?thesis
      using unify_var_settles [OF inv sl(1)] unify_var_settles [OF inv sl(2)] sl
      by (cases "xl = yl"; cases xl; cases yl) (auto simp: var_equals_def)
  qed
  then show ?thesis
    using settles_SucI [where f = "\<lambda>n. unify lb n x y s", unfolded unify.simps, OF settles_bindO [OF x settles_bindO [OF y]]]
    by blast
qed

lemma unify_settles:
  "store_inv V s \<Longrightarrow> is_signature x \<Longrightarrow> is_signature y \<Longrightarrow> vars x \<subseteq> V \<Longrightarrow> vars y \<subseteq> V \<Longrightarrow>
   \<exists>b s'. settles (\<lambda>n. unify lb n x y s :: ('e, bool \<times> store) outcome) (Ret (b, s'))"
proof (induction "unbound V s" arbitrary: s x y rule: less_induct)
  case less
  obtain r where r: "ranked r s" and c: "closed V s" using less.prems by (auto simp: store_inv_def)
  note smaller = less.hyps
  let ?ok = "\<lambda>t. t = s \<or> unbound V t < unbound V s"
  have "vars x \<subseteq> V \<longrightarrow> (\<forall>y. is_signature y \<longrightarrow> vars y \<subseteq> V \<longrightarrow>
     (\<exists>b s'. settles (\<lambda>n. unify lb n x y s :: ('e, bool \<times> store) outcome) (Ret (b, s'))))"
    using r c less.prems(2)
  proof (induction x rule: expansion_induct [where ?'e = 'e])
    case (expand x)
    show ?case
    proof (intro impI allI)
      fix y assume p: "vars x \<subseteq> V" "is_signature y" "vars y \<subseteq> V"
      show "\<exists>b s'. settles (\<lambda>n. unify lb n x y s :: ('e, bool \<times> store) outcome) (Ret (b, s'))"
      proof (rule unify_settles_step [OF less.prems(1) expand.hyps p(2,1,3)])
        fix n d m e
        assume d: "evaluate n s x = (Ret (Lst d) :: ('e, frag) outcome)" "\<not> is_token (Lst d)"
          and e: "evaluate m s y = (Ret (Lst e) :: ('e, frag) outcome)" "\<not> is_token (Lst e)" and l: "length d = length e"
        note el = elements_signature [OF d c expand.hyps] elements_signature [OF e c p(2)]
        note ev = elements_vars [OF d(1) c p(1)] elements_vars [OF e(1) c p(3)]
        show "\<exists>b s'. settles (\<lambda>n. unify_zipped (unify lb n) d e s :: ('e, bool \<times> store) outcome) (Ret (b, s'))"
        proof (rule unify_zipped_settles [where ok = ?ok, OF _ l less.prems(1)])
          fix a b t assume a: "a \<in> set d" "b \<in> set e" "store_inv V t" "?ok t"
          then have "\<exists>b' s'. settles (\<lambda>n. unify lb n a b t :: ('e, bool \<times> store) outcome) (Ret (b', s'))"
            using expand.IH [OF d a(1)] smaller [of t a b] el ev by blast
          then obtain b' s' where st: "settles (\<lambda>n. unify lb n a b t :: ('e, bool \<times> store) outcome) (Ret (b', s'))" by blast
          from settles_at [OF this] obtain k where "unify lb k a b t = (Ret (b', s') :: ('e, bool \<times> store) outcome)" by blast
          from unify_unified [OF this a(3)] el ev a have "unified V t (\<lambda>\<sigma>. subst \<sigma> a = subst \<sigma> b) b' s'" by blast
          then have "store_inv V s'" "?ok s'" using a(4) by (auto simp: unified_def)
          with st show "\<exists>b' s'. settles (\<lambda>n. unify lb n a b t :: ('e, bool \<times> store) outcome) (Ret (b', s')) \<and> store_inv V s' \<and> ?ok s'"
            by blast
        qed simp
      qed
    qed
  qed
  with less.prems show ?case by blast
qed

section \<open>Full evaluation\<close>

text \<open>The fragment that a signature stands for: \<open>e\<close> mentions unbound variables only and agrees
  with the signature under every solution.\<close>

definition full_value :: "store \<Rightarrow> frag \<Rightarrow> frag \<Rightarrow> bool" where
  "full_value s t e \<longleftrightarrow> is_signature e \<and> (\<forall>a \<in> vars e. s a = Var a) \<and>
     (\<forall>\<sigma>. solves \<sigma> s \<longrightarrow> subst \<sigma> e = subst \<sigma> t)"

lemma collect_settles:
  "(\<And>x. x \<in> set d \<Longrightarrow> \<exists>y. settles (\<lambda>n. f n x) (Ret y) \<and> Q x y) \<Longrightarrow>
   \<exists>ys. settles (\<lambda>n. collect (f n) d) (Ret ys) \<and> list_all2 Q d ys"
proof (induction d)
  case (Cons x d)
  obtain y where y: "settles (\<lambda>n. f n x) (Ret y)" "Q x y" using Cons.prems by auto
  obtain ys where ys: "settles (\<lambda>n. collect (f n) d) (Ret ys)" "list_all2 Q d ys"
    using Cons by auto
  have "settles (\<lambda>n. collect (f n) (x # d)) (Ret (y # ys))"
    unfolding collect.simps by (rule settles_bindO [OF y(1)], rule settles_bindO [OF ys(1)]) simp
  with y ys show ?case by (intro exI [of _ "y # ys"]) simp
qed auto

lemma list_all2_full_value:
  assumes "list_all2 (full_value s) d ys"
  shows "full_value s (Lst d) (Lst ys)"
proof -
  have "list_all is_signature ys \<and> (\<forall>y \<in> set ys. \<forall>a \<in> vars y. s a = Var a) \<and>
      (\<forall>\<sigma>. solves \<sigma> s \<longrightarrow> map (subst \<sigma>) ys = map (subst \<sigma>) d)"
    using assms by (induction rule: list_all2_induct) (simp_all add: full_value_def)
  then show ?thesis by (simp add: full_value_def)
qed

lemma full_value_evaluate:
  assumes "evaluate n s t = Ret d" "full_value s d e"
  shows "full_value s t e"
  using assms(2) evaluate_subst [OF assms(1)] by (simp add: full_value_def)

lemma recursive_evaluate_settles:
  assumes "ranked r s" "closed V s" "is_signature t"
  shows "\<exists>e. settles (\<lambda>n. recursive_evaluate n s t :: ('e, frag) outcome) (Ret e) \<and> full_value s t e"
  using assms
proof (induction t rule: expansion_induct [where ?'e = 'e])
  case (expand t)
  obtain d where d: "settles (\<lambda>n. evaluate n s t :: ('e, frag) outcome) (Ret d)"
    using evaluate_settles [OF assms(1)] by blast
  from settles_at [OF d] obtain m where m: "evaluate m s t = (Ret d :: ('e, frag) outcome)" by blast
  have "\<exists>e. settles (\<lambda>n. (case d of Ch c \<Rightarrow> Undef | Var a \<Rightarrow> Ret d
       | Lst xs \<Rightarrow> if is_token d then Ret d
                   else bindO (collect (recursive_evaluate n s) xs) (\<lambda>res. Ret (Lst res))) :: ('e, frag) outcome) (Ret e)
      \<and> full_value s d e"
    using m assms(2) expand(1)
  proof (cases rule: evaluate_signature_cases)
    case (1 a)
    then show ?thesis by (intro exI [of _ d]) (simp add: full_value_def)
  next
    case (2 xs)
    then show ?thesis
      by (intro exI [of _ d]) (simp add: full_value_def vars_characters subst_characters del: vars.simps)
  next
    case (3 xs)
    then obtain ys where ys: "settles (\<lambda>n. collect (recursive_evaluate n s) xs :: ('e, frag list) outcome) (Ret ys)"
      "list_all2 (full_value s) xs ys"
      using collect_settles [of xs "\<lambda>n. recursive_evaluate n s" "full_value s"] expand.IH [of m xs] m by blast
    have "settles (\<lambda>n. bindO (collect (recursive_evaluate n s) xs) (\<lambda>res. Ret (Lst res)) :: ('e, frag) outcome) (Ret (Lst ys))"
      by (rule settles_bindO [OF ys(1)]) simp
    with list_all2_full_value [OF ys(2)] 3 show ?thesis by auto
  qed
  then obtain e where e: "settles (\<lambda>n. (case d of Ch c \<Rightarrow> Undef | Var a \<Rightarrow> Ret d
       | Lst xs \<Rightarrow> if is_token d then Ret d
                   else bindO (collect (recursive_evaluate n s) xs) (\<lambda>res. Ret (Lst res))) :: ('e, frag) outcome) (Ret e)"
      "full_value s d e" by blast
  have "settles (\<lambda>n. recursive_evaluate n s t :: ('e, frag) outcome) (Ret e)"
    by (rule settles_SucI, unfold recursive_evaluate.simps) (rule settles_bindO [OF d], rule e(1))
  with full_value_evaluate [OF m e(2)] show ?case by blast
qed

text \<open>An acyclic store has a solution that leaves its unbound variables alone; it maps every
  signature to its full value.\<close>

lemma subst_id: "(\<And>a. a \<in> vars t \<Longrightarrow> \<sigma> a = Var a) \<Longrightarrow> subst \<sigma> t = t"
  by (induction t) (auto intro: map_idI)

lemma full_value_agree:
  assumes "solves \<sigma> s" "\<And>a. s a = Var a \<Longrightarrow> \<sigma> a = Var a" "full_value s t e"
  shows "subst \<sigma> t = e"
  using assms subst_id [of e \<sigma>] by (simp add: full_value_def)

lemma recursive_evaluate_same:
  assumes "settles (\<lambda>n. evaluate n s t :: ('e, frag) outcome) (Ret d)"
    and "settles (\<lambda>n. evaluate n s u :: ('e, frag) outcome) (Ret d)"
    and "settles (\<lambda>n. recursive_evaluate n s t :: ('e, frag) outcome) v"
  shows "settles (\<lambda>n. recursive_evaluate n s u :: ('e, frag) outcome) v"
proof -
  obtain i j k where i: "\<forall>m \<ge> i. evaluate m s t = (Ret d :: ('e, frag) outcome)"
    and j: "\<forall>m \<ge> j. evaluate m s u = (Ret d :: ('e, frag) outcome)"
    and k: "\<forall>m \<ge> k. recursive_evaluate m s t = (v :: ('e, frag) outcome)"
    using assms by (auto simp: settles_def)
  have "recursive_evaluate (Suc m) s u = v" if "max i (max j k) \<le> m" for m
  proof -
    have "recursive_evaluate (Suc m) s u = (recursive_evaluate (Suc m) s t :: ('e, frag) outcome)"
      using i j that by simp
    also have "\<dots> = v" using k that by (simp del: recursive_evaluate.simps)
    finally show ?thesis .
  qed
  then have "settles (\<lambda>n. recursive_evaluate (Suc n) s u) v" unfolding settles_def by blast
  then show ?thesis by (rule settles_SucI)
qed

lemma acyclic_solution:
  assumes "store_inv V s"
  shows "\<exists>\<sigma>. solves \<sigma> s \<and> (\<forall>a. s a = Var a \<longrightarrow> \<sigma> a = Var a)"
proof -
  obtain r where r: "ranked r s" and c: "closed V s" using assms by (auto simp: store_inv_def)
  let ?R = "\<lambda>t e. settles (\<lambda>n. recursive_evaluate n s t :: (unit, frag) outcome) (Ret e)"
  let ?E = "\<lambda>t e. settles (\<lambda>n. evaluate n s t :: (unit, frag) outcome) (Ret e)"
  have "\<forall>a. \<exists>e. ?R (Var a) e \<and> full_value s (Var a) e"
    by (intro allI recursive_evaluate_settles [OF r c]) simp
  then obtain \<sigma> where \<sigma>: "\<And>a. ?R (Var a) (\<sigma> a)" "\<And>a. is_signature (\<sigma> a)"
    unfolding full_value_def by metis
  have val: "?R t (subst \<sigma> t)" if "is_signature t" for t
    using r c that
  proof (induction t rule: expansion_induct [where ?'e = unit])
    case (expand t)
    show ?case
    proof (cases t)
      case (Lst xs)
      have e: "?E t t" by (rule evaluate_settles_root) (simp add: Lst)
      have "settles (\<lambda>n. (if is_token t then Ret t
          else bindO (collect (recursive_evaluate n s) xs) (\<lambda>res. Ret (Lst res))) :: (unit, frag) outcome) (Ret (subst \<sigma> t))"
      proof (cases "is_token t")
        case True
        then show ?thesis using subst_token [OF expand.hyps] by simp
      next
        case False
        have "\<exists>ys. settles (\<lambda>n. collect (recursive_evaluate n s) xs :: (unit, frag list) outcome) (Ret ys)
            \<and> list_all2 (\<lambda>x y. y = subst \<sigma> x) xs ys"
          using expand.IH [of 1 xs] Lst False by (intro collect_settles) (auto simp: evaluate.simps)
        then obtain ys where "settles (\<lambda>n. collect (recursive_evaluate n s) xs :: (unit, frag list) outcome) (Ret ys)"
          and "list_all2 (\<lambda>x y. y = subst \<sigma> x) xs ys" by blast
        moreover from this(2) have "ys = map (subst \<sigma>) xs" by (induction rule: list_all2_induct) simp_all
        ultimately have "settles (\<lambda>n. collect (recursive_evaluate n s) xs :: (unit, frag list) outcome) (Ret (map (subst \<sigma>) xs))" by simp
        with False Lst show ?thesis by (auto intro!: settles_bindO)
      qed
      then show ?thesis
        by - (rule settles_SucI, unfold recursive_evaluate.simps, rule settles_bindO [OF e], simp add: Lst)
    qed (use \<sigma> expand.hyps in auto)
  qed
  have "\<sigma> a = subst \<sigma> (s a)" for a
  proof (cases "s a = Var a")
    case False
    have sa: "is_signature (s a)" using c by (simp add: closed_def)
    obtain d where d: "?E (s a) d" using evaluate_settles [OF r] by blast
    have "?R (Var a) (subst \<sigma> (s a))"
      by (rule recursive_evaluate_same [OF d evaluate_settles_step [OF False d] val [OF sa]])
    from settles_unique [OF \<sigma>(1) [of a] this] show ?thesis by simp
  qed simp
  moreover have "\<sigma> a = Var a" if a: "s a = Var a" for a
  proof -
    have "?E (Var a) (Var a)" by (rule evaluate_settles_root) (simp add: a)
    then have "?R (Var a) (Var a)"
      by - (rule settles_SucI, unfold recursive_evaluate.simps, rule settles_bindO, assumption, simp)
    from settles_unique [OF this \<sigma>(1)] show ?thesis by simp
  qed
  ultimately show ?thesis using \<sigma>(2) unfolding solves_def by blast
qed

section \<open>The properties\<close>

text \<open>C1. On an acyclic store \<open>unify\<close> returns. If it succeeds, the solutions
of the new store are exactly the solutions of the old store that make both signatures equal; if
it fails, no solution makes them equal. The new store is acyclic again.\<close>

lemma unify_most_general:
  assumes "store_inv V s" "is_signature x" "is_signature y" "vars x \<subseteq> V" "vars y \<subseteq> V"
  shows "\<exists>b s'. settles (\<lambda>n. unify lb n x y s :: ('e, bool \<times> store) outcome) (Ret (b, s')) \<and> store_inv V s' \<and>
    (b \<longrightarrow> (\<forall>\<sigma>. solves \<sigma> s' \<longleftrightarrow> solves \<sigma> s \<and> subst \<sigma> x = subst \<sigma> y)) \<and>
    (\<not> b \<longrightarrow> (\<forall>\<sigma>. solves \<sigma> s \<longrightarrow> subst \<sigma> x \<noteq> subst \<sigma> y))"
proof -
  obtain b s' where st: "settles (\<lambda>n. unify lb n x y s :: ('e, bool \<times> store) outcome) (Ret (b, s'))"
    using unify_settles [OF assms] by blast
  from settles_at [OF st] obtain n where "unify lb n x y s = (Ret (b, s') :: ('e, bool \<times> store) outcome)" by blast
  from unify_unified [OF this assms] st show ?thesis unfolding unified_def by blast
qed

lemma empty_store_inv: "finite V \<Longrightarrow> store_inv V Var"
  by (auto simp: store_inv_def closed_def ranked_def)

lemma unify_most_general_witness:
  "\<exists>b s'. settles (\<lambda>n. unify (\<lambda>_. CHR 0x00) n (Lst [Lst [Ch (CHR ''f'')], Var 8]) (Lst [Var 16, Lst [Var 16, Var 24]]) Var
       :: (unit, bool \<times> store) outcome) (Ret (b, s')) \<and> store_inv {8, 16, 24} s' \<and>
    (b \<longrightarrow> (\<forall>\<sigma>. solves \<sigma> s' \<longleftrightarrow> solves \<sigma> Var \<and>
       subst \<sigma> (Lst [Lst [Ch (CHR ''f'')], Var 8]) = subst \<sigma> (Lst [Var 16, Lst [Var 16, Var 24]]))) \<and>
    (\<not> b \<longrightarrow> (\<forall>\<sigma>. solves \<sigma> Var \<longrightarrow>
       subst \<sigma> (Lst [Lst [Ch (CHR ''f'')], Var 8]) \<noteq> subst \<sigma> (Lst [Var 16, Lst [Var 16, Var 24]])))"
  by (rule unify_most_general [OF empty_store_inv]) simp_all

text \<open>C17. After a successful unification \<open>recursive_evaluate\<close> returns the
same fragment for both signatures, and the variables that are left in it are unbound.\<close>

lemma unify_same_value:
  assumes "store_inv V s" "is_signature x" "is_signature y" "vars x \<subseteq> V" "vars y \<subseteq> V"
    and "unify lb n x y s = (Ret (True, s') :: ('e, bool \<times> store) outcome)"
  shows "\<exists>e. settles (\<lambda>n. recursive_evaluate n s' x :: ('e, frag) outcome) (Ret e) \<and>
    settles (\<lambda>n. recursive_evaluate n s' y :: ('e, frag) outcome) (Ret e) \<and>
    is_signature e \<and> (\<forall>a \<in> vars e. s' a = Var a)"
proof -
  have u: "unified V s (\<lambda>\<sigma>. subst \<sigma> x = subst \<sigma> y) True s'" by (rule unify_unified [OF assms(6,1-5)])
  then obtain r where r: "ranked r s'" and c: "closed V s'" by (auto simp: unified_def store_inv_def)
  obtain \<sigma> where \<sigma>: "solves \<sigma> s'" "\<And>a. s' a = Var a \<Longrightarrow> \<sigma> a = Var a"
    using acyclic_solution [OF unified_inv [OF u]] by blast
  obtain d where d: "settles (\<lambda>n. recursive_evaluate n s' x :: ('e, frag) outcome) (Ret d)" "full_value s' x d"
    using recursive_evaluate_settles [OF r c assms(2)] by blast
  obtain e where e: "settles (\<lambda>n. recursive_evaluate n s' y :: ('e, frag) outcome) (Ret e)" "full_value s' y e"
    using recursive_evaluate_settles [OF r c assms(3)] by blast
  have "subst \<sigma> x = subst \<sigma> y" using u \<sigma>(1) by (simp add: unified_def)
  then have "d = e" using full_value_agree [OF \<sigma> d(2)] full_value_agree [OF \<sigma> e(2)] by simp
  with d e show ?thesis unfolding full_value_def by blast
qed

lemma unify_same_value_witness:
  "\<exists>s' e. settles (\<lambda>n. recursive_evaluate n s' (Lst [Lst [Ch (CHR ''f'')], Var 8]) :: (unit, frag) outcome) (Ret e) \<and>
    settles (\<lambda>n. recursive_evaluate n s' (Lst [Var 16, Lst [Var 16, Var 24]]) :: (unit, frag) outcome) (Ret e) \<and>
    is_signature e \<and> (\<forall>a \<in> vars e. s' a = Var a)"
proof -
  have "unify (\<lambda>_. CHR 0x00) (Suc (Suc (Suc (Suc (Suc (Suc (Suc 0))))))) (Lst [Lst [Ch (CHR ''f'')], Var 8]) (Lst [Var 16, Lst [Var 16, Var 24]]) Var =
      (Ret (True, Var(16 := Lst [Ch (CHR ''f'')], 8 := Lst [Var 16, Var 24])) :: (unit, bool \<times> store) outcome)"
    by (simp add: evaluate.simps get_val_def unify_var_def set_val_def var_equals_def)
  from unify_same_value [OF empty_store_inv [of "{8, 16, 24}"] _ _ _ _ this]
  show ?thesis by (intro exI [of _ "Var(16 := Lst [Ch (CHR ''f'')], 8 := Lst [Var 16, Var 24])"]) simp
qed

end
