(* ===== verification/Regions.thy ===== *)
theory Regions
  imports C_Strings
begin

text \<open>
  The region allocator of \<open>bootstrap/x86_64_linux_interface.c\<close>: padding, chunk creation,
  bump allocation with growth, and destruction, over the headers that the code keeps in
  memory. The invariant says that the blocks handed out never overlap.
\<close>

section \<open>Padding\<close>

definition pad_size :: "u64 \<Rightarrow> u64 \<Rightarrow> u64" where
  "pad_size x nearest =
     (let rem = x mod nearest in x + (if rem \<noteq> 0 then nearest - rem else 0))"

text \<open>The padded size is the least multiple that is not smaller, when it fits.\<close>

definition padded :: "nat \<Rightarrow> nat \<Rightarrow> nat" where
  "padded x n = ((x + n - 1) div n) * n"

lemma padded_alt:
  assumes "0 < n"
  shows "padded x n = x + (if x mod n \<noteq> 0 then n - x mod n else 0)"
proof -
  let ?q = "x div n" and ?r = "x mod n"
  have x: "x = ?q * n + ?r" by simp
  show ?thesis
  proof (cases "?r = 0")
    case True
    then obtain q where "x = n * q" by auto
    then have "x + n - 1 = (n - 1) + q * n" using assms by (simp add: mult.commute)
    then have "(x + n - 1) div n = q" using assms by (simp only: div_mult_self1) simp
    then show ?thesis using \<open>x = n * q\<close> by (simp add: padded_def mult.commute)
  next
    case False
    moreover have "(?q + 1) * n = ?q * n + n" by simp
    ultimately have "(x + n - 1) = (?q + 1) * n + (?r - 1)" using x by linarith
    moreover have "?r - 1 < n" using assms by (meson less_imp_diff_less mod_less_divisor)
    ultimately have "(x + n - 1) div n = ?q + 1"
      using assms by (metis add.commute add_0 div_less div_mult_self1 not_gr_zero)
    then have "padded x n = ?q * n + n" by (simp add: padded_def algebra_simps)
    also have "\<dots> = x + (n - ?r)"
      using x mod_less_divisor [OF assms, of x] by linarith
    finally show ?thesis using False by simp
  qed
qed

lemma padded_ge: "0 < n \<Longrightarrow> x \<le> padded x n"
  by (simp add: padded_alt)

lemma padded_less: "0 < n \<Longrightarrow> padded x n < x + n"
  by (auto simp: padded_alt)

lemma padded_dvd: "n dvd padded x n"
  by (simp add: padded_def)

lemma padded_least: "n dvd y \<Longrightarrow> x \<le> y \<Longrightarrow> 0 < n \<Longrightarrow> padded x n \<le> y"
proof -
  assume "n dvd y" "x \<le> y" "0 < n"
  then obtain q where y: "y = n * q" by auto
  show "padded x n \<le> y"
  proof (rule ccontr)
    assume "\<not> padded x n \<le> y"
    then have "y < padded x n" by simp
    with padded_dvd [of n x] y obtain p where p: "padded x n = n * p" by auto
    with \<open>y < padded x n\<close> y have "q < p" by simp
    then have "n * q + n \<le> n * p"
      by (metis Suc_leI add.commute mult_Suc_right mult_le_mono2)
    with padded_less [OF \<open>0 < n\<close>, of x] p y \<open>x \<le> y\<close> show False by linarith
  qed
qed

lemma unat_pad_size:
  assumes "n \<noteq> 0" and "unat x + unat n \<le> 2 ^ 64"
  shows "unat (pad_size x n) = padded (unat x) (unat n)"
proof -
  have pos: "0 < unat n" using assms(1) by (simp add: unat_gt_0)
  have r: "unat (x mod n) < unat n" using pos by (simp add: unat_mod)
  have "unat (n - x mod n) = unat n - unat x mod unat n"
    using r by (subst unat_sub_small) (auto simp: word_le_nat_alt unat_mod)
  moreover have "unat x + (unat n - unat x mod unat n) < 2 ^ 64" if "unat x mod unat n \<noteq> 0"
    using assms(2) that r by (simp add: unat_mod) 
  ultimately show ?thesis
    using pos by (auto simp: pad_size_def Let_def padded_alt unat_add_small unat_eq_0 unat_mod
        simp flip: unat_eq_0 [of "x mod n"])
qed

section \<open>Regions\<close>

text \<open>
  A region is a chain of chunks obtained from the kernel. The first five words of a chunk
  are its header: the next chunk, the chunk that serves allocations (meaningful in the
  first chunk only), the first free address, the end of the chunk, and a magic number.
  The kernel's \<open>mmap\<close> and \<open>munmap\<close> are parameters; its state has type \<open>'k\<close>.
\<close>

record header =
  next_chunk :: addr
  cur_chunk :: addr
  free_ptr :: addr
  chunk_end :: addr
  magic :: u64

record 'k rstate =
  headers :: "addr \<Rightarrow> header"
  kernel :: 'k

type_synonym 'k mmap_call = "'k \<Rightarrow> u64 \<Rightarrow> addr \<times> 'k"

definition PAGE_SIZE :: u64 where "PAGE_SIZE = 4096"
definition WORD_SIZE :: u64 where "WORD_SIZE = 8"
definition ALIGNMENT :: u64 where "ALIGNMENT = 8"
definition MAGIC :: u64 where "MAGIC = 0xDEADBEEFDEADBEEF"

definition create_region :: "'k mmap_call \<Rightarrow> u64 \<Rightarrow> 'k rstate \<Rightarrow> addr \<times> 'k rstate" where
  "create_region mmap min_capacity st =
     (let len = pad_size (min_capacity + 5 * WORD_SIZE) PAGE_SIZE;
          (reg, k) = mmap (kernel st) len
      in (reg, st\<lparr>headers := (headers st)(reg :=
                  \<lparr>next_chunk = 0, cur_chunk = reg, free_ptr = reg + 5 * WORD_SIZE,
                   chunk_end = reg + len, magic = MAGIC\<rparr>),
               kernel := k\<rparr>))"

definition upd_header :: "addr \<Rightarrow> (header \<Rightarrow> header) \<Rightarrow> 'k rstate \<Rightarrow> 'k rstate" where
  "upd_header a f st = st\<lparr>headers := (headers st)(a := f (headers st a))\<rparr>"

definition region_alloc :: "'k mmap_call \<Rightarrow> addr \<Rightarrow> u64 \<Rightarrow> 'k rstate \<Rightarrow> addr \<times> 'k rstate" where
  "region_alloc mmap reg len st =
     (let len = pad_size len ALIGNMENT;
          cur = cur_chunk (headers st reg);
          st1 = (if free_ptr (headers st cur) + len > chunk_end (headers st cur)
                 then let (new, st') = create_region mmap
                            (len + 2 * (chunk_end (headers st cur) - cur)) st
                      in upd_header reg (cur_chunk_update (\<lambda>_. new))
                           (upd_header cur (next_chunk_update (\<lambda>_. new)) st')
                 else st);
          cur1 = cur_chunk (headers st1 reg);
          mem = free_ptr (headers st1 cur1)
      in (mem, upd_header cur1 (free_ptr_update (\<lambda>p. p + len)) st1))"

partial_function (option) check_region_integrity :: "addr \<Rightarrow> 'k rstate \<Rightarrow> bool option" where
  "check_region_integrity reg st =
     (if magic (headers st reg) \<noteq> MAGIC then Some False
      else if next_chunk (headers st reg) = 0 then Some True
      else check_region_integrity (next_chunk (headers st reg)) st)"

text \<open>\<open>destroy_region\<close> reads the next chunk before it unmaps the current one.\<close>

partial_function (option) destroy_region ::
  "('k \<Rightarrow> addr \<Rightarrow> u64 \<Rightarrow> 'k) \<Rightarrow> addr \<Rightarrow> 'k rstate \<Rightarrow> 'k rstate option" where
  "destroy_region munmap reg st =
     (let next_reg = next_chunk (headers st reg);
          st' = st\<lparr>kernel := munmap (kernel st) reg (chunk_end (headers st reg) - reg)\<rparr>
      in if next_reg \<noteq> 0 then destroy_region munmap next_reg st' else Some st')"

section \<open>The invariant of a region\<close>

lemma headers_upd_header [simp]:
  "headers (upd_header a f st) = (headers st)(a := f (headers st a))"
  and kernel_upd_header [simp]: "kernel (upd_header a f st) = kernel st"
  by (simp_all add: upd_header_def)

fun chain :: "(addr \<Rightarrow> header) \<Rightarrow> addr list \<Rightarrow> bool" where
  "chain h [] = False"
| "chain h [c] = (next_chunk (h c) = 0)"
| "chain h (c # d # cs) = (next_chunk (h c) = d \<and> chain h (d # cs))"

definition chunk_block :: "(addr \<Rightarrow> header) \<Rightarrow> addr \<Rightarrow> block" where
  "chunk_block h c = (unat c, unat (chunk_end (h c)) - unat c)"

text \<open>Chunks lie in the user half of the address space, below \<open>2 ^ 47\<close>.\<close>

definition chunk_ok :: "(addr \<Rightarrow> header) \<Rightarrow> addr \<Rightarrow> bool" where
  "chunk_ok h c \<longleftrightarrow> c \<noteq> 0 \<and> 8 dvd unat c \<and> 8 dvd unat (free_ptr (h c)) \<and> magic (h c) = MAGIC \<and>
     unat c + 40 \<le> unat (free_ptr (h c)) \<and> unat (free_ptr (h c)) \<le> unat (chunk_end (h c)) \<and>
     unat (chunk_end (h c)) \<le> 2 ^ 47"

text \<open>The part of a chunk that has been handed out.\<close>

definition used_block :: "(addr \<Rightarrow> header) \<Rightarrow> addr \<Rightarrow> block" where
  "used_block h c = (unat c + 40, unat (free_ptr (h c)) - (unat c + 40))"

definition region_inv :: "addr \<Rightarrow> addr list \<Rightarrow> block list \<Rightarrow> 'k rstate \<Rightarrow> bool" where
  "region_inv reg cs bs st \<longleftrightarrow>
     chain (headers st) cs \<and> hd cs = reg \<and> cur_chunk (headers st reg) = last cs \<and>
     distinct cs \<and> list_all (chunk_ok (headers st)) cs \<and>
     blocks_disjoint (map (chunk_block (headers st)) cs) \<and> blocks_disjoint bs \<and>
     list_all (\<lambda>b. list_ex (\<lambda>c. block_within b (used_block (headers st) c)) cs) bs"

text \<open>What the code relies on from \<open>mmap\<close>: the area granted for this request is page
  aligned, in user space, and overlaps none of the areas already held.\<close>

definition mmap_grants :: "'k mmap_call \<Rightarrow> 'k \<Rightarrow> u64 \<Rightarrow> block list \<Rightarrow> bool" where
  "mmap_grants mmap k len taken \<longleftrightarrow>
     (let a = fst (mmap k len) in a \<noteq> 0 \<and> 4096 dvd unat a \<and> unat a + unat len \<le> 2 ^ 47 \<and>
       list_all (block_disjoint (unat a, unat len)) taken)"

lemma chain_not_Nil: "chain h cs \<Longrightarrow> cs \<noteq> []"
  by auto

lemma chain_cong: "(\<And>c. c \<in> set cs \<Longrightarrow> next_chunk (h c) = next_chunk (h' c)) \<Longrightarrow> chain h cs = chain h' cs"
  by (induction h cs rule: chain.induct) auto

lemma chain_snoc:
  "chain h cs \<Longrightarrow> distinct cs \<Longrightarrow> new \<notin> set cs \<Longrightarrow>
   (\<And>c. c \<in> set (butlast cs) \<Longrightarrow> next_chunk (h' c) = next_chunk (h c)) \<Longrightarrow>
   next_chunk (h' (last cs)) = new \<Longrightarrow> next_chunk (h' new) = 0 \<Longrightarrow> chain h' (cs @ [new])"
proof (induction h cs rule: chain.induct)
  case (3 h c d cs)
  then have "chain h' ((d # cs) @ [new])" by (intro "3.IH") auto
  with "3.prems" show ?case by auto
qed auto

lemma distinct_butlast_last: "distinct xs \<Longrightarrow> x \<in> set (butlast xs) \<Longrightarrow> x \<noteq> last xs"
  by (induction xs) (auto split: if_splits)

lemma blocks_disjoint_Cons_iff:
  "blocks_disjoint (xs @ [b]) \<longleftrightarrow> blocks_disjoint xs \<and> list_all (block_disjoint b) xs"
  by (induction xs) (auto intro: block_disjoint_sym)

text \<open>The bump step.\<close>

lemma region_inv_bump:
  assumes inv: "region_inv reg cs bs st"
    and cur: "cur = cur_chunk (headers st reg)"
    and mem: "mem = free_ptr (headers st cur)"
    and fits: "unat mem + unat n \<le> unat (chunk_end (headers st cur))" and al: "8 dvd unat n"
  shows "region_inv reg cs ((unat mem, unat n) # bs)
           (upd_header cur (free_ptr_update (\<lambda>p. p + n)) st)"
proof -
  let ?h = "headers st"
  let ?st = "upd_header cur (free_ptr_update (\<lambda>p. p + n)) st"
  let ?h' = "headers ?st"
  from inv have ne: "cs \<noteq> []" and last: "cur = last cs" and cur_in: "cur \<in> set cs"
    and ok: "list_all (chunk_ok ?h) cs" and dis: "blocks_disjoint (map (chunk_block ?h) cs)"
    using chain_not_Nil [of ?h cs] cur by (auto simp: region_inv_def)
  have okc: "chunk_ok ?h cur" using ok cur_in by (simp add: list_all_iff)
  have nowrap: "unat (mem + n) = unat mem + unat n"
    using fits okc by (intro unat_add_small) (simp add: chunk_ok_def)
  have okc': "chunk_ok ?h' cur"
    using okc fits al nowrap mem by (auto simp: chunk_ok_def)
  have ok': "list_all (chunk_ok ?h') cs"
    using ok okc' by (auto simp: list_all_iff chunk_ok_def)
  have blk: "chunk_block ?h' = chunk_block ?h"
    by (rule ext) (simp add: chunk_block_def)
  have mono: "block_within b (used_block ?h' c)" if "block_within b (used_block ?h c)" "c \<in> set cs" for b c
    using that nowrap mem ok by (cases b) (auto simp: used_block_def list_all_iff chunk_ok_def)
  have new: "block_within (unat mem, unat n) (used_block ?h' cur)"
    using okc nowrap mem by (auto simp: used_block_def chunk_ok_def)
  have old: "list_all (\<lambda>b. list_ex (\<lambda>c. block_within b (used_block ?h' c)) cs) bs"
    using inv mono by (fastforce simp: region_inv_def list_all_iff list_ex_iff)
  have sep: "block_disjoint (unat mem, unat n) b" if b: "b \<in> set bs" for b
  proof -
    from inv b obtain c where c: "c \<in> set cs" and wi: "block_within b (used_block ?h c)"
      by (auto simp: region_inv_def list_all_iff list_ex_iff)
    show ?thesis
    proof (cases "c = cur")
      case True
      with wi mem okc show ?thesis by (cases b) (auto simp: used_block_def chunk_ok_def)
    next
      case False
      obtain i j where ij: "cs ! i = c" "cs ! j = cur" "i < length cs" "j < length cs"
        using c cur_in by (auto simp: in_set_conv_nth)
      then have "i \<noteq> j" using False by auto
      then have "block_disjoint (chunk_block ?h c) (chunk_block ?h cur)"
        using blocks_disjoint_nth_neq [OF dis, of i j] ij by simp
      moreover have "chunk_ok ?h c" using ok c by (simp add: list_all_iff)
      ultimately show ?thesis
        using wi mem okc fits by (cases b) (auto simp: chunk_block_def used_block_def chunk_ok_def)
    qed
  qed
  have "chain ?h' cs = chain ?h cs" by (rule chain_cong) simp
  then show ?thesis
    using inv ok' old new sep cur_in blk
    by (auto simp: region_inv_def list_all_iff list_ex_iff simp del: headers_upd_header)
       (auto simp: cur)
qed

text \<open>The size of the chunk that a request creates when it does not fit.\<close>

definition grow_request :: "addr \<Rightarrow> u64 \<Rightarrow> 'k rstate \<Rightarrow> u64" where
  "grow_request reg len st =
     (let cur = cur_chunk (headers st reg)
      in pad_size (pad_size len ALIGNMENT + 2 * (chunk_end (headers st cur) - cur)
           + 5 * WORD_SIZE) PAGE_SIZE)"

lemma unat_chunk_size:
  "chunk_ok h c \<Longrightarrow> unat (chunk_end (h c) - c) = unat (chunk_end (h c)) - unat c"
  by (intro unat_sub_small) (auto simp: chunk_ok_def word_le_nat_alt)

lemma unat_double: "unat (x :: u64) \<le> 2 ^ 47 \<Longrightarrow> unat (2 * x) = 2 * unat x"
  unfolding mult_2 by (rule unat_add_small) simp

lemma unat_pad_word:
  "unat len < 2 ^ 62 \<Longrightarrow> unat (pad_size len ALIGNMENT) = padded (unat len) 8"
  by (subst unat_pad_size) (auto simp: ALIGNMENT_def)

lemma unat_grow_request:
  assumes "chunk_ok (headers st) (cur_chunk (headers st reg))" and "unat len < 2 ^ 62"
  shows "unat (grow_request reg len st) =
    padded (padded (unat len) 8 + 2 * snd (chunk_block (headers st) (cur_chunk (headers st reg))) + 40) 4096"
proof -
  let ?cur = "cur_chunk (headers st reg)"
  let ?sz = "chunk_end (headers st ?cur) - ?cur"
  have sz: "unat ?sz \<le> 2 ^ 47"
    using assms(1) unat_chunk_size [OF assms(1)] by (auto simp: chunk_ok_def)
  have p: "unat (pad_size len ALIGNMENT) = padded (unat len) 8" using assms(2) by (rule unat_pad_word)
  have pb: "padded (unat len) 8 < 2 ^ 62 + 8" using padded_less [of 8 "unat len"] assms(2) by simp
  have m: "unat (2 * ?sz) = 2 * unat ?sz"
    using sz by (rule unat_double)
  have a: "unat (pad_size len ALIGNMENT + 2 * ?sz) = padded (unat len) 8 + 2 * unat ?sz"
    using p pb m sz by (subst unat_add_small) auto
  have b: "unat (pad_size len ALIGNMENT + 2 * ?sz + 5 * WORD_SIZE) = padded (unat len) 8 + 2 * unat ?sz + 40"
    using a pb sz by (subst unat_add_small) (auto simp: WORD_SIZE_def)
  show ?thesis
    using b pb sz unat_chunk_size [OF assms(1)]
    by (simp add: grow_request_def Let_def PAGE_SIZE_def unat_pad_size chunk_block_def)
qed

text \<open>The state after the growth step, before the bump.\<close>

definition grown :: "'k mmap_call \<Rightarrow> addr \<Rightarrow> u64 \<Rightarrow> 'k rstate \<Rightarrow> 'k rstate" where
  "grown mmap reg len st =
     (let cur = cur_chunk (headers st reg);
          (new, st') = create_region mmap
             (pad_size len ALIGNMENT + 2 * (chunk_end (headers st cur) - cur)) st
      in upd_header reg (cur_chunk_update (\<lambda>_. new)) (upd_header cur (next_chunk_update (\<lambda>_. new)) st'))"

lemma region_inv_grown:
  assumes inv: "region_inv reg cs bs st" and len: "unat len < 2 ^ 62"
    and grants: "mmap_grants mmap (kernel st) (grow_request reg len st) (map (chunk_block (headers st)) cs)"
    and new: "new = fst (mmap (kernel st) (grow_request reg len st))"
  shows "region_inv reg (cs @ [new]) bs (grown mmap reg len st)"
    and "cur_chunk (headers (grown mmap reg len st) reg) = new"
    and "unat (free_ptr (headers (grown mmap reg len st) new)) + padded (unat len) 8
           \<le> unat (chunk_end (headers (grown mmap reg len st) new))"
proof -
  let ?h = "headers st" and ?cur = "cur_chunk (headers st reg)" and ?rq = "grow_request reg len st"
  let ?st = "grown mmap reg len st"
  let ?h' = "headers ?st"
  from inv have ne: "cs \<noteq> []" and last: "?cur = last cs" and cur_in: "?cur \<in> set cs"
    and reg_in: "reg \<in> set cs"
    and ok: "\<And>c. c \<in> set cs \<Longrightarrow> chunk_ok ?h c"
    using chain_not_Nil [of ?h cs] by (auto simp: region_inv_def list_all_iff)
  have rq: "unat ?rq = padded (padded (unat len) 8 + 2 * snd (chunk_block ?h ?cur) + 40) 4096"
    using ok [OF cur_in] len by (rule unat_grow_request)
  then have rq_ge: "padded (unat len) 8 + 40 \<le> unat ?rq"
    using padded_ge [of 4096 "padded (unat len) 8 + 2 * snd (chunk_block ?h ?cur) + 40"] by simp
  from grants new have new0: "new \<noteq> 0" and page: "4096 dvd unat new"
    and top: "unat new + unat ?rq \<le> 2 ^ 47"
    and fresh: "\<And>c. c \<in> set cs \<Longrightarrow> block_disjoint (unat new, unat ?rq) (chunk_block ?h c)"
    by (auto simp: mmap_grants_def Let_def list_all_iff)
  have new_notin: "new \<notin> set cs"
  proof
    assume "new \<in> set cs"
    with fresh ok rq_ge show False by (fastforce simp: chunk_block_def chunk_ok_def)
  qed
  have h': "?h' = ?h(new := \<lparr>next_chunk = 0, cur_chunk = new, free_ptr = new + 40,
        chunk_end = new + ?rq, magic = MAGIC\<rparr>, ?cur := (?h ?cur)\<lparr>next_chunk := new\<rparr>,
        reg := ((?h(?cur := (?h ?cur)\<lparr>next_chunk := new\<rparr>)) reg)\<lparr>cur_chunk := new\<rparr>)"
    using new_notin cur_in reg_in new
    by (auto simp: grown_def Let_def create_region_def grow_request_def WORD_SIZE_def split: prod.splits)
  show cur': "cur_chunk (?h' reg) = new" by (simp add: h')
  have h_new: "?h' new = \<lparr>next_chunk = 0, cur_chunk = new, free_ptr = new + 40,
        chunk_end = new + ?rq, magic = MAGIC\<rparr>"
    using new_notin cur_in reg_in by (auto simp: h')
  have h_old: "free_ptr (?h' c) = free_ptr (?h c) \<and> chunk_end (?h' c) = chunk_end (?h c) \<and>
      magic (?h' c) = magic (?h c)" if "c \<in> set cs" for c
    using that new_notin by (auto simp: h')
  have un: "unat (new + 40) = unat new + 40" "unat (new + ?rq) = unat new + unat ?rq"
    using top rq_ge by (auto simp: unat_add_small)
  show "unat (free_ptr (?h' new)) + padded (unat len) 8 \<le> unat (chunk_end (?h' new))"
    using rq_ge by (simp add: h_new un)
  have ok_new: "chunk_ok ?h' new"
    using new0 page top rq_ge by (auto simp: chunk_ok_def h_new un intro: dvd_trans [of 8 4096] dvd_add)
  have ok_old: "chunk_ok ?h' c" if "c \<in> set cs" for c
    using ok [OF that] h_old [OF that] by (simp add: chunk_ok_def)
  have ch: "chain ?h' (cs @ [new])"
  proof (rule chain_snoc)
    show "chain ?h cs" "distinct cs" using inv by (auto simp: region_inv_def)
    show "next_chunk (?h' (last cs)) = new" using last by (auto simp: h')
    fix c assume c: "c \<in> set (butlast cs)"
    then have "c \<noteq> ?cur" "c \<in> set cs"
      using inv last by (auto simp: region_inv_def distinct_butlast_last in_set_butlastD)
    then show "next_chunk (?h' c) = next_chunk (?h c)" using new_notin by (auto simp: h')
  qed (use new_notin h_new in auto)
  have blk: "map (chunk_block ?h') cs = map (chunk_block ?h) cs"
    using h_old by (auto simp: chunk_block_def)
  have blk_new: "chunk_block ?h' new = (unat new, unat ?rq)"
    by (simp add: chunk_block_def h_new un)
  have dis: "blocks_disjoint (map (chunk_block ?h') cs)"
    using inv unfolding blk by (simp add: region_inv_def)
  have used: "used_block ?h' c = used_block ?h c" if "c \<in> set cs" for c
    using h_old [OF that] by (simp add: used_block_def)
  show "region_inv reg (cs @ [new]) bs ?st"
    using inv ch new_notin ok_new ok_old cur' ne blk blk_new fresh used dis
    by (auto simp: region_inv_def blocks_disjoint_Cons_iff list_all_iff list_ex_iff)
qed

text \<open>When does a request not fit into the current chunk.\<close>

definition must_grow :: "addr \<Rightarrow> u64 \<Rightarrow> 'k rstate \<Rightarrow> bool" where
  "must_grow reg len st \<longleftrightarrow>
     (let cur = cur_chunk (headers st reg)
      in free_ptr (headers st cur) + pad_size len ALIGNMENT > chunk_end (headers st cur))"

lemma region_alloc_alt:
  "region_alloc mmap reg len st =
     (let st1 = (if must_grow reg len st then grown mmap reg len st else st);
          cur1 = cur_chunk (headers st1 reg)
      in (free_ptr (headers st1 cur1),
          upd_header cur1 (free_ptr_update (\<lambda>p. p + pad_size len ALIGNMENT)) st1))"
  by (simp add: region_alloc_def must_grow_def grown_def Let_def)

text \<open>The kernel can serve the request, if the request reaches it.\<close>

definition can_alloc :: "'k mmap_call \<Rightarrow> addr \<Rightarrow> addr list \<Rightarrow> u64 \<Rightarrow> 'k rstate \<Rightarrow> bool" where
  "can_alloc mmap reg cs len st \<longleftrightarrow> unat len < 2 ^ 62 \<and>
     (must_grow reg len st \<longrightarrow>
      mmap_grants mmap (kernel st) (grow_request reg len st) (map (chunk_block (headers st)) cs))"

lemma region_alloc_inv:
  assumes inv: "region_inv reg cs bs st" and can: "can_alloc mmap reg cs len st"
    and alloc: "region_alloc mmap reg len st = (a, st')"
  shows "region_inv reg (if must_grow reg len st then cs @ [cur_chunk (headers st' reg)] else cs)
           ((unat a, padded (unat len) 8) # bs) st'"
proof (cases "must_grow reg len st")
  case True
  let ?new = "fst (mmap (kernel st) (grow_request reg len st))"
  let ?st = "grown mmap reg len st"
  note g = region_inv_grown [OF inv _ _ refl, of len mmap]
  from can True have len: "unat len < 2 ^ 62"
    and gr: "mmap_grants mmap (kernel st) (grow_request reg len st) (map (chunk_block (headers st)) cs)"
    by (auto simp: can_alloc_def)
  have a: "a = free_ptr (headers ?st ?new)"
    and st': "st' = upd_header ?new (free_ptr_update (\<lambda>p. p + pad_size len ALIGNMENT)) ?st"
    using alloc True g(2) [OF len gr] by (auto simp: region_alloc_alt Let_def)
  have "region_inv reg (cs @ [?new]) ((unat a, unat (pad_size len ALIGNMENT)) # bs) st'"
    unfolding st' using g [OF len gr] a unat_pad_word [OF len] padded_dvd [of 8 "unat len"]
    by (intro region_inv_bump) auto
  moreover have "cur_chunk (headers st' reg) = ?new"
    using g(2) [OF len gr] by (simp add: st')
  ultimately show ?thesis using True unat_pad_word [OF len] by simp
next
  case False
  let ?cur = "cur_chunk (headers st reg)"
  from can have len: "unat len < 2 ^ 62" by (simp add: can_alloc_def)
  have a: "a = free_ptr (headers st ?cur)"
    and st': "st' = upd_header ?cur (free_ptr_update (\<lambda>p. p + pad_size len ALIGNMENT)) st"
    using alloc False by (auto simp: region_alloc_alt Let_def)
  have okc: "chunk_ok (headers st) ?cur"
    using inv chain_not_Nil by (fastforce simp: region_inv_def list_all_iff)
  have "padded (unat len) 8 < 2 ^ 62 + 8" using padded_less [of 8 "unat len"] len by simp
  then have "unat (a + pad_size len ALIGNMENT) = unat a + unat (pad_size len ALIGNMENT)"
    using okc a unat_pad_word [OF len] by (intro unat_add_small) (auto simp: chunk_ok_def)
  then have "unat a + unat (pad_size len ALIGNMENT) \<le> unat (chunk_end (headers st ?cur))"
    using False a by (simp add: must_grow_def Let_def word_le_nat_alt not_less)
  then have "region_inv reg cs ((unat a, unat (pad_size len ALIGNMENT)) # bs) st'"
    unfolding st' using inv a unat_pad_word [OF len] padded_dvd [of 8 "unat len"]
    by (intro region_inv_bump) auto
  then show ?thesis using False unat_pad_word [OF len] by simp
qed

lemma region_inv_aligned:
  assumes "region_inv reg cs bs st" and "can_alloc mmap reg cs len st"
    and "region_alloc mmap reg len st = (a, st')"
  shows "8 dvd unat a"
proof (cases "must_grow reg len st")
  case True
  note g = region_inv_grown [OF assms(1) _ _ refl, of len mmap]
  let ?new = "fst (mmap (kernel st) (grow_request reg len st))"
  from assms(2) True have *: "unat len < 2 ^ 62"
    "mmap_grants mmap (kernel st) (grow_request reg len st) (map (chunk_block (headers st)) cs)"
    by (auto simp: can_alloc_def)
  have "a = free_ptr (headers (grown mmap reg len st) ?new)"
    using assms(3) True g(2) [OF *] by (auto simp: region_alloc_alt Let_def)
  with g(1) [OF *] show ?thesis by (simp add: region_inv_def chunk_ok_def)
next
  case False
  then have "a = free_ptr (headers st (cur_chunk (headers st reg)))"
    using assms(3) by (auto simp: region_alloc_alt Let_def)
  moreover have "chunk_ok (headers st) (cur_chunk (headers st reg))"
    using assms(1) chain_not_Nil by (fastforce simp: region_inv_def list_all_iff)
  ultimately show ?thesis by (simp add: chunk_ok_def)
qed

lemma create_region_inv:
  assumes cap: "unat min_capacity < 2 ^ 62"
    and grants: "mmap_grants mmap (kernel st) (pad_size (min_capacity + 5 * WORD_SIZE) PAGE_SIZE) []"
    and create: "create_region mmap min_capacity st = (reg, st')"
  shows "region_inv reg [reg] [] st'"
proof -
  let ?rq = "pad_size (min_capacity + 5 * WORD_SIZE) PAGE_SIZE"
  have "unat (min_capacity + 5 * WORD_SIZE) = unat min_capacity + 40"
    using cap by (subst unat_add_small) (auto simp: WORD_SIZE_def)
  then have rq: "unat ?rq = padded (unat min_capacity + 40) 4096"
    using cap by (subst unat_pad_size) (auto simp: PAGE_SIZE_def)
  then have ge: "40 \<le> unat ?rq" using padded_ge [of 4096 "unat min_capacity + 40"] by simp
  have reg: "reg = fst (mmap (kernel st) ?rq)"
    and h: "headers st' reg = \<lparr>next_chunk = 0, cur_chunk = reg, free_ptr = reg + 40,
                 chunk_end = reg + ?rq, magic = MAGIC\<rparr>"
    using create by (auto simp: create_region_def Let_def WORD_SIZE_def split: prod.splits)
  have b: "reg \<noteq> 0" "4096 dvd unat reg" "unat reg + unat ?rq \<le> 2 ^ 47"
    using grants reg by (auto simp: mmap_grants_def Let_def)
  then have "unat (reg + 40) = unat reg + 40" "unat (reg + ?rq) = unat reg + unat ?rq"
    using ge by (auto simp: unat_add_small)
  with b ge h show ?thesis
    by (auto simp: region_inv_def chunk_ok_def intro: dvd_trans [of 8 4096] dvd_add)
qed

text \<open>\<open>destroy_region\<close> unmaps every chunk of the chain once, in order.\<close>

definition unmap_all :: "('k \<Rightarrow> addr \<Rightarrow> u64 \<Rightarrow> 'k) \<Rightarrow> (addr \<Rightarrow> header) \<Rightarrow> addr list \<Rightarrow> 'k \<Rightarrow> 'k" where
  "unmap_all munmap h cs k = fold (\<lambda>c k. munmap k c (chunk_end (h c) - c)) cs k"

lemma destroy_region_chain:
  "chain (headers st) cs \<Longrightarrow> 0 \<notin> set cs \<Longrightarrow>
   destroy_region munmap (hd cs) st =
     Some (st\<lparr>kernel := unmap_all munmap (headers st) cs (kernel st)\<rparr>)"
proof (induction "headers st" cs arbitrary: st rule: chain.induct)
  case (2 c)
  then show ?case
    by (simp add: destroy_region.simps [of munmap c] Let_def unmap_all_def)
next
  case (3 c d cs)
  let ?st = "st\<lparr>kernel := munmap (kernel st) c (chunk_end (headers st c) - c)\<rparr>"
  from "3.prems" have "destroy_region munmap d ?st =
      Some (?st\<lparr>kernel := unmap_all munmap (headers ?st) (d # cs) (kernel ?st)\<rparr>)"
    using "3.hyps" [of ?st] by simp
  with "3.prems" show ?case
    by (simp add: destroy_region.simps [of munmap c] Let_def unmap_all_def)
qed simp

lemma check_region_integrity_chain:
  "chain (headers st) cs \<Longrightarrow> list_all (chunk_ok (headers st)) cs \<Longrightarrow>
   check_region_integrity (hd cs) st = Some True"
proof (induction "headers st" cs rule: chain.induct)
  case (2 c)
  then show ?case by (simp add: check_region_integrity.simps [of c] chunk_ok_def)
next
  case (3 c d cs)
  then show ?case by (simp add: check_region_integrity.simps [of c] chunk_ok_def)
qed simp

section \<open>Allocators as an interface\<close>

text \<open>
  What the rest of the compiler relies on: every block is aligned, and a new block overlaps
  none of the blocks handed out before. \<open>blocks\<close> lists them, newest first.
\<close>

locale allocator =
  fixes alloc :: "u64 \<Rightarrow> 's \<Rightarrow> addr \<times> 's"
    and inv :: "'s \<Rightarrow> bool"
    and blocks :: "'s \<Rightarrow> block list"
    and can :: "u64 \<Rightarrow> 's \<Rightarrow> bool"
  assumes alloc_inv: "inv s \<Longrightarrow> can n s \<Longrightarrow> inv (snd (alloc n s))"
    and alloc_blocks: "blocks (snd (alloc n s)) = (unat (fst (alloc n s)), padded (unat n) 8) # blocks s"
    and alloc_aligned: "inv s \<Longrightarrow> can n s \<Longrightarrow> 8 dvd unat (fst (alloc n s))"
    and blocks_disjoint: "inv s \<Longrightarrow> blocks_disjoint (blocks s)"

text \<open>A sequence of requests, the addresses it returns, and whether all are served.\<close>

fun alloc_all :: "(u64 \<Rightarrow> 's \<Rightarrow> addr \<times> 's) \<Rightarrow> u64 list \<Rightarrow> 's \<Rightarrow> addr list \<times> 's" where
  "alloc_all alloc [] s = ([], s)"
| "alloc_all alloc (n # ns) s =
     (let (a, s1) = alloc n s; (as, s2) = alloc_all alloc ns s1 in (a # as, s2))"

fun all_served :: "(u64 \<Rightarrow> 's \<Rightarrow> addr \<times> 's) \<Rightarrow> (u64 \<Rightarrow> 's \<Rightarrow> bool) \<Rightarrow> u64 list \<Rightarrow> 's \<Rightarrow> bool" where
  "all_served alloc can [] s = True"
| "all_served alloc can (n # ns) s = (can n s \<and> all_served alloc can ns (snd (alloc n s)))"

definition blocks_of :: "addr list \<Rightarrow> u64 list \<Rightarrow> block list" where
  "blocks_of as ns = map2 (\<lambda>a n. (unat a, padded (unat n) 8)) as ns"

context allocator
begin

lemma fresh:
  assumes "inv s" and "can n s" and "b \<in> set (blocks s)"
  shows "block_disjoint (unat (fst (alloc n s)), padded (unat n) 8) b"
  using blocks_disjoint [OF alloc_inv [OF assms(1,2)]] assms(3)
  by (simp add: alloc_blocks list_all_iff)

lemma fresh_addr:
  assumes "inv s" and "can n s" and "(unat p, k) \<in> set (blocks s)" and "0 < k" and "0 < unat n"
  shows "fst (alloc n s) \<noteq> p"
  using fresh [OF assms(1,2,3)] assms(4,5) padded_ge [of 8 "unat n"] by auto

lemma alloc_all_correct:
  assumes "inv s" and "all_served alloc can ns s" and "alloc_all alloc ns s = (as, s')"
  shows "inv s' \<and> length as = length ns \<and> blocks s' = rev (blocks_of as ns) @ blocks s \<and>
    list_all (\<lambda>a. 8 dvd unat a) as"
  using assms
proof (induction ns arbitrary: s as)
  case (Cons n ns)
  obtain a s1 where a: "alloc n s = (a, s1)" by fastforce
  obtain as1 s2 where r: "alloc_all alloc ns s1 = (as1, s2)" by fastforce
  from Cons.prems a r have as: "as = a # as1" "s' = s2" by auto
  have "inv s1" using alloc_inv [of s n] Cons.prems a by simp
  then have IH: "inv s2 \<and> length as1 = length ns \<and> blocks s2 = rev (blocks_of as1 ns) @ blocks s1 \<and>
      list_all (\<lambda>a. 8 dvd unat a) as1"
    using Cons.IH [of s1 as1] Cons.prems a r as by simp
  moreover have "blocks s1 = (unat a, padded (unat n) 8) # blocks s"
    using alloc_blocks [of n s] a by simp
  moreover have "8 dvd unat a" using alloc_aligned [of s n] Cons.prems a by simp
  ultimately show ?case using as by (simp add: blocks_of_def)
qed (simp add: blocks_of_def)

lemma alloc_all_disjoint:
  assumes "inv s" and "all_served alloc can ns s" and "alloc_all alloc ns s = (as, s')"
  shows "blocks_disjoint (rev (blocks_of as ns) @ blocks s)"
  using alloc_all_correct [OF assms] blocks_disjoint [of s'] by simp

end

text \<open>
  The region with its chunk list and the blocks handed out so far, which the code does not
  store, is an allocator.
\<close>

type_synonym 'k gstate = "addr list \<times> block list \<times> 'k rstate"

definition galloc :: "'k mmap_call \<Rightarrow> addr \<Rightarrow> u64 \<Rightarrow> 'k gstate \<Rightarrow> addr \<times> 'k gstate" where
  "galloc mmap reg n s = (case s of (cs, bs, st) \<Rightarrow>
     (let (a, st') = region_alloc mmap reg n st
      in (a, if must_grow reg n st then cs @ [cur_chunk (headers st' reg)] else cs,
             (unat a, padded (unat n) 8) # bs, st')))"

definition ginv :: "addr \<Rightarrow> 'k gstate \<Rightarrow> bool" where
  "ginv reg s = (case s of (cs, bs, st) \<Rightarrow> region_inv reg cs bs st)"

definition gcan :: "'k mmap_call \<Rightarrow> addr \<Rightarrow> u64 \<Rightarrow> 'k gstate \<Rightarrow> bool" where
  "gcan mmap reg n s = (case s of (cs, bs, st) \<Rightarrow> can_alloc mmap reg cs n st)"

interpretation rg: allocator "galloc mmap reg" "ginv reg" "\<lambda>(cs, bs, st). bs" "gcan mmap reg"
  for mmap :: "'k mmap_call" and reg :: addr
proof
  fix s n
  show "ginv reg s \<Longrightarrow> gcan mmap reg n s \<Longrightarrow> ginv reg (snd (galloc mmap reg n s))"
    using region_alloc_inv by (cases s) (fastforce simp: ginv_def gcan_def galloc_def split: prod.splits)
  show "ginv reg s \<Longrightarrow> gcan mmap reg n s \<Longrightarrow> 8 dvd unat (fst (galloc mmap reg n s))"
    using region_inv_aligned by (cases s) (fastforce simp: ginv_def gcan_def galloc_def split: prod.splits)
qed (auto simp: galloc_def ginv_def region_inv_def split: prod.splits)

text \<open>Blocks lie in user space, so that their addresses do not wrap around.\<close>

locale user_allocator = allocator +
  assumes blocks_low: "inv s \<Longrightarrow> (a, n) \<in> set (blocks s) \<Longrightarrow> 0 < a \<and> a + n \<le> 2 ^ 47"

interpretation ru: user_allocator "galloc mmap reg" "ginv reg" "\<lambda>(cs, bs, st). bs" "gcan mmap reg"
  for mmap :: "'k mmap_call" and reg :: addr
proof
  fix s and a n :: nat
  assume inv: "ginv reg s" and b: "(a, n) \<in> set ((\<lambda>(cs, bs, st). bs) s)"
  obtain cs bs st where s: "s = (cs, bs, st)" by (cases s)
  from inv b obtain c where "c \<in> set cs" "block_within (a, n) (used_block (headers st) c)"
    unfolding ginv_def region_inv_def s prod.case list_all_iff list_ex_iff by blast
  moreover from this inv have "chunk_ok (headers st) c"
    by (auto simp: s ginv_def region_inv_def list_all_iff)
  ultimately show "0 < a \<and> a + n \<le> 2 ^ 47" by (auto simp: used_block_def chunk_ok_def)
qed

text \<open>C10. Allocations from a region are aligned to eight bytes and pairwise disjoint,
whether they fit into the current chunk or make the region grow.\<close>

lemma region_allocs_disjoint:
  assumes "create_region mmap min_capacity st = (reg, st1)"
    and "unat min_capacity < 2 ^ 62"
    and "mmap_grants mmap (kernel st) (pad_size (min_capacity + 5 * WORD_SIZE) PAGE_SIZE) []"
    and "all_served (galloc mmap reg) (gcan mmap reg) ns ([reg], [], st1)"
    and "alloc_all (galloc mmap reg) ns ([reg], [], st1) = (as, s')"
  shows "list_all (\<lambda>a. 8 dvd unat a) as \<and>
    (\<forall>i < length ns. \<forall>j < length ns. i \<noteq> j \<longrightarrow>
       block_disjoint (unat (as ! i), padded (unat (ns ! i)) 8) (unat (as ! j), padded (unat (ns ! j)) 8))"
proof -
  have inv: "ginv reg ([reg], [], st1)"
    using create_region_inv [OF assms(2,3,1)] by (simp add: ginv_def)
  note c = rg.alloc_all_correct [OF inv assms(4,5)]
  have d: "blocks_disjoint (rev (blocks_of as ns))"
    using rg.alloc_all_disjoint [OF inv assms(4,5)] by simp
  have *: "block_disjoint (blocks_of as ns ! i) (blocks_of as ns ! j)"
    if "i < length ns" "j < length ns" "i \<noteq> j" for i j
    using blocks_disjoint_nth_neq [OF d, of "length ns - Suc i" "length ns - Suc j"] that c
    by (simp add: rev_nth blocks_of_def)
  with c show ?thesis by (simp add: blocks_of_def)
qed

text \<open>A kernel that grants consecutive areas, for the witness.\<close>

definition bump_mmap :: "u64 mmap_call" where
  "bump_mmap k len = (k, k + len)"

definition boot_state :: "u64 rstate" where
  "boot_state = \<lparr>headers = (\<lambda>_. \<lparr>next_chunk = 0, cur_chunk = 0, free_ptr = 0, chunk_end = 0,
      magic = 0\<rparr>), kernel = 0x10000\<rparr>"

lemmas region_eval = bump_mmap_def boot_state_def create_region_def pad_size_def
  PAGE_SIZE_def WORD_SIZE_def ALIGNMENT_def galloc_def gcan_def can_alloc_def must_grow_def
  region_alloc_def grow_request_def mmap_grants_def chunk_block_def upd_header_def Let_def

lemma created: "create_region bump_mmap 0 boot_state = (0x10000, snd (create_region bump_mmap 0 boot_state))"
  by (simp add: region_eval)

lemma granted: "mmap_grants bump_mmap (kernel boot_state) (pad_size (0 + 5 * WORD_SIZE) PAGE_SIZE) []"
  by (simp add: region_eval)

lemma served: "all_served (galloc bump_mmap 0x10000) (gcan bump_mmap 0x10000) [16, 5000, 24]
   ([0x10000], [], snd (create_region bump_mmap 0 boot_state))"
  by (simp add: region_eval)

lemma ran: "fst (alloc_all (galloc bump_mmap 0x10000) [16, 5000, 24]
   ([0x10000], [], snd (create_region bump_mmap 0 boot_state))) = [65576, 69672, 74672]"
  by (simp add: region_eval)

lemma region_allocs_disjoint_witness:
  "8 dvd unat (65576 :: addr) \<and> block_disjoint (65576, 16) (69672, 5000) \<and>
   block_disjoint (69672, 5000) (74672, 24)"
proof -
  let ?s = "([0x10000], [], snd (create_region bump_mmap 0 boot_state))"
  have "alloc_all (galloc bump_mmap 0x10000) [16, 5000, 24] ?s =
      ([65576, 69672, 74672], snd (alloc_all (galloc bump_mmap 0x10000) [16, 5000, 24] ?s))"
    using ran by (simp add: prod_eq_iff del: alloc_all.simps)
  from region_allocs_disjoint [OF created _ granted served this]
  have *: "list_all (\<lambda>a. 8 dvd unat a) [65576, 69672, 74672 :: addr] \<and>
    (\<forall>i < length [16, 5000, 24 :: u64]. \<forall>j < length [16, 5000, 24 :: u64]. i \<noteq> j \<longrightarrow>
      block_disjoint (unat ([65576, 69672, 74672 :: addr] ! i), padded (unat ([16, 5000, 24 :: u64] ! i)) 8)
        (unat ([65576, 69672, 74672 :: addr] ! j), padded (unat ([16, 5000, 24 :: u64] ! j)) 8))"
    by simp
  from * [THEN conjunct2, rule_format, of 0 1] * [THEN conjunct2, rule_format, of 1 2] *
  show ?thesis by (simp add: padded_def)
qed

end
