(* ===== verification/Cells.thy ===== *)
theory Cells
  imports Regions
begin

text \<open>
  The linked lists of \<open>bootstrap/list.c\<close> on a memory of two-word cells. Cells come from an
  allocator; \<open>nil\<close> is a static cell. Loops over lists are \<open>partial_function (option)\<close>,
  because a list may be cyclic. The lemmas relate every operation to the HOL list of the
  data that the cells hold, and say which cells it leaves alone.
\<close>

record lcell =
  fst_of :: u64
  rst_of :: addr

record 's lworld =
  cells :: "addr \<Rightarrow> lcell"
  mem_state :: 's
  nil_at :: addr

type_synonym 's alloc_fun = "u64 \<Rightarrow> 's \<Rightarrow> addr \<times> 's"

definition CELL_SIZE :: u64 where "CELL_SIZE = 16"

definition is_nil :: "'s lworld \<Rightarrow> addr \<Rightarrow> bool" where
  "is_nil w s \<longleftrightarrow> s = nil_at w"

definition fst_at :: "'s lworld \<Rightarrow> addr \<Rightarrow> u64" where
  "fst_at w a = fst_of (cells w a)"

definition rst_at :: "'s lworld \<Rightarrow> addr \<Rightarrow> addr" where
  "rst_at w a = rst_of (cells w a)"

definition set_rst :: "addr \<Rightarrow> addr \<Rightarrow> 's lworld \<Rightarrow> 's lworld" where
  "set_rst a x w = w\<lparr>cells := (cells w)(a := (cells w a)\<lparr>rst_of := x\<rparr>)\<rparr>"

definition set_fst :: "addr \<Rightarrow> u64 \<Rightarrow> 's lworld \<Rightarrow> 's lworld" where
  "set_fst a x w = w\<lparr>cells := (cells w)(a := (cells w a)\<lparr>fst_of := x\<rparr>)\<rparr>"

definition alloc_cell :: "'s alloc_fun \<Rightarrow> 's lworld \<Rightarrow> addr \<times> 's lworld" where
  "alloc_cell alloc w =
     (let (a, s) = alloc CELL_SIZE (mem_state w) in (a, w\<lparr>mem_state := s\<rparr>))"

text \<open>
  A \<open>list *\<close> of the C code is the address of a list variable, whose value the model passes
  along, or of the rest field of a cell.
\<close>

datatype lref = Loc | Rst addr

fun deref :: "'s lworld \<Rightarrow> addr \<Rightarrow> lref \<Rightarrow> addr" where
  "deref w v Loc = v"
| "deref w v (Rst a) = rst_at w a"

fun assign :: "'s lworld \<Rightarrow> addr \<Rightarrow> lref \<Rightarrow> addr \<Rightarrow> addr \<times> 's lworld" where
  "assign w v Loc x = (x, w)"
| "assign w v (Rst a) x = (v, set_rst a x w)"

partial_function (option) find_end :: "'s lworld \<Rightarrow> addr \<Rightarrow> lref \<Rightarrow> lref option" where
  "find_end w v l =
     (if is_nil w (deref w v l) then Some l else find_end w v (Rst (deref w v l)))"

text \<open>The result of \<open>append\<close> is the address of the data field of the new cell.\<close>

definition append :: "'s alloc_fun \<Rightarrow> u64 \<Rightarrow> addr \<Rightarrow> 's lworld \<Rightarrow> (addr \<times> addr \<times> 's lworld) option" where
  "append alloc data v w = (case find_end w v Loc of None \<Rightarrow> None
     | Some l \<Rightarrow>
        (let (c, w1) = alloc_cell alloc w;
             (v', w2) = assign w1 v l c;
             w3 = set_fst c data w2;
             w4 = set_rst c (nil_at w3) w3
         in Some (c, v', w4)))"

definition lst :: "'s alloc_fun \<Rightarrow> u64 \<Rightarrow> addr \<Rightarrow> 's lworld \<Rightarrow> addr \<times> 's lworld" where
  "lst alloc data l w =
     (let (ret, w1) = alloc_cell alloc w in (ret, set_rst ret l (set_fst ret data w1)))"

definition append_list :: "addr \<Rightarrow> addr \<Rightarrow> 's lworld \<Rightarrow> (addr \<times> 's lworld) option" where
  "append_list v l2 w = (case find_end w v Loc of None \<Rightarrow> None | Some l \<Rightarrow> Some (assign w v l l2))"

definition prepend :: "'s alloc_fun \<Rightarrow> u64 \<Rightarrow> addr \<Rightarrow> 's lworld \<Rightarrow> addr \<times> 's lworld" where
  "prepend alloc data v w =
     (let (ret, w1) = alloc_cell alloc w; w2 = set_fst ret data w1; w3 = set_rst ret v w2
      in (ret, w3))"

partial_function (option) length_loop :: "'s lworld \<Rightarrow> addr \<Rightarrow> nat \<Rightarrow> nat option" where
  "length_loop w l n = (if is_nil w l then Some n else length_loop w (rst_at w l) (n + 1))"

definition length_c :: "'s lworld \<Rightarrow> addr \<Rightarrow> nat option" where
  "length_c w l = length_loop w l 0"

text \<open>A loop that prepends the images of the elements of \<open>l\<close> to \<open>ret\<close>: the body that
  \<open>reverse\<close>, \<open>map\<close> and \<open>concat\<close> have in common.\<close>

partial_function (option) prepend_loop ::
  "'s alloc_fun \<Rightarrow> (u64 \<Rightarrow> u64) \<Rightarrow> addr \<Rightarrow> addr \<Rightarrow> 's lworld \<Rightarrow> (addr \<times> 's lworld) option" where
  "prepend_loop alloc f l ret w =
     (if is_nil w l then Some (ret, w)
      else let (ret', w') = prepend alloc (f (fst_at w l)) ret w
           in prepend_loop alloc f (rst_at w' l) ret' w')"

definition reverse :: "'s alloc_fun \<Rightarrow> addr \<Rightarrow> 's lworld \<Rightarrow> (addr \<times> 's lworld) option" where
  "reverse alloc l w = prepend_loop alloc (\<lambda>x. x) l (nil_at w) w"

definition equals :: "u64 \<Rightarrow> u64 \<Rightarrow> bool" where
  "equals a b \<longleftrightarrow> a = b"

text \<open>\<open>exists\<close> returns the place of the first match, \<open>None\<close> standing for the null pointer.\<close>

partial_function (option) exists_loop ::
  "(u64 \<Rightarrow> u64 \<Rightarrow> bool) \<Rightarrow> addr \<Rightarrow> lref \<Rightarrow> u64 \<Rightarrow> 's lworld \<Rightarrow> lref option option" where
  "exists_loop pred v s ctx w =
     (if is_nil w (deref w v s) then Some None
      else if pred (fst_at w (deref w v s)) ctx then Some (Some s)
      else exists_loop pred v (Rst (deref w v s)) ctx w)"

definition exists_c :: "(u64 \<Rightarrow> u64 \<Rightarrow> bool) \<Rightarrow> addr \<Rightarrow> u64 \<Rightarrow> 's lworld \<Rightarrow> lref option option" where
  "exists_c pred l ctx w = exists_loop pred l Loc ctx w"

text \<open>\<open>not_subset\<close> returns the first datum of \<open>a\<close> without a partner in \<open>b\<close>, or null.\<close>

partial_function (option) not_subset :: "(u64 \<Rightarrow> u64 \<Rightarrow> bool) \<Rightarrow> addr \<Rightarrow> addr \<Rightarrow> 's lworld \<Rightarrow> u64 option" where
  "not_subset pred a b w =
     (if is_nil w a then Some 0
      else case exists_c pred b (fst_at w a) w of
             None \<Rightarrow> None
           | Some None \<Rightarrow> Some (fst_at w a)
           | Some (Some _) \<Rightarrow> not_subset pred (rst_at w a) b w)"

definition map_c :: "'s alloc_fun \<Rightarrow> addr \<Rightarrow> u64 \<Rightarrow> (u64 \<Rightarrow> u64 \<Rightarrow> u64) \<Rightarrow> 's lworld \<Rightarrow> (addr \<times> 's lworld) option" where
  "map_c alloc l ctx mapper w =
     (case prepend_loop alloc (\<lambda>e. mapper e ctx) l (nil_at w) w of
        None \<Rightarrow> None | Some (ret, w') \<Rightarrow> reverse alloc ret w')"

definition concat_c :: "'s alloc_fun \<Rightarrow> addr \<Rightarrow> addr \<Rightarrow> 's lworld \<Rightarrow> (addr \<times> 's lworld) option" where
  "concat_c alloc a b w =
     (case prepend_loop alloc (\<lambda>x. x) a (nil_at w) w of None \<Rightarrow> None
      | Some (res, w1) \<Rightarrow>
         (case prepend_loop alloc (\<lambda>x. x) b res w1 of None \<Rightarrow> None
          | Some (res', w2) \<Rightarrow> reverse alloc res' w2))"

section \<open>Lists in memory\<close>

text \<open>
  \<open>lseg w a ps b\<close>: following the cells from \<open>a\<close> gives the cells and data of \<open>ps\<close> and
  arrives at \<open>b\<close>. A list is a segment that ends in \<open>nil\<close>.
\<close>

fun lseg :: "'s lworld \<Rightarrow> addr \<Rightarrow> (addr \<times> u64) list \<Rightarrow> addr \<Rightarrow> bool" where
  "lseg w a [] b = (a = b)"
| "lseg w a ((p, x) # ps) b =
     (a = p \<and> p \<noteq> nil_at w \<and> fst_at w p = x \<and> lseg w (rst_at w p) ps b)"

definition lrep :: "'s lworld \<Rightarrow> addr \<Rightarrow> (addr \<times> u64) list \<Rightarrow> bool" where
  "lrep w a ps \<longleftrightarrow> lseg w a ps (nil_at w)"

lemma cells_simps [simp]:
  "fst_at (set_rst a x w) b = fst_at w b"
  "rst_at (set_fst a y w) b = rst_at w b"
  "rst_at (set_rst a x w) b = (if b = a then x else rst_at w b)"
  "fst_at (set_fst a y w) b = (if b = a then y else fst_at w b)"
  "nil_at (set_rst a x w) = nil_at w" "nil_at (set_fst a y w) = nil_at w"
  "mem_state (set_rst a x w) = mem_state w" "mem_state (set_fst a y w) = mem_state w"
  by (simp_all add: fst_at_def rst_at_def set_rst_def set_fst_def)

text \<open>Two worlds that agree on a set of cells.\<close>

definition same_cells :: "addr set \<Rightarrow> 's lworld \<Rightarrow> 's lworld \<Rightarrow> bool" where
  "same_cells A w w' \<longleftrightarrow> nil_at w' = nil_at w \<and>
     (\<forall>a \<in> A. fst_at w' a = fst_at w a \<and> rst_at w' a = rst_at w a)"

lemma same_cells_refl [simp]: "same_cells A w w"
  by (simp add: same_cells_def)

lemma same_cells_trans: "same_cells A w w1 \<Longrightarrow> same_cells A w1 w2 \<Longrightarrow> same_cells A w w2"
  by (simp add: same_cells_def)

lemma same_cells_mono: "same_cells A w w' \<Longrightarrow> B \<subseteq> A \<Longrightarrow> same_cells B w w'"
  by (auto simp: same_cells_def)

lemma lseg_cong: "same_cells (fst ` set ps) w w' \<Longrightarrow> lseg w' a ps b = lseg w a ps b"
  by (induction w' a ps b rule: lseg.induct) (auto simp: same_cells_def)

lemma lrep_cong: "same_cells (fst ` set ps) w w' \<Longrightarrow> lrep w' a ps = lrep w a ps"
  using lseg_cong [of ps w w' a "nil_at w"] by (auto simp: lrep_def same_cells_def)

lemma lseg_append: "lseg w a (ps @ qs) b \<longleftrightarrow> (\<exists>c. lseg w a ps c \<and> lseg w c qs b)"
  by (induction w a ps b rule: lseg.induct) auto

lemma lrep_Nil [simp]: "lrep w a [] \<longleftrightarrow> a = nil_at w"
  by (simp add: lrep_def)

lemma lrep_Cons [simp]:
  "lrep w a ((p, x) # ps) \<longleftrightarrow> a = p \<and> p \<noteq> nil_at w \<and> fst_at w p = x \<and> lrep w (rst_at w p) ps"
  by (simp add: lrep_def)

lemma lrep_at_nil [simp]: "lrep w (nil_at w) ps \<longleftrightarrow> ps = []"
  by (cases ps) auto

lemma lrep_unique: "lrep w a ps \<Longrightarrow> lrep w a qs \<Longrightarrow> ps = qs"
proof (induction ps arbitrary: a qs)
  case (Cons p ps)
  then show ?case by (cases p; cases qs) auto
qed auto

lemma lrep_not_nil: "lrep w a ps \<Longrightarrow> nil_at w \<notin> fst ` set ps"
proof (induction ps arbitrary: a)
  case (Cons q ps)
  then show ?case by (cases q) auto
qed simp

lemma lrep_distinct: "lrep w a ps \<Longrightarrow> distinct (map fst ps)"
proof (induction ps arbitrary: a)
  case (Cons q ps)
  obtain p x where q: "q = (p, x)" by fastforce
  have "p \<notin> fst ` set ps"
  proof
    assume "p \<in> fst ` set ps"
    then obtain us y vs where ps: "ps = us @ (p, y) # vs"
      by (auto dest!: split_list)
    with Cons.prems q have "lrep w p ((p, y) # vs)"
      by (auto simp: lrep_def lseg_append)
    moreover have "lrep w p (q # ps)" using Cons.prems q by simp
    ultimately have "(p, y) # vs = q # ps" by (rule lrep_unique)
    with ps show False by (metis length_append length_Cons add_Suc_right le_add2 not_less_eq_eq order_refl)
  qed
  with Cons q show ?case by auto
qed simp

lemma lseg_update_last:
  assumes "lrep w a (ps @ [(q, x)])"
  shows "lrep (set_rst q b w) a (ps @ (q, x) # rs) \<longleftrightarrow> lrep (set_rst q b w) b rs"
proof -
  have "q \<notin> fst ` set ps" using lrep_distinct [OF assms] by auto
  then have same: "same_cells (fst ` set ps) w (set_rst q b w)"
    by (auto simp: same_cells_def)
  from assms show ?thesis
    by (auto simp: lrep_def lseg_append lseg_cong [OF same])
qed

section \<open>Correctness of the list operations\<close>

text \<open>The allocator can serve \<open>n\<close> more cells, none of them at the static \<open>nil\<close>.\<close>

fun cells_served :: "'s alloc_fun \<Rightarrow> (u64 \<Rightarrow> 's \<Rightarrow> bool) \<Rightarrow> addr \<Rightarrow> nat \<Rightarrow> 's \<Rightarrow> bool" where
  "cells_served alloc can nl 0 s = True"
| "cells_served alloc can nl (Suc n) s =
     (can CELL_SIZE s \<and> fst (alloc CELL_SIZE s) \<noteq> nl \<and>
      cells_served alloc can nl n (snd (alloc CELL_SIZE s)))"

text \<open>All cells of a list are blocks that the allocator has handed out.\<close>

definition cells_in :: "block list \<Rightarrow> (addr \<times> u64) list \<Rightarrow> bool" where
  "cells_in bs ps \<longleftrightarrow> list_all (\<lambda>p. (unat (fst p), 16) \<in> set bs) ps"

lemma cells_in_mono: "cells_in bs ps \<Longrightarrow> set bs \<subseteq> set bs' \<Longrightarrow> cells_in bs' ps"
  by (auto simp: cells_in_def list_all_iff)

lemma cells_in_Nil [simp]: "cells_in bs []"
  and cells_in_Cons [simp]: "cells_in bs (p # ps) \<longleftrightarrow> (unat (fst p), 16) \<in> set bs \<and> cells_in bs ps"
  and cells_in_append [simp]: "cells_in bs (ps @ qs) \<longleftrightarrow> cells_in bs ps \<and> cells_in bs qs"
  by (simp_all add: cells_in_def)

lemma find_end_seg:
  "lseg w a ps (nil_at w) \<Longrightarrow> deref w v l = a \<Longrightarrow>
   find_end w v l = Some (if ps = [] then l else Rst (fst (last ps)))"
proof (induction ps arbitrary: a l)
  case Nil
  then show ?case by (simp add: find_end.simps [of w v l] is_nil_def)
next
  case (Cons q ps)
  then show ?case
    by (cases q) (auto simp: find_end.simps [of w v l] is_nil_def)
qed

lemma find_end_lrep:
  "lrep w v ps \<Longrightarrow> find_end w v Loc = Some (if ps = [] then Loc else Rst (fst (last ps)))"
  by (rule find_end_seg) (simp_all add: lrep_def)

lemma length_loop_lrep: "lrep w l ps \<Longrightarrow> length_loop w l n = Some (n + length ps)"
proof (induction ps arbitrary: l n)
  case Nil
  then show ?case by (simp add: length_loop.simps is_nil_def)
next
  case (Cons q ps)
  then show ?case
    by (cases q) (auto simp: length_loop.simps [of w l] is_nil_def)
qed

lemma length_c_lrep [run_simps]: "lrep w l ps \<Longrightarrow> length_c w l = Some (length ps)"
  by (simp add: length_c_def length_loop_lrep)

lemma exists_loop_lseg:
  "lrep w a ps \<Longrightarrow> deref w v s = a \<Longrightarrow>
   \<exists>r. exists_loop pred v s ctx w = Some r \<and>
     (case r of None \<Rightarrow> \<forall>p \<in> set ps. \<not> pred (snd p) ctx
      | Some s' \<Rightarrow> \<exists>us p vs. ps = us @ p # vs \<and> (\<forall>q \<in> set us. \<not> pred (snd q) ctx) \<and>
                     pred (snd p) ctx \<and> deref w v s' = fst p)"
proof (induction ps arbitrary: a s)
  case Nil
  then show ?case by (simp add: exists_loop.simps [of pred v s] is_nil_def)
next
  case (Cons q ps)
  obtain p x where q: "q = (p, x)" by fastforce
  show ?case
  proof (cases "pred x ctx")
    case True
    with Cons.prems q show ?thesis
      by (intro exI [of _ "Some s"] conjI)
         (auto simp: exists_loop.simps [of pred v s] is_nil_def intro: exI [of _ "[]"])
  next
    case False
    have "exists_loop pred v s ctx w = exists_loop pred v (Rst p) ctx w"
      using Cons.prems q False by (simp add: exists_loop.simps [of pred v s] is_nil_def)
    moreover obtain r where r: "exists_loop pred v (Rst p) ctx w = Some r"
      and c: "case r of None \<Rightarrow> \<forall>p \<in> set ps. \<not> pred (snd p) ctx
      | Some s' \<Rightarrow> \<exists>us p vs. ps = us @ p # vs \<and> (\<forall>q \<in> set us. \<not> pred (snd q) ctx) \<and>
                     pred (snd p) ctx \<and> deref w v s' = fst p"
      using Cons.IH [of "rst_at w p" "Rst p"] Cons.prems q by auto
    moreover have "(\<exists>us p' vs. q # ps = us @ p' # vs \<and> (\<forall>q \<in> set us. \<not> pred (snd q) ctx) \<and>
        pred (snd p') ctx \<and> deref w v s' = fst p')" if "r = Some s'" for s'
    proof -
      from c that obtain us p' vs where "ps = us @ p' # vs" "\<forall>q \<in> set us. \<not> pred (snd q) ctx"
        "pred (snd p') ctx" "deref w v s' = fst p'" by auto
      then show ?thesis using q False by (intro exI [of _ "q # us"] exI [of _ p'] exI [of _ vs]) simp
    qed
    ultimately show ?thesis
      using q False by (cases r) auto
  qed
qed

text \<open>\<open>not_subset\<close> finds the first datum of \<open>a\<close> that no datum of \<open>b\<close> matches.\<close>

lemma exists_c_lrep:
  assumes "lrep w l ps"
  shows "\<exists>r. exists_c pred l ctx w = Some r \<and> (r = None \<longleftrightarrow> \<not> list_ex (\<lambda>p. pred (snd p) ctx) ps)"
proof -
  obtain r where r: "exists_loop pred l Loc ctx w = Some r" and
    "case r of None \<Rightarrow> \<forall>p \<in> set ps. \<not> pred (snd p) ctx
      | Some s' \<Rightarrow> \<exists>us p vs. ps = us @ p # vs \<and> (\<forall>q \<in> set us. \<not> pred (snd q) ctx) \<and>
                     pred (snd p) ctx \<and> deref w l s' = fst p"
    using exists_loop_lseg [OF assms, of l Loc pred ctx] by auto
  then show ?thesis by (cases r) (auto simp: exists_c_def list_ex_iff)
qed

lemma not_subset_lrep:
  assumes b: "lrep w b qs" and a: "lrep w a ps"
  shows "not_subset pred a b w =
     Some (case find (\<lambda>p. \<not> list_ex (\<lambda>q. pred (snd q) (snd p)) qs) ps of None \<Rightarrow> 0 | Some p \<Rightarrow> snd p)"
  using a
proof (induction ps arbitrary: a)
  case Nil
  then show ?case by (simp add: not_subset.simps is_nil_def)
next
  case (Cons q ps)
  obtain p x where q: "q = (p, x)" by fastforce
  obtain r where r: "exists_c pred b x w = Some r"
    and rn: "r = None \<longleftrightarrow> \<not> list_ex (\<lambda>q. pred (snd q) x) qs"
    using exists_c_lrep [OF b] by blast
  have u: "not_subset pred a b w = (case r of None \<Rightarrow> Some x | Some _ \<Rightarrow> not_subset pred (rst_at w p) b w)"
    using Cons.prems q r by (subst not_subset.simps) (auto simp: is_nil_def)
  show ?case using Cons q u rn by (cases r) auto
qed

text \<open>From \<open>w\<close> to \<open>w'\<close> exactly the cells of \<open>rs\<close> were created and written.\<close>

definition creates :: "('s \<Rightarrow> block list) \<Rightarrow> 's lworld \<Rightarrow> 's lworld \<Rightarrow> (addr \<times> u64) list \<Rightarrow> bool" where
  "creates blks w w' rs \<longleftrightarrow> same_cells (- fst ` set rs) w w' \<and>
     set (blks (mem_state w)) \<subseteq> set (blks (mem_state w')) \<and> cells_in (blks (mem_state w')) rs \<and>
     (\<forall>p \<in> fst ` set rs. (unat p, 16) \<notin> set (blks (mem_state w)))"

lemma creates_fresh:
  "creates blks w w' rs \<Longrightarrow> cells_in (blks (mem_state w)) ps \<Longrightarrow> fst ` set rs \<inter> fst ` set ps = {}"
  by (force simp: creates_def cells_in_def list_all_iff)

lemma creates_lrep:
  "creates blks w w' rs \<Longrightarrow> cells_in (blks (mem_state w)) ps \<Longrightarrow> lrep w' a ps = lrep w a ps"
  using creates_fresh [of blks w w' rs ps]
  by (intro lrep_cong) (auto simp: creates_def elim!: same_cells_mono)

lemma creates_cells_in:
  "creates blks w w' rs \<Longrightarrow> cells_in (blks (mem_state w)) ps \<Longrightarrow> cells_in (blks (mem_state w')) ps"
  by (auto simp: creates_def intro: cells_in_mono)

lemma creates_nil_at: "creates blks w w' rs \<Longrightarrow> nil_at w' = nil_at w"
  by (simp add: creates_def same_cells_def)

lemma creates_trans:
  assumes "creates blks w w1 rs" and "creates blks w1 w2 qs"
  shows "creates blks w w2 (qs @ rs)"
proof -
  have "same_cells (- fst ` set (qs @ rs)) w w1" "same_cells (- fst ` set (qs @ rs)) w1 w2"
    using assms by (auto simp: creates_def elim!: same_cells_mono)
  then have "same_cells (- fst ` set (qs @ rs)) w w2" by (rule same_cells_trans)
  moreover have "cells_in (blks (mem_state w2)) (qs @ rs)"
    using assms creates_cells_in [OF assms(2)] by (auto simp: creates_def)
  ultimately show ?thesis using assms by (auto simp: creates_def)
qed

text \<open>\<open>append_list\<close> links a second list behind the first; no cell may be in both.\<close>

lemma append_list_correct:
  assumes "lrep w v ps" and "lrep w l2 qs" and "fst ` set ps \<inter> fst ` set qs = {}"
  shows "\<exists>v' w'. append_list v l2 w = Some (v', w') \<and> lrep w' v' (ps @ qs) \<and>
    same_cells (- fst ` set ps) w w'"
proof (cases ps rule: rev_cases)
  case Nil
  then show ?thesis using assms find_end_lrep [OF assms(1)] by (simp add: append_list_def)
next
  case (snoc us q)
  obtain p x where q: "q = (p, x)" by fastforce
  have "append_list v l2 w = Some (v, set_rst p l2 w)"
    using find_end_lrep [OF assms(1)] snoc q by (simp add: append_list_def)
  note app = this
  have same: "same_cells (- fst ` set ps) w (set_rst p l2 w)"
    using snoc q by (auto simp: same_cells_def)
  have "same_cells (fst ` set qs) w (set_rst p l2 w)"
    using assms(3) snoc q by (auto simp: same_cells_def)
  from lrep_cong [OF this] assms(2) have "lrep (set_rst p l2 w) l2 qs" by blast
  moreover have "lrep w v (us @ [(p, x)])" using assms(1) snoc q by simp
  ultimately have "lrep (set_rst p l2 w) v (us @ (p, x) # qs)"
    by (simp only: lseg_update_last)
  then have "lrep (set_rst p l2 w) v (ps @ qs)" by (simp only: snoc q append_assoc append_Cons append_Nil)
  then show ?thesis using app same by blast
qed

context allocator
begin

lemma alloc_cell_fresh:
  assumes "inv (mem_state w)" and "cells_served alloc can (nil_at w) (Suc n) (mem_state w)"
    and "alloc_cell alloc w = (c, w1)"
  shows "c \<noteq> nil_at w" and "nil_at w1 = nil_at w" and "same_cells A w w1"
    and "inv (mem_state w1)" and "blocks (mem_state w1) = (unat c, 16) # blocks (mem_state w)"
    and "cells_served alloc can (nil_at w1) n (mem_state w1)"
    and "cells_in (blocks (mem_state w)) ps \<Longrightarrow> c \<notin> fst ` set ps"
proof -
  let ?s = "mem_state w"
  have c: "c = fst (alloc CELL_SIZE ?s)" and w1: "w1 = w\<lparr>mem_state := snd (alloc CELL_SIZE ?s)\<rparr>"
    using assms(3) by (auto simp: alloc_cell_def split: prod.splits)
  have can: "can CELL_SIZE ?s" using assms(2) by simp
  have sz: "padded (unat CELL_SIZE) 8 = 16" by (simp add: CELL_SIZE_def padded_def)
  show "c \<noteq> nil_at w" "nil_at w1 = nil_at w" "cells_served alloc can (nil_at w1) n (mem_state w1)"
    using assms(2) c w1 by auto
  show "same_cells A w w1" by (simp add: w1 same_cells_def fst_at_def rst_at_def)
  show "inv (mem_state w1)" using alloc_inv [OF assms(1) can] w1 by simp
  show "blocks (mem_state w1) = (unat c, 16) # blocks ?s"
    using alloc_blocks [of CELL_SIZE ?s] w1 c sz by simp
  show "c \<notin> fst ` set ps" if "cells_in (blocks ?s) ps"
  proof
    assume "c \<in> fst ` set ps"
    with that have "(unat c, 16) \<in> set (blocks ?s)" by (auto simp: cells_in_def list_all_iff)
    then show False
      using fresh_addr [OF assms(1) can, of c 16] c by (simp add: CELL_SIZE_def)
  qed
qed

lemma not_in_blocks:
  assumes "inv (mem_state w)" and "cells_served alloc can (nil_at w) (Suc n) (mem_state w)"
    and "alloc_cell alloc w = (c, w1)"
  shows "(unat c, 16) \<notin> set (blocks (mem_state w))"
  using alloc_cell_fresh(7) [OF assms, of "[(c, 0)]"] by (auto simp: cells_in_def)

lemma prepend_correct:
  assumes "inv (mem_state w)" and "cells_served alloc can (nil_at w) (Suc n) (mem_state w)"
    and "prepend alloc data v w = (c, w')" and "lrep w v ps" and "cells_in (blocks (mem_state w)) ps"
  shows "lrep w' c ((c, data) # ps) \<and> inv (mem_state w') \<and>
    cells_served alloc can (nil_at w') n (mem_state w') \<and> creates blocks w w' [(c, data)]"
proof -
  obtain w1 where al: "alloc_cell alloc w = (c, w1)"
    and w': "w' = set_rst c v (set_fst c data w1)"
    using assms(3) by (auto simp: prepend_def Let_def split: prod.splits)
  note f = alloc_cell_fresh [OF assms(1,2) al]
  have same: "same_cells (- {c}) w w'"
    using f(3) [of UNIV] by (auto simp: w' same_cells_def)
  then have cr: "creates blocks w w' [(c, data)]"
    using f(5) not_in_blocks [OF assms(1,2) al] by (auto simp: creates_def w')
  have "lrep w' c ((c, data) # ps)"
    using assms(4) f(1,2) creates_lrep [OF cr assms(5), of v] by (simp add: w')
  then show ?thesis using f cr by (simp add: w')
qed

lemma lst_eq_prepend: "lst alloc data l w = prepend alloc data l w"
  by (simp add: lst_def prepend_def Let_def split: prod.splits)

text \<open>\<open>append\<close> adds one datum at the end and returns the address of the new cell.\<close>

lemma append_correct:
  assumes "inv (mem_state w)" and "cells_served alloc can (nil_at w) (Suc n) (mem_state w)"
    and "lrep w v ps" and "cells_in (blocks (mem_state w)) ps"
  shows "\<exists>c v' w'. append alloc data v w = Some (c, v', w') \<and> lrep w' v' (ps @ [(c, data)]) \<and>
    inv (mem_state w') \<and> cells_served alloc can (nil_at w') n (mem_state w') \<and>
    cells_in (blocks (mem_state w')) (ps @ [(c, data)]) \<and>
    same_cells (- (fst ` set (ps @ [(c, data)]))) w w' \<and>
    (\<forall>qs. cells_in (blocks (mem_state w)) qs \<longrightarrow> c \<notin> fst ` set qs)"
proof -
  obtain c w1 where al: "alloc_cell alloc w = (c, w1)" by fastforce
  note f = alloc_cell_fresh [OF assms(1,2) al]
  have same1: "same_cells A w w1" for A by (rule f(3))
  have c_ps: "c \<notin> fst ` set ps" by (rule f(7) [OF assms(4)])
  show ?thesis
  proof (cases ps rule: rev_cases)
    case Nil
    then have "find_end w v Loc = Some Loc" using find_end_lrep [OF assms(3)] by simp
    then have "append alloc data v w = Some (c, c, set_rst c (nil_at w) (set_fst c data w1))"
      using al f(2) by (simp add: append_def)
    then show ?thesis
      using Nil f same1 [of UNIV] by (auto simp: same_cells_def)
  next
    case (snoc qs q)
    obtain p x where q: "q = (p, x)" by fastforce
    let ?w = "set_rst c (nil_at w) (set_fst c data (set_rst p c w1))"
    have "find_end w v Loc = Some (Rst p)" using find_end_lrep [OF assms(3)] snoc q by simp
    then have app: "append alloc data v w = Some (c, v, ?w)"
      using al f(2) by (simp add: append_def)
    have "lrep w1 v (qs @ [(p, x)])" using lrep_cong [OF same1] assms(3) snoc q by simp
    from lseg_update_last [OF this, of c "[(c, data)]"]
    have "lrep (set_rst p c w1) v (qs @ (p, x) # [(c, data)]) \<longleftrightarrow> lrep (set_rst p c w1) c [(c, data)]" .
    have cp: "c \<noteq> p" using c_ps snoc q by auto
    have "same_cells (fst ` set qs) w1 ?w"
      using c_ps snoc q lrep_distinct [OF assms(3)] by (auto simp: same_cells_def)
    then have seg: "lseg ?w v qs b = lseg w1 v qs b" for b by (rule lseg_cong)
    from \<open>lrep w1 v (qs @ [(p, x)])\<close> have "lrep ?w v (ps @ [(c, data)])"
      using snoc q f(1,2) cp by (auto simp: lrep_def lseg_append seg)
    moreover have "same_cells (- (fst ` set (ps @ [(c, data)]))) w ?w"
      using same1 [of UNIV] snoc q by (auto simp: same_cells_def)
    ultimately show ?thesis
      using app f(2,4,5,6,7) cells_in_mono [OF assms(4), of "blocks (mem_state w1)"] by auto
  qed
qed

lemma prepend_loop_correct:
  assumes "inv (mem_state w)" and "cells_served alloc can (nil_at w) (length ps + n) (mem_state w)"
    and "lrep w l ps" and "lrep w ret qs"
    and "cells_in (blocks (mem_state w)) ps" and "cells_in (blocks (mem_state w)) qs"
  shows "\<exists>ret' w' rs. prepend_loop alloc f l ret w = Some (ret', w') \<and> lrep w' ret' (rs @ qs) \<and>
    map snd rs = rev (map (\<lambda>p. f (snd p)) ps) \<and> inv (mem_state w') \<and>
    cells_served alloc can (nil_at w') n (mem_state w') \<and> creates blocks w w' rs"
  using assms
proof (induction ps arbitrary: w l ret qs)
  case Nil
  then show ?case
    by (intro exI [of _ ret] exI [of _ w] exI [of _ "[]"])
       (simp add: prepend_loop.simps is_nil_def creates_def)
next
  case (Cons q ps)
  obtain p x where q: "q = (p, x)" by fastforce
  with Cons.prems have l: "l = p" "p \<noteq> nil_at w" "fst_at w l = x" and ps: "lrep w (rst_at w p) ps"
    by auto
  obtain r1 w1 where pr: "prepend alloc (f x) ret w = (r1, w1)" by fastforce
  have served: "cells_served alloc can (nil_at w) (Suc (length ps + n)) (mem_state w)"
    using Cons.prems(2) by simp
  from prepend_correct [OF Cons.prems(1) served pr Cons.prems(4,6)]
  have r1: "lrep w1 r1 ((r1, f x) # qs)" and inv1: "inv (mem_state w1)"
    and sv1: "cells_served alloc can (nil_at w1) (length ps + n) (mem_state w1)"
    and cr: "creates blocks w w1 [(r1, f x)]" by auto
  have in1: "cells_in (blocks (mem_state w1)) ((r1, f x) # qs)"
    using creates_cells_in [OF cr Cons.prems(6)] cr by (simp add: creates_def)
  have l1: "lrep w1 l (q # ps)" using creates_lrep [OF cr Cons.prems(5)] Cons.prems(3) by simp
  then have ps1: "lrep w1 (rst_at w1 p) ps" using q by simp
  have in2: "cells_in (blocks (mem_state w1)) ps"
    using creates_cells_in [OF cr Cons.prems(5)] by simp
  from Cons.IH [OF inv1 sv1 ps1 r1 in2 in1] obtain ret' w' rs where
    lp: "prepend_loop alloc f (rst_at w1 p) r1 w1 = Some (ret', w')"
    and r: "lrep w' ret' (rs @ (r1, f x) # qs)" "map snd rs = rev (map (\<lambda>p. f (snd p)) ps)"
    "inv (mem_state w')" "cells_served alloc can (nil_at w') n (mem_state w')"
    and cr': "creates blocks w1 w' rs" by auto
  have "prepend_loop alloc f l ret w = Some (ret', w')"
    using lp pr l by (subst prepend_loop.simps) (simp add: is_nil_def)
  with r q creates_trans [OF cr cr'] show ?case
    by (intro exI [of _ ret'] exI [of _ w'] exI [of _ "rs @ [(r1, f x)]"]) simp
qed

lemma reverse_correct:
  assumes "inv (mem_state w)" and "cells_served alloc can (nil_at w) (length ps + n) (mem_state w)"
    and "lrep w l ps" and "cells_in (blocks (mem_state w)) ps"
  shows "\<exists>r w' rs. reverse alloc l w = Some (r, w') \<and> lrep w' r rs \<and> map snd rs = rev (map snd ps) \<and>
    inv (mem_state w') \<and> cells_served alloc can (nil_at w') n (mem_state w') \<and> creates blocks w w' rs"
  using prepend_loop_correct [OF assms(1,2,3) _ assms(4), of "nil_at w" "[]" "\<lambda>x. x"]
  by (auto simp: reverse_def)

lemma map_correct:
  assumes "inv (mem_state w)" and "cells_served alloc can (nil_at w) (length ps + length ps) (mem_state w)"
    and "lrep w l ps" and "cells_in (blocks (mem_state w)) ps"
  shows "\<exists>r w' rs. map_c alloc l ctx mapper w = Some (r, w') \<and> lrep w' r rs \<and>
    map snd rs = map (\<lambda>e. mapper e ctx) (map snd ps) \<and> lrep w' l ps"
proof -
  obtain r1 w1 rs1 where 1: "prepend_loop alloc (\<lambda>e. mapper e ctx) l (nil_at w) w = Some (r1, w1)"
    "lrep w1 r1 rs1" "map snd rs1 = rev (map (\<lambda>p. mapper (snd p) ctx) ps)" "inv (mem_state w1)"
    "cells_served alloc can (nil_at w1) (length ps) (mem_state w1)" "creates blocks w w1 rs1"
    using prepend_loop_correct [OF assms(1,2,3) _ assms(4), of "nil_at w" "[]" "\<lambda>e. mapper e ctx"]
    by auto
  have "length rs1 = length ps" using arg_cong [OF 1(3), of length] by simp
  then obtain r2 w2 rs2 where 2: "reverse alloc r1 w1 = Some (r2, w2)" "lrep w2 r2 rs2"
    "map snd rs2 = rev (map snd rs1)" "creates blocks w1 w2 rs2"
    using reverse_correct [OF 1(4) _ 1(2), of 0] 1(5,6) by (auto simp: creates_def)
  have "lrep w2 l ps"
    using creates_lrep [OF creates_trans [OF 1(6) 2(4)] assms(4)] assms(3) by simp
  then show ?thesis using 1 2 by (auto simp: map_c_def comp_def rev_map)
qed

lemma concat_correct:
  assumes "inv (mem_state w)"
    and "cells_served alloc can (nil_at w) (length ps + (length qs + (length ps + length qs))) (mem_state w)"
    and "lrep w a ps" and "lrep w b qs"
    and "cells_in (blocks (mem_state w)) ps" and "cells_in (blocks (mem_state w)) qs"
  shows "\<exists>r w' rs. concat_c alloc a b w = Some (r, w') \<and> lrep w' r rs \<and>
    map snd rs = map snd ps @ map snd qs \<and> lrep w' a ps \<and> lrep w' b qs"
proof -
  obtain r1 w1 rs1 where 1: "prepend_loop alloc (\<lambda>x. x) a (nil_at w) w = Some (r1, w1)"
    "lrep w1 r1 rs1" "map snd rs1 = rev (map snd ps)" "inv (mem_state w1)"
    "cells_served alloc can (nil_at w1) (length qs + (length ps + length qs)) (mem_state w1)"
    "creates blocks w w1 rs1"
    using prepend_loop_correct [OF assms(1,2,3) _ assms(5), of "nil_at w" "[]" "\<lambda>x. x"] by auto
  have b1: "lrep w1 b qs" "cells_in (blocks (mem_state w1)) qs"
    using creates_lrep [OF 1(6) assms(6)] creates_cells_in [OF 1(6) assms(6)] assms(4) by auto
  have in1: "cells_in (blocks (mem_state w1)) rs1" using 1(6) by (simp add: creates_def)
  obtain r2 w2 rs2 where 2: "prepend_loop alloc (\<lambda>x. x) b r1 w1 = Some (r2, w2)"
    "lrep w2 r2 (rs2 @ rs1)" "map snd rs2 = rev (map snd qs)" "inv (mem_state w2)"
    "cells_served alloc can (nil_at w2) (length ps + length qs) (mem_state w2)"
    "creates blocks w1 w2 rs2"
    using prepend_loop_correct [OF 1(4,5) b1(1) 1(2) b1(2) in1, of "\<lambda>x. x"] by auto
  have len: "length (rs2 @ rs1) = length ps + length qs"
    using arg_cong [OF 1(3), of length] arg_cong [OF 2(3), of length] by simp
  have cr: "creates blocks w w2 (rs2 @ rs1)" by (rule creates_trans [OF 1(6) 2(6)])
  obtain r3 w3 rs3 where 3: "reverse alloc r2 w2 = Some (r3, w3)" "lrep w3 r3 rs3"
    "map snd rs3 = rev (map snd (rs2 @ rs1))" "creates blocks w2 w3 rs3"
    using reverse_correct [OF 2(4) _ 2(2), of 0] 2(5) len cr by (auto simp: creates_def)
  have "lrep w3 a ps" "lrep w3 b qs"
    using creates_lrep [OF creates_trans [OF cr 3(4)]] assms(3-6) by auto
  then show ?thesis using 1 2 3 by (auto simp: concat_c_def)
qed

end


text \<open>The list operations on a region, from the laws of the region allocator.\<close>

text \<open>C19. \<open>append\<close> on cells of the region allocator adds one new cell at the
end of the list and changes no other list.\<close>

lemma append_on_region:
  assumes "ginv reg (mem_state w)"
    and "cells_served (galloc mmap reg) (gcan mmap reg) (nil_at w) 1 (mem_state w)"
    and "lrep w v ps" and "cells_in (fst (snd (mem_state w))) ps"
  shows "\<exists>c v' w'. append (galloc mmap reg) data v w = Some (c, v', w') \<and>
    lrep w' v' (ps @ [(c, data)]) \<and> same_cells (- (fst ` set (ps @ [(c, data)]))) w w' \<and>
    (\<forall>qs. cells_in (fst (snd (mem_state w))) qs \<longrightarrow> c \<notin> fst ` set qs)"
  using rg.append_correct [of reg w mmap 0 v ps data] assms
  by (auto simp: case_prod_unfold)

text \<open>C20. \<open>concat\<close> makes a new list with the data of both arguments in order
and leaves the arguments as they are.\<close>

lemma concat_on_region:
  assumes "ginv reg (mem_state w)"
    and "cells_served (galloc mmap reg) (gcan mmap reg) (nil_at w)
           (length ps + (length qs + (length ps + length qs))) (mem_state w)"
    and "lrep w a ps" and "lrep w b qs"
    and "cells_in (fst (snd (mem_state w))) ps" and "cells_in (fst (snd (mem_state w))) qs"
  shows "\<exists>r w' rs. concat_c (galloc mmap reg) a b w = Some (r, w') \<and> lrep w' r rs \<and>
    map snd rs = map snd ps @ map snd qs \<and> lrep w' a ps \<and> lrep w' b qs"
  using rg.concat_correct [of reg w mmap ps qs a b] assms
  by (auto simp: case_prod_unfold)

definition demo_world :: "u64 gstate lworld" where
  "demo_world =
     (let w0 = \<lparr>cells = (\<lambda>_. \<lparr>fst_of = 0, rst_of = 0x1000\<rparr>),
                mem_state = ([0x10000], [], snd (create_region bump_mmap 0 boot_state)), nil_at = 0x1000\<rparr>;
          al = galloc bump_mmap 0x10000;
          (a, w1) = prepend al 7 0x1000 w0
      in snd (prepend al 8 0x1000 w1))"

lemmas demo_eval = demo_world_def region_eval alloc_cell_def prepend_def set_fst_def set_rst_def
  CELL_SIZE_def fst_at_def rst_at_def lrep_def cells_in_def ginv_def region_inv_def chunk_ok_def
  used_block_def MAGIC_def padded_def

lemma demo1: "ginv 0x10000 (mem_state demo_world)"
  by (simp add: demo_eval)

lemma demo2: "cells_served (galloc bump_mmap 0x10000) (gcan bump_mmap 0x10000) (nil_at demo_world) (Suc (Suc (Suc (Suc 0)))) (mem_state demo_world)"
  by (simp add: demo_eval)

lemma demo3: "lrep demo_world 65576 [(65576, 7)]" "lrep demo_world 65592 [(65592, 8)]"
  "cells_in (fst (snd (mem_state demo_world))) [(65576, 7)]"
  "cells_in (fst (snd (mem_state demo_world))) [(65592, 8)]"
  by (simp_all add: demo_eval)


lemma append_on_region_witness:
  "\<exists>c v' w'. append (galloc bump_mmap 0x10000) 9 65576 demo_world = Some (c, v', w') \<and>
    lrep w' v' ([(65576, 7)] @ [(c, 9)]) \<and>
    same_cells (- (fst ` set ([(65576, 7 :: u64)] @ [(c, 9)]))) demo_world w' \<and>
    (\<forall>qs. cells_in (fst (snd (mem_state demo_world))) qs \<longrightarrow> c \<notin> fst ` set qs)"
  by (rule append_on_region [OF demo1 _ demo3(1,3)]) (use demo2 in simp)

lemma concat_on_region_witness:
  "\<exists>r w' rs. concat_c (galloc bump_mmap 0x10000) 65576 65592 demo_world = Some (r, w') \<and> lrep w' r rs \<and>
    map snd rs = map snd [(65576 :: addr, 7 :: u64)] @ map snd [(65592 :: addr, 8 :: u64)] \<and>
    lrep w' 65576 [(65576, 7)] \<and> lrep w' 65592 [(65592, 8)]"
  by (rule concat_on_region [OF demo1 _ demo3]) (use demo2 in simp)

end
