(* ===== verification/Signature_Copies.thy ===== *)
theory Signature_Copies
  imports Unify Cells
begin

text \<open>
  The copies of signatures that \<open>copy_fragment\<close> of \<open>bootstrap/lexer.c\<close> makes for the uses of a
  generalised definition: a renaming of the variables to fresh ones. The interface
  \<open>fresh_source\<close> says what the allocator of the new variables has to promise; it is
  interpreted on the region allocator.
\<close>

section \<open>Renamings\<close>

text \<open>The characters of tokens come from the table, and copying looks them up in it again.\<close>

fun tabled :: "frag \<Rightarrow> bool" where
  "tabled (Ch c) = (char_entry c = Some (Ch c))"
| "tabled (Lst d) = list_all tabled d"
| "tabled (Var a) = True"

fun var_count :: "frag \<Rightarrow> nat" where
  "var_count (Var a) = 1"
| "var_count (Lst d) = sum_list (map var_count d)"
| "var_count (Ch c) = 0"

definition rename :: "addr list \<Rightarrow> addr list \<Rightarrow> addr \<Rightarrow> frag" where
  "rename ov nv a = (case renamed a ov nv of None \<Rightarrow> Var a | Some b \<Rightarrow> Var b)"

lemma renamed_None: "length ov = length nv \<Longrightarrow> renamed a ov nv = None \<longleftrightarrow> a \<notin> set ov"
  by (induction ov nv rule: list_induct2) auto

lemma renamed_append:
  "length oe = length ne \<Longrightarrow> a \<notin> set oe \<Longrightarrow> renamed a (oe @ ov) (ne @ nv) = renamed a ov nv"
  by (induction oe ne rule: list_induct2) auto

lemma copy_token_id: "list_all is_ch d \<Longrightarrow> list_all tabled d \<Longrightarrow> copy_token d = Ret d"
  by (induction d rule: copy_token.induct) auto

text \<open>Well-formed renaming tables, and what copying may do to tables and store.\<close>

fun names_ok :: "('s \<Rightarrow> addr set) \<Rightarrow> 's copying \<Rightarrow> bool" where
  "names_ok used (ov, nv, s, r) \<longleftrightarrow>
     length ov = length nv \<and> distinct ov \<and> distinct nv \<and> set nv \<subseteq> used r"

fun extends :: "('s \<Rightarrow> addr set) \<Rightarrow> 's copying \<Rightarrow> 's copying \<Rightarrow> bool" where
  "extends used (ov, nv, s, r) (ov', nv', s', r') \<longleftrightarrow>
     (\<exists>oe ne. ov' = oe @ ov \<and> nv' = ne @ nv \<and> length oe = length ne \<and>
        (\<forall>b \<in> set ne. s' b = Var b \<and> b \<notin> used r)) \<and>
     (\<forall>a \<in> used r. s' a = s a) \<and> used r \<subseteq> used r'"

fun copy_of :: "'s copying \<Rightarrow> frag \<Rightarrow> frag" where
  "copy_of (ov, nv, s, r) t = subst (rename ov nv) t"

fun renames :: "'s copying \<Rightarrow> addr set" where
  "renames (ov, nv, s, r) = set ov"

lemma extends_refl: "extends used st st"
  by (cases st) auto

lemma extends_trans:
  assumes "extends used st st1" "extends used st1 st2" "names_ok used st1"
  shows "extends used st st2"
proof -
  obtain ov nv s r ov1 nv1 s1 r1 ov2 nv2 s2 r2
    where st: "st = (ov, nv, s, r)" "st1 = (ov1, nv1, s1, r1)" "st2 = (ov2, nv2, s2, r2)"
    by (cases st; cases st1; cases st2) auto
  obtain oe ne where 1: "ov1 = oe @ ov" "nv1 = ne @ nv" "length oe = length ne"
    "\<forall>b \<in> set ne. s1 b = Var b \<and> b \<notin> used r" "\<forall>a \<in> used r. s1 a = s a" "used r \<subseteq> used r1"
    using assms(1) st by auto
  obtain oe' ne' where 2: "ov2 = oe' @ ov1" "nv2 = ne' @ nv1" "length oe' = length ne'"
    "\<forall>b \<in> set ne'. s2 b = Var b \<and> b \<notin> used r1" "\<forall>a \<in> used r1. s2 a = s1 a" "used r1 \<subseteq> used r2"
    using assms(2) st by auto
  have "set ne \<subseteq> used r1" using assms(3) st 1 by auto
  then have "\<forall>b \<in> set (ne' @ ne). s2 b = Var b \<and> b \<notin> used r" using 1 2 by auto
  moreover have "ov2 = (oe' @ oe) @ ov" "nv2 = (ne' @ ne) @ nv" "length (oe' @ oe) = length (ne' @ ne)"
    using 1 2 by simp_all
  moreover have "\<forall>a \<in> used r. s2 a = s a" "used r \<subseteq> used r2" using 1 2 by auto
  ultimately show ?thesis unfolding st extends.simps by blast
qed

lemma subst_cong: "(\<forall>a \<in> vars t. f a = g a) \<Longrightarrow> subst f t = subst g t"
  by (induction t) auto

lemma copy_of_extends:
  assumes "extends used st st'" "names_ok used st'" "vars t \<subseteq> renames st"
  shows "copy_of st' t = copy_of st t"
proof -
  obtain ov nv s r ov' nv' s' r' where st: "st = (ov, nv, s, r)" "st' = (ov', nv', s', r')"
    by (cases st; cases st') auto
  obtain oe ne where 1: "ov' = oe @ ov" "nv' = ne @ nv" "length oe = length ne" using assms(1) st by auto
  have "rename ov' nv' a = rename ov nv a" if "a \<in> vars t" for a
  proof -
    have "a \<notin> set oe" using that assms(2,3) st 1 by auto
    then show ?thesis using 1 by (simp add: rename_def renamed_append)
  qed
  then show ?thesis using st by (simp add: subst_cong)
qed

section \<open>Copying\<close>

locale fresh_source =
  fixes new :: "'s \<Rightarrow> addr \<times> 's" and left :: "nat \<Rightarrow> 's \<Rightarrow> bool" and used :: "'s \<Rightarrow> addr set"
  assumes left_Suc: "left (Suc k) r \<Longrightarrow> left k r"
    and left_new: "left (Suc k) r \<Longrightarrow> left k (snd (new r))"
    and new_fresh: "left (Suc k) r \<Longrightarrow> fst (new r) \<notin> used r"
    and used_new: "used (snd (new r)) = insert (fst (new r)) (used r)"
begin

lemma left_mono: "left (n + k) r \<Longrightarrow> left k r"
  by (induction n) (auto dest: left_Suc)

lemma copy_list:
  assumes "\<And>x st k. x \<in> set ls \<Longrightarrow> names_ok used st \<Longrightarrow> left (var_count x + k) (snd (snd (snd st))) \<Longrightarrow>
     \<exists>st'. copy_fragment new x st = (Ret (copy_of st' x, st') :: ('e, frag \<times> 's copying) outcome) \<and>
       names_ok used st' \<and> extends used st st' \<and> left k (snd (snd (snd st'))) \<and> renames st' = renames st \<union> vars x"
  shows "names_ok used st \<Longrightarrow> left (sum_list (map var_count ls) + k) (snd (snd (snd st))) \<Longrightarrow>
     \<exists>st'. copy_fragments new ls st = (Ret (map (copy_of st') ls, st') :: ('e, frag list \<times> 's copying) outcome) \<and>
       names_ok used st' \<and> extends used st st' \<and> left k (snd (snd (snd st'))) \<and>
       renames st' = renames st \<union> vars (Lst ls)"
  using assms
proof (induction ls arbitrary: st k)
  case Nil
  then show ?case using extends_refl by simp
next
  case (Cons x ls)
  obtain st1 where 1: "copy_fragment new x st = (Ret (copy_of st1 x, st1) :: ('e, frag \<times> 's copying) outcome)"
    "names_ok used st1" "extends used st st1" "left (sum_list (map var_count ls) + k) (snd (snd (snd st1)))"
    "renames st1 = renames st \<union> vars x"
    using Cons.prems(3) [of x st "sum_list (map var_count ls) + k"] Cons.prems(1,2) by (auto simp: add.assoc)
  obtain st2 where 2: "copy_fragments new ls st1 = (Ret (map (copy_of st2) ls, st2) :: ('e, frag list \<times> 's copying) outcome)"
    "names_ok used st2" "extends used st1 st2" "left k (snd (snd (snd st2)))"
    "renames st2 = renames st1 \<union> vars (Lst ls)"
    using Cons.IH [OF 1(2,4)] Cons.prems(3) by auto
  have "copy_of st2 x = copy_of st1 x" by (rule copy_of_extends [OF 2(3,2)]) (simp add: 1)
  with 1 2 extends_trans [OF 1(3) 2(3) 1(2)] show ?case
    by (intro exI [of _ st2]) (simp add: Un_assoc)
qed

lemma copy_correct:
  "is_signature l \<Longrightarrow> tabled l \<Longrightarrow> names_ok used st \<Longrightarrow> left (var_count l + k) (snd (snd (snd st))) \<Longrightarrow>
   \<exists>st'. copy_fragment new l st = (Ret (copy_of st' l, st') :: ('e, frag \<times> 's copying) outcome) \<and>
     names_ok used st' \<and> extends used st st' \<and> left k (snd (snd (snd st'))) \<and> renames st' = renames st \<union> vars l"
proof (induction l arbitrary: st k)
  case (Var a)
  obtain ov nv s r where st: "st = (ov, nv, s, r)" by (cases st) auto
  show ?case
  proof (cases "renamed a ov nv")
    case None
    obtain b r' where b: "new r = (b, r')" by fastforce
    have l: "left (Suc k) r" using Var.prems(4) st by simp
    have fresh: "b \<notin> used r" "used r' = insert b (used r)" "left k r'"
      using new_fresh [OF l] used_new [of r] left_new [OF l] b by simp_all
    have a: "a \<notin> set ov" using None Var.prems(3) st by (simp add: renamed_None)
    let ?st' = "(a # ov, b # nv, s(b := Var b), r')"
    have "copy_fragment new (Var a) st = (Ret (copy_of ?st' (Var a), ?st') :: ('e, frag \<times> 's copying) outcome)"
      using st None b by (simp add: var_def rename_def)
    moreover have "names_ok used ?st'" using Var.prems(3) st fresh a by auto
    moreover have "extends used st ?st'"
      using st fresh by (auto intro!: exI [of _ "[a]"] exI [of _ "[b]"])
    ultimately show ?thesis using st fresh by (intro exI [of _ ?st']) simp
  next
    case (Some b)
    then have "a \<in> set ov" using Var.prems(3) st renamed_None [of ov nv a] by auto
    then show ?thesis
      using Some st Var.prems(3,4) extends_refl [of used st] left_Suc [of k r]
      by (intro exI [of _ st]) (auto simp: rename_def)
  qed
next
  case (Lst d)
  show ?case
  proof (cases "is_token (Lst d)")
    case True
    then have d: "list_all is_ch d" using Lst.prems(1) by (simp add: is_token_iff)
    have "copy_of st (Lst d) = Lst d" using d by (cases st) (simp add: subst_characters)
    moreover have "vars (Lst d) = {}" using d by (rule vars_characters)
    moreover have "left k (snd (snd (snd st)))" using Lst.prems(4) by (rule left_mono)
    ultimately show ?thesis
      using True copy_token_id [OF d] Lst.prems(2,3) extends_refl [of used st]
      by (intro exI [of _ st]) (simp del: vars.simps copy_of.simps)
  next
    case False
    have "list_all is_signature d" using not_token_elements [OF Lst.prems(1) False] .
    then have step: "\<exists>st'. copy_fragment new x st = (Ret (copy_of st' x, st') :: ('e, frag \<times> 's copying) outcome) \<and>
       names_ok used st' \<and> extends used st st' \<and> left k (snd (snd (snd st'))) \<and> renames st' = renames st \<union> vars x"
      if "x \<in> set d" "names_ok used st" "left (var_count x + k) (snd (snd (snd st)))" for x st k
      using that Lst.prems(2) by (intro Lst.IH) (auto simp: list_all_iff)
    obtain st' where st': "copy_fragments new d st = (Ret (map (copy_of st') d, st') :: ('e, frag list \<times> 's copying) outcome)"
      "names_ok used st'" "extends used st st'" "left k (snd (snd (snd st')))" "renames st' = renames st \<union> vars (Lst d)"
      using copy_list [OF step Lst.prems(3), of d k] Lst.prems(4) by auto
    have "copy_of st' (Lst d) = Lst (map (copy_of st') d)" by (cases st') simp
    with st' False show ?thesis by (intro exI [of _ st']) (simp del: vars.simps copy_of.simps)
  qed
qed simp

end

interpretation cp: fresh_source "galloc mmap reg CELL_SIZE"
  "\<lambda>k r. ginv reg r \<and> all_served (galloc mmap reg) (gcan mmap reg) (replicate k CELL_SIZE) r"
  "\<lambda>r. {a. \<exists>n > 0. (unat a, n) \<in> set (fst (snd r))}"
  for mmap :: "'k mmap_call" and reg :: addr
proof
  fix k and r :: "'k gstate"
  have blocks: "(case r of (cs, bs, st) \<Rightarrow> bs) = fst (snd r)" for r :: "'k gstate"
    by (cases r) simp
  assume l: "ginv reg r \<and> all_served (galloc mmap reg) (gcan mmap reg) (replicate (Suc k) CELL_SIZE) r"
  then show "ginv reg (snd (galloc mmap reg CELL_SIZE r)) \<and>
      all_served (galloc mmap reg) (gcan mmap reg) (replicate k CELL_SIZE) (snd (galloc mmap reg CELL_SIZE r))"
    using rg.alloc_inv [of reg r mmap CELL_SIZE] by simp
  have "fst (galloc mmap reg CELL_SIZE r) \<noteq> a" if "0 < n" "(unat a, n) \<in> set (fst (snd r))" for a n
    using rg.fresh_addr [of reg r mmap CELL_SIZE a n] l that by (simp add: blocks CELL_SIZE_def)
  then show "fst (galloc mmap reg CELL_SIZE r) \<notin> {a. \<exists>n > 0. (unat a, n) \<in> set (fst (snd r))}"
    by auto
next
  fix k and r :: "'k gstate"
  have "all_served (galloc mmap reg) (gcan mmap reg) (replicate (Suc k) CELL_SIZE) r \<Longrightarrow>
      all_served (galloc mmap reg) (gcan mmap reg) (replicate k CELL_SIZE) r"
    by (induction k arbitrary: r) auto
  then show "ginv reg r \<and> all_served (galloc mmap reg) (gcan mmap reg) (replicate (Suc k) CELL_SIZE) r \<Longrightarrow>
      ginv reg r \<and> all_served (galloc mmap reg) (gcan mmap reg) (replicate k CELL_SIZE) r" by blast
next
  fix r :: "'k gstate"
  have "fst (snd (snd (galloc mmap reg CELL_SIZE r))) =
      (unat (fst (galloc mmap reg CELL_SIZE r)), padded (unat CELL_SIZE) 8) # fst (snd r)"
    by (cases r) (simp add: galloc_def split: prod.splits)
  moreover have "0 < padded (unat CELL_SIZE) 8" by (simp add: CELL_SIZE_def padded_def)
  ultimately show "{a. \<exists>n > 0. (unat a, n) \<in> set (fst (snd (snd (galloc mmap reg CELL_SIZE r))))} =
      insert (fst (galloc mmap reg CELL_SIZE r)) {a. \<exists>n > 0. (unat a, n) \<in> set (fst (snd r))}"
    by (auto simp: word_unat_eq_iff)
qed

text \<open>C18. \<open>copy_fragment\<close> renames the variables of a signature: equal
variables to equal copies, different variables to different copies, each copy a new unbound cell
of the region, and no cell that was allocated before changes.\<close>

lemma copy_signature_fresh:
  assumes "is_signature l" and "tabled l" and "ginv reg r"
    and "all_served (galloc mmap reg) (gcan mmap reg) (replicate (var_count l) CELL_SIZE) r"
  shows "\<exists>ov nv s' r'.
    copy_fragment (galloc mmap reg CELL_SIZE) l ([], [], s, r) =
      (Ret (subst (rename ov nv) l, (ov, nv, s', r')) :: ('e, frag \<times> 'k gstate copying) outcome) \<and>
    set ov = vars l \<and> length nv = length ov \<and> distinct ov \<and> distinct nv \<and>
    (\<forall>b \<in> set nv. s' b = Var b \<and> (\<forall>n > 0. (unat b, n) \<notin> set (fst (snd r)))) \<and>
    (\<forall>a n. 0 < n \<and> (unat a, n) \<in> set (fst (snd r)) \<longrightarrow> s' a = s a)"
proof -
  let ?used = "\<lambda>r :: 'k gstate. {a :: addr. \<exists>n > 0. (unat a, n) \<in> set (fst (snd r))}"
  have n: "names_ok ?used ([], [], s, r)" by simp
  obtain st' where st': "copy_fragment (galloc mmap reg CELL_SIZE) l ([], [], s, r) =
      (Ret (copy_of st' l, st') :: ('e, frag \<times> 'k gstate copying) outcome)"
    "names_ok ?used st'" "extends ?used ([], [], s, r) st'" "renames st' = renames ([], [], s, r) \<union> vars l"
    using cp.copy_correct [OF assms(1,2) n, of reg mmap 0, where ?'e = 'e] assms(3,4) by auto
  obtain ov nv s' r' where st: "st' = (ov, nv, s', r')" by (cases st') auto
  have "\<forall>n > 0. (unat b, n) \<notin> set (fst (snd r))" if "b \<in> set nv" for b
  proof -
    have "b \<notin> ?used r" using st'(3) st that by (auto simp only: extends.simps append_Nil2)
    then show ?thesis by blast
  qed
  with st st' show ?thesis
    by - (rule exI [of _ ov], rule exI [of _ nv], rule exI [of _ s'], rule exI [of _ r'], auto simp del: neq0_conv)
qed

lemma copy_signature_fresh_witness:
  "\<exists>ov nv s' r'.
    copy_fragment (galloc bump_mmap 0x10000 CELL_SIZE) (Lst [Lst [Ch (CHR ''f'')], Var 8, Var 16, Var 8])
        ([], [], Var, mem_state demo_world) =
      (Ret (subst (rename ov nv) (Lst [Lst [Ch (CHR ''f'')], Var 8, Var 16, Var 8]), (ov, nv, s', r'))
         :: (unit, frag \<times> u64 gstate copying) outcome) \<and>
    set ov = vars (Lst [Lst [Ch (CHR ''f'')], Var 8, Var 16, Var 8]) \<and> length nv = length ov \<and> distinct ov \<and> distinct nv \<and>
    (\<forall>b \<in> set nv. s' b = Var b \<and> (\<forall>n > 0. (unat b, n) \<notin> set (fst (snd (mem_state demo_world))))) \<and>
    (\<forall>a n. 0 < n \<and> (unat a, n) \<in> set (fst (snd (mem_state demo_world))) \<longrightarrow> s' a = Var a)"
proof (rule copy_signature_fresh [OF _ _ demo1])
  show "is_signature (Lst [Lst [Ch (CHR ''f'')], Var 8, Var 16, Var 8])" by simp
  show "tabled (Lst [Lst [Ch (CHR ''f'')], Var 8, Var 16, Var 8])" by code_simp
  show "all_served (galloc bump_mmap 0x10000) (gcan bump_mmap 0x10000)
      (replicate (var_count (Lst [Lst [Ch (CHR ''f'')], Var 8, Var 16, Var 8])) CELL_SIZE) (mem_state demo_world)"
    using demo2 by simp
qed

end
