(* ===== verification/Expressions.thy ===== *)
theory Expressions
  imports Signature_Copies
begin

text \<open>
  Expressions, as \<open>bootstrap/expressions.c\<close> declares, makes, prints and builds them from
  fragments. An expression is a tree whose nodes carry the address of their C object; what the
  passes write into the objects (signature, binding, flags) is kept in a record per address.
  Memory of a region is new from the kernel and therefore zero, which is what a field holds
  that a \<open>make_\<close> function leaves alone.
\<close>

section \<open>The data\<close>

datatype expression_type = storage_t | function_t | with_t | invoke_t | if_t | literal_t | symbol_t
  | jump_t | continuation_t | constrain_t | assembly_t | meta_t

datatype binding_aug_type = absolute_storage | frame_relative_storage | top_relative_storage | nil_storage

datatype binding_aug_scope = local_scope | global_scope

datatype binding_aug_state = undefined_state | defined_state

text \<open>Pointers that may be null are options; \<open>symbol\<close> and \<open>expression\<close> are addresses of nodes.\<close>

record binding_aug =
  aug_name :: "string option"
  offset :: u64
  aug_size :: u64
  aug_type :: binding_aug_type
  scope :: binding_aug_scope
  state :: binding_aug_state
  aug_symbol :: "addr option"
  aug_expression :: "addr option"

text \<open>The members of \<open>union expression\<close>; the fields that the passes change are in \<open>node\<close>.\<close>

datatype expr =
    Storage addr (reference: expr) (arguments: "expr list")
  | Function addr (reference: expr) (body: expr) (parameters: "expr list")
  | With addr (reference: expr) (body: expr) (parameters: "expr list")
  | Invoke addr (reference: expr) (arguments: "expr list")
  | If addr (condition: expr) (consequent: expr) (alternate: expr)
  | Literal addr (literal_value: u64)
  | Symbol addr (symbol_name: "string option")
  | Jump addr (reference: expr) (arguments: "expr list")
  | Continuation addr (reference: expr) (body: expr) (parameters: "expr list")
  | Constrain addr (reference: expr) (body: expr)
  | Assembly addr (opcode: u64) (arguments: "expr list")
  | Meta addr (reference: expr)

primrec address :: "expr \<Rightarrow> addr" where
  "address (Storage a _ _) = a"
| "address (Function a _ _ _) = a"
| "address (With a _ _ _) = a"
| "address (Invoke a _ _) = a"
| "address (If a _ _ _) = a"
| "address (Literal a _) = a"
| "address (Symbol a _) = a"
| "address (Jump a _ _) = a"
| "address (Continuation a _ _ _) = a"
| "address (Constrain a _ _) = a"
| "address (Assembly a _ _) = a"
| "address (Meta a _) = a"

primrec type_of :: "expr \<Rightarrow> expression_type" where
  "type_of (Storage a _ _) = storage_t"
| "type_of (Function a _ _ _) = function_t"
| "type_of (With a _ _ _) = with_t"
| "type_of (Invoke a _ _) = invoke_t"
| "type_of (If a _ _ _) = if_t"
| "type_of (Literal a _) = literal_t"
| "type_of (Symbol a _) = symbol_t"
| "type_of (Jump a _ _) = jump_t"
| "type_of (Continuation a _ _ _) = continuation_t"
| "type_of (Constrain a _ _) = constrain_t"
| "type_of (Assembly a _ _) = assembly_t"
| "type_of (Meta a _) = meta_t"

record node =
  fragment_of :: "frag option"
  meta_of :: "addr option"
  signature :: "frag option"
  lowlink :: "32 word"
  dependencies :: "addr list option"
  symbol_aug :: "addr option"
  contains_flag :: u64
  temp_storage_bndg :: "addr option"
  cont_instr_bndg :: "addr option"
  escapes :: bool
  function_augs :: "addr list option"
  short_circuit :: "addr option"

definition zero_node :: node where
  "zero_node = \<lparr>fragment_of = None, meta_of = None, signature = None, lowlink = 0,
     dependencies = None, symbol_aug = None, contains_flag = 0, temp_storage_bndg = None,
     cont_instr_bndg = None, escapes = False, function_augs = None,
     short_circuit = None\<rparr>"

record 's world =
  nodes :: "addr \<Rightarrow> node"
  augs :: "addr \<Rightarrow> binding_aug"
  sigs :: store
  region_state :: 's

definition CONTAINS_NONE :: u64 where "CONTAINS_NONE = 0"
definition CONTAINS_JUMP :: u64 where "CONTAINS_JUMP = 1"
definition CONTAINS_WITH :: u64 where "CONTAINS_WITH = 3"

text \<open>\<open>sizeof(union expression)\<close> and \<open>sizeof(struct binding_aug)\<close>.\<close>

definition EXPRESSION_SIZE :: u64 where "EXPRESSION_SIZE = 88"
definition BINDING_AUG_SIZE :: u64 where "BINDING_AUG_SIZE = 64"

section \<open>Making nodes\<close>

definition new_node :: "'s alloc_fun \<Rightarrow> 's world \<Rightarrow> addr \<times> 's world" where
  "new_node alloc w =
     (let (a, r) = alloc EXPRESSION_SIZE (region_state w)
      in (a, w\<lparr>nodes := (nodes w)(a := zero_node), region_state := r\<rparr>))"

definition new_var :: "'s alloc_fun \<Rightarrow> 's world \<Rightarrow> frag \<times> 's world" where
  "new_var alloc w =
     (let (v, s, r) = var (alloc CELL_SIZE) (sigs w, region_state w)
      in (Var v, w\<lparr>sigs := s, region_state := r\<rparr>))"

definition set_node :: "addr \<Rightarrow> (node \<Rightarrow> node) \<Rightarrow> 's world \<Rightarrow> 's world" where
  "set_node a f w = w\<lparr>nodes := (nodes w)(a := f (nodes w a))\<rparr>"

definition make_binding_aug ::
  "'s alloc_fun \<Rightarrow> binding_aug_type \<Rightarrow> binding_aug_scope \<Rightarrow> binding_aug_state \<Rightarrow> string option \<Rightarrow>
   addr option \<Rightarrow> addr option \<Rightarrow> 's world \<Rightarrow> addr \<times> 's world" where
  "make_binding_aug alloc type scp st name sb ex w =
     (let (b, r) = alloc BINDING_AUG_SIZE (region_state w)
      in (b, w\<lparr>augs := (augs w)(b := \<lparr>aug_name = name, offset = 0, aug_size = 0, aug_type = type,
                scope = scp, state = st, aug_symbol = sb, aug_expression = ex\<rparr>),
              region_state := r\<rparr>))"

text \<open>
  The fields that most \<open>make_\<close> functions fill first: the fragment, a new signature variable, an
  empty dependency list and the meta expression that the node comes from.
\<close>

definition make_base :: "'s alloc_fun \<Rightarrow> frag option \<Rightarrow> addr option \<Rightarrow> 's world \<Rightarrow> addr \<times> 's world" where
  "make_base alloc frag mt w =
     (let (a, w1) = new_node alloc w; (v, w2) = new_var alloc w1
      in (a, set_node a (\<lambda>n. n\<lparr>fragment_of := frag, signature := Some v, lowlink := 0,
               dependencies := Some [], meta_of := mt\<rparr>) w2))"

text \<open>Binding the symbol of a construct: \<open>sym->symbol.binding_aug = make_binding_aug(...)\<close>.\<close>

definition declare_symbol :: "'s alloc_fun \<Rightarrow> binding_aug_type \<Rightarrow> addr \<Rightarrow> expr \<Rightarrow> 's world \<Rightarrow> 's world" where
  "declare_symbol alloc type owner sb w =
     (let (b, w1) = make_binding_aug alloc type local_scope defined_state (symbol_name sb)
                      (Some (address sb)) (Some owner) w
      in set_node (address sb) (\<lambda>n. n\<lparr>symbol_aug := Some b\<rparr>) w1)"

definition declare_symbols :: "'s alloc_fun \<Rightarrow> binding_aug_type \<Rightarrow> addr \<Rightarrow> expr list \<Rightarrow> 's world \<Rightarrow> 's world" where
  "declare_symbols alloc type owner params w =
     fold (\<lambda>p w. declare_symbol alloc type owner p w) params w"

definition make_literal :: "'s alloc_fun \<Rightarrow> u64 \<Rightarrow> frag option \<Rightarrow> addr option \<Rightarrow> 's world \<Rightarrow> expr \<times> 's world" where
  "make_literal alloc v frag mt w = (let (a, w1) = make_base alloc frag mt w in (Literal a v, w1))"

definition make_symbol :: "'s alloc_fun \<Rightarrow> string option \<Rightarrow> frag option \<Rightarrow> addr option \<Rightarrow> 's world \<Rightarrow> expr \<times> 's world" where
  "make_symbol alloc name frag mt w =
     (let (a, w1) = make_base alloc frag mt w
      in (Symbol a name, set_node a (\<lambda>n. n\<lparr>symbol_aug := None\<rparr>) w1))"

definition bind_symbol :: "addr \<Rightarrow> addr \<Rightarrow> 's world \<Rightarrow> 's world" where
  "bind_symbol sb target w = set_node sb (\<lambda>n. n\<lparr>symbol_aug := symbol_aug (nodes w target)\<rparr>) w"

definition use_binding :: "'s alloc_fun \<Rightarrow> addr \<Rightarrow> 's world \<Rightarrow> expr \<times> 's world" where
  "use_binding alloc bndg w =
     (let (a, w1) = new_node alloc w
      in (Symbol a (aug_name (augs w bndg)), set_node a (\<lambda>n. n\<lparr>meta_of := None, symbol_aug := Some bndg\<rparr>) w1))"

definition make_function ::
  "'s alloc_fun \<Rightarrow> expr \<Rightarrow> expr list \<Rightarrow> expr \<Rightarrow> frag option \<Rightarrow> addr option \<Rightarrow> 's world \<Rightarrow> expr \<times> 's world" where
  "make_function alloc ref params ex frag mt w =
     (let (a, w1) = make_base alloc frag mt w;
          w2 = declare_symbol alloc absolute_storage a ref w1;
          w3 = declare_symbols alloc frame_relative_storage a params w2
      in (Function a ref ex params, set_node a (\<lambda>n. n\<lparr>function_augs := Some []\<rparr>) w3))"

definition make_cont_instr :: "'s alloc_fun \<Rightarrow> addr \<Rightarrow> 's world \<Rightarrow> 's world" where
  "make_cont_instr alloc a w =
     (let w1 = set_node a (\<lambda>n. n\<lparr>escapes := False\<rparr>) w;
          (b, w2) = make_binding_aug alloc absolute_storage local_scope defined_state None None None w1
      in set_node a (\<lambda>n. n\<lparr>cont_instr_bndg := Some b\<rparr>) w2)"

definition make_continuation ::
  "'s alloc_fun \<Rightarrow> expr \<Rightarrow> expr list \<Rightarrow> expr \<Rightarrow> frag option \<Rightarrow> addr option \<Rightarrow> 's world \<Rightarrow> expr \<times> 's world" where
  "make_continuation alloc ref params ex frag mt w =
     (let (a, w1) = make_base alloc frag mt w;
          w2 = make_cont_instr alloc a w1;
          w3 = declare_symbol alloc frame_relative_storage a ref w2;
          w4 = declare_symbols alloc frame_relative_storage a params w3
      in (Continuation a ref ex params, w4))"

definition make_with ::
  "'s alloc_fun \<Rightarrow> expr \<Rightarrow> expr \<Rightarrow> frag option \<Rightarrow> addr option \<Rightarrow> 's world \<Rightarrow> expr \<times> 's world" where
  "make_with alloc ref ex frag mt w =
     (let (a, w1) = make_base alloc frag mt w;
          w2 = make_cont_instr alloc a w1;
          w3 = declare_symbol alloc frame_relative_storage a ref w2;
          (param, w4) = make_symbol alloc None None None w3;
          w5 = declare_symbol alloc frame_relative_storage a param w4
      in (With a ref ex [param], w5))"

text \<open>An assembly node keeps its zero fields but for type, opcode and arguments; \<open>opcode\<close> is an
  \<open>int\<close> that is stored in an \<open>unsigned long\<close>.\<close>

definition make_asm0 :: "'s alloc_fun \<Rightarrow> 32 word \<Rightarrow> 's world \<Rightarrow> expr \<times> 's world" where
  "make_asm0 alloc oc w = (let (a, w1) = new_node alloc w in (Assembly a (scast oc) [], w1))"

definition add_argument :: "expr \<Rightarrow> expr \<Rightarrow> expr" where
  "add_argument arg u = (case u of
      Assembly a oc as \<Rightarrow> Assembly a oc (arg # as)
    | Invoke a ref as \<Rightarrow> Invoke a ref (arg # as)
    | Jump a ref as \<Rightarrow> Jump a ref (arg # as)
    | _ \<Rightarrow> u)"

definition make_asm1 :: "'s alloc_fun \<Rightarrow> 32 word \<Rightarrow> expr \<Rightarrow> 's world \<Rightarrow> expr \<times> 's world" where
  "make_asm1 alloc oc arg1 w = apfst (add_argument arg1) (make_asm0 alloc oc w)"

definition make_asm2 :: "'s alloc_fun \<Rightarrow> 32 word \<Rightarrow> expr \<Rightarrow> expr \<Rightarrow> 's world \<Rightarrow> expr \<times> 's world" where
  "make_asm2 alloc oc arg1 arg2 w = apfst (add_argument arg1) (make_asm1 alloc oc arg2 w)"

definition make_asm3 :: "'s alloc_fun \<Rightarrow> 32 word \<Rightarrow> expr \<Rightarrow> expr \<Rightarrow> expr \<Rightarrow> 's world \<Rightarrow> expr \<times> 's world" where
  "make_asm3 alloc oc arg1 arg2 arg3 w = apfst (add_argument arg1) (make_asm2 alloc oc arg2 arg3 w)"

text \<open>The bindings of the temporary storage of jumps and invocations, and their flag.\<close>

definition make_temp_storage :: "'s alloc_fun \<Rightarrow> addr \<Rightarrow> 's world \<Rightarrow> 's world" where
  "make_temp_storage alloc a w =
     (let w1 = set_node a (\<lambda>n. n\<lparr>contains_flag := CONTAINS_WITH\<rparr>) w;
          (b, w2) = make_binding_aug alloc frame_relative_storage local_scope defined_state None None (Some a) w1
      in set_node a (\<lambda>n. n\<lparr>temp_storage_bndg := Some b\<rparr>) w2)"

definition make_jump ::
  "'s alloc_fun \<Rightarrow> expr \<Rightarrow> expr list \<Rightarrow> frag option \<Rightarrow> addr option \<Rightarrow> 's world \<Rightarrow> expr \<times> 's world" where
  "make_jump alloc ref as frag mt w =
     (let (a, w1) = make_base alloc frag mt w in (Jump a ref as, make_temp_storage alloc a w1))"

definition make_jump0 :: "'s alloc_fun \<Rightarrow> expr \<Rightarrow> frag option \<Rightarrow> addr option \<Rightarrow> 's world \<Rightarrow> expr \<times> 's world" where
  "make_jump0 alloc ref frag mt w = make_jump alloc ref [] frag mt w"

definition make_jump1 ::
  "'s alloc_fun \<Rightarrow> expr \<Rightarrow> expr \<Rightarrow> frag option \<Rightarrow> addr option \<Rightarrow> 's world \<Rightarrow> expr \<times> 's world" where
  "make_jump1 alloc ref arg1 frag mt w = apfst (add_argument arg1) (make_jump0 alloc ref frag mt w)"

definition make_jump2 ::
  "'s alloc_fun \<Rightarrow> expr \<Rightarrow> expr \<Rightarrow> expr \<Rightarrow> frag option \<Rightarrow> addr option \<Rightarrow> 's world \<Rightarrow> expr \<times> 's world" where
  "make_jump2 alloc ref arg1 arg2 frag mt w =
     apfst (add_argument arg1) (make_jump1 alloc ref arg2 frag mt w)"

definition make_storage ::
  "'s alloc_fun \<Rightarrow> expr \<Rightarrow> expr list \<Rightarrow> frag option \<Rightarrow> addr option \<Rightarrow> 's world \<Rightarrow> expr \<times> 's world" where
  "make_storage alloc ref as frag mt w =
     (let (a, w1) = make_base alloc frag mt w
      in (Storage a ref as, declare_symbol alloc frame_relative_storage a ref w1))"

text \<open>\<open>make_meta\<close> leaves \<open>lowlink\<close> and \<open>dependencies\<close> alone.\<close>

definition make_meta :: "'s alloc_fun \<Rightarrow> expr \<Rightarrow> frag option \<Rightarrow> addr option \<Rightarrow> 's world \<Rightarrow> expr \<times> 's world" where
  "make_meta alloc ref frag mt w =
     (let (a, w1) = new_node alloc w; (v, w2) = new_var alloc w1
      in (Meta a ref, set_node a (\<lambda>n. n\<lparr>fragment_of := frag, signature := Some v, meta_of := mt\<rparr>) w2))"

definition make_constrain ::
  "'s alloc_fun \<Rightarrow> expr \<Rightarrow> expr \<Rightarrow> frag option \<Rightarrow> addr option \<Rightarrow> 's world \<Rightarrow> expr \<times> 's world" where
  "make_constrain alloc ex ref frag mt w =
     (let (a, w1) = make_base alloc frag mt w in (Constrain a ref ex, w1))"

definition make_if ::
  "'s alloc_fun \<Rightarrow> expr \<Rightarrow> expr \<Rightarrow> expr \<Rightarrow> frag option \<Rightarrow> addr option \<Rightarrow> 's world \<Rightarrow> expr \<times> 's world" where
  "make_if alloc cnd con alt frag mt w =
     (let (a, w1) = make_base alloc frag mt w in (If a cnd con alt, w1))"

definition make_invoke ::
  "'s alloc_fun \<Rightarrow> expr \<Rightarrow> expr list \<Rightarrow> frag option \<Rightarrow> addr option \<Rightarrow> 's world \<Rightarrow> expr \<times> 's world" where
  "make_invoke alloc ref as frag mt w =
     (let (a, w1) = make_base alloc frag mt w in (Invoke a ref as, make_temp_storage alloc a w1))"

text \<open>\<open>make_invoke0\<close> to \<open>make_invoke9\<close>: each adds its first argument to what the one before it
  makes of the others.\<close>

definition make_invoke0 :: "'s alloc_fun \<Rightarrow> expr \<Rightarrow> frag option \<Rightarrow> addr option \<Rightarrow> 's world \<Rightarrow> expr \<times> 's world" where
  "make_invoke0 alloc ref frag mt w = make_invoke alloc ref [] frag mt w"

fun make_invoke_n ::
  "'s alloc_fun \<Rightarrow> expr \<Rightarrow> expr list \<Rightarrow> frag option \<Rightarrow> addr option \<Rightarrow> 's world \<Rightarrow> expr \<times> 's world" where
  "make_invoke_n alloc ref [] frag mt w = make_invoke0 alloc ref frag mt w"
| "make_invoke_n alloc ref (arg1 # as) frag mt w =
     apfst (add_argument arg1) (make_invoke_n alloc ref as frag mt w)"

section \<open>Printing\<close>

text \<open>Texts written one after the other; \<open>None\<close> stands for reading through a null pointer.\<close>

definition written :: "string option list \<Rightarrow> string option" where
  "written ts = (if None \<in> set ts then None else Some (concat (map the ts)))"

fun print_expression :: "'s world \<Rightarrow> expr \<Rightarrow> string option" where
  "print_expression w (With a r b ps) =
     written [Some ''(with '', print_expression w r, Some '' '', print_expression w b, Some '')'']"
| "print_expression w (Invoke a r as) =
     written [Some ''['', print_expression w r, Some '' '',
       written (map (\<lambda>t. written [print_expression w t, Some '' '']) as), Some [CHR 0x08], Some '']'']"
| "print_expression w (Jump a r as) =
     written [Some ''{'', print_expression w r, Some '' '',
       written (map (\<lambda>t. written [print_expression w t, Some '' '']) as), Some [CHR 0x08], Some ''}'']"
| "print_expression w (Storage a r as) =
     written [Some ''(storage '', print_expression w r, Some '' '',
       written (map (\<lambda>t. written [print_expression w t, Some '' '']) as), Some [CHR 0x08], Some '')'']"
| "print_expression w (Function a r b ps) =
     written [Some ''('', Some ''function'', Some '' '', print_expression w r, Some '' ( '',
       written (map (\<lambda>t. written [print_expression w t, Some '' '']) ps), Some '') '',
       print_expression w b, Some '')'']"
| "print_expression w (Continuation a r b ps) =
     written [Some ''('', Some ''continuation'', Some '' '', print_expression w r, Some '' ( '',
       written (map (\<lambda>t. written [print_expression w t, Some '' '']) ps), Some '') '',
       print_expression w b, Some '')'']"
| "print_expression w (If a c t e) =
     written [Some ''(if '', print_expression w c, Some '' '', print_expression w t, Some '' '',
       print_expression w e, Some '')'']"
| "print_expression w (Constrain a r b) =
     written [Some ''(constrain '', print_expression w b, Some '' '',
       map_option print_fragment (signature (nodes w a)), Some '')'']"
| "print_expression w (Symbol a name) =
     (case name of Some n \<Rightarrow> Some n
      | None \<Rightarrow> written [Some ''(reference '',
          Some (ulong_text (case symbol_aug (nodes w a) of None \<Rightarrow> 0 | Some b \<Rightarrow> b)), Some '')''])"
| "print_expression w (Literal a v) = written [Some ''(literal '', Some (ulong_text v), Some '')'']"
| "print_expression w (Meta a r) = map_option print_fragment (fragment_of (nodes w a))"
| "print_expression w (Assembly a oc as) = Some []"

section \<open>Building expressions from fragments\<close>

text \<open>The loop that reads the 64 binary digits of a literal; \<open>None\<close> at another character.\<close>

fun literal_loop :: "string \<Rightarrow> u64 \<Rightarrow> u64 option" where
  "literal_loop [] v = Some v"
| "literal_loop (c # str) v =
     (let v' = push_bit 1 v
      in if c = CHR ''1'' then literal_loop str (v' + 1)
         else if c \<noteq> CHR ''0'' then None else literal_loop str v')"

definition WORD_BIN_LEN :: nat where "WORD_BIN_LEN = 64"

text \<open>
  The arguments of a C call may be evaluated in any order; the model builds subexpressions from
  left to right. On a variable, a cyclic list, \<open>length\<close> does not return.
\<close>

fun build_expression ::
  "(frag \<Rightarrow> char) \<Rightarrow> 's alloc_fun \<Rightarrow> addr option \<Rightarrow> frag \<Rightarrow> 's world \<Rightarrow> ('x, expr \<times> 's world) evaluation"
and build_arguments ::
  "(frag \<Rightarrow> char) \<Rightarrow> 's alloc_fun \<Rightarrow> addr option \<Rightarrow> frag list \<Rightarrow> 's world \<Rightarrow> ('x, expr list \<times> 's world) evaluation"
and build_parameters ::
  "(frag \<Rightarrow> char) \<Rightarrow> 's alloc_fun \<Rightarrow> addr option \<Rightarrow> frag \<Rightarrow> frag list \<Rightarrow> 's world \<Rightarrow> ('x, expr list \<times> 's world) evaluation"
where
  "build_expression lb alloc mt (Var v) w = NoFuel"
| "build_expression lb alloc mt (Ch c) w = Undef"
| "build_expression lb alloc mt (Lst d) w =
     (if length d = 0 then throw_special_form (Lst d) None
      else if is_token (Lst d) then Ret (make_symbol alloc (to_string lb (Lst d)) (Some (Lst d)) mt w)
      else case to_string lb (hd d) of None \<Rightarrow> NoFuel | Some h \<Rightarrow>
        if h = ''with'' then
          (case d of [_, r, b] \<Rightarrow>
             if \<not> is_token r then throw_special_form (Lst d) (Some r)
             else bindO (build_expression lb alloc mt r w) (\<lambda>(ref, w1).
                  bindO (build_expression lb alloc mt b w1) (\<lambda>(ex, w2).
                  Ret (make_with alloc ref ex (Some (Lst d)) mt w2)))
           | _ \<Rightarrow> throw_special_form (Lst d) None)
        else if h = ''if'' then
          (case d of [_, c, t, e] \<Rightarrow>
             bindO (build_expression lb alloc mt c w) (\<lambda>(cnd, w1).
             bindO (build_expression lb alloc mt t w1) (\<lambda>(con, w2).
             bindO (build_expression lb alloc mt e w2) (\<lambda>(alt, w3).
             Ret (make_if alloc cnd con alt (Some (Lst d)) mt w3))))
           | _ \<Rightarrow> throw_special_form (Lst d) None)
        else if h = ''function'' \<or> h = ''continuation'' then
          (case d of [_, r, ps, b] \<Rightarrow>
             if \<not> is_token r then throw_special_form (Lst d) (Some r)
             else if is_token ps then throw_special_form (Lst d) (Some ps)
             else (case ps of Var v \<Rightarrow> NoFuel | Ch c \<Rightarrow> Undef | Lst vs \<Rightarrow>
               bindO (build_parameters lb alloc mt (Lst d) vs w) (\<lambda>(params, w1).
               bindO (build_expression lb alloc mt r w1) (\<lambda>(ref, w2).
               bindO (build_expression lb alloc mt b w2) (\<lambda>(ex, w3).
               Ret ((if h = ''function'' then make_function else make_continuation)
                      alloc ref params ex (Some (Lst d)) mt w3)))))
           | _ \<Rightarrow> throw_special_form (Lst d) None)
        else if h = ''literal'' then
          (case d of [_, v] \<Rightarrow>
             if \<not> is_token v then throw_special_form (Lst d) (Some v)
             else (case to_string lb v of None \<Rightarrow> NoFuel | Some str \<Rightarrow>
               if length str \<noteq> WORD_BIN_LEN then throw_special_form (Lst d) (Some v)
               else (case literal_loop str 0 of None \<Rightarrow> throw_special_form (Lst d) (Some v)
                     | Some n \<Rightarrow> Ret (make_literal alloc n (Some (Lst d)) mt w)))
           | _ \<Rightarrow> throw_special_form (Lst d) None)
        else if h = ''invoke'' \<or> h = ''jump'' \<or> h = ''storage'' then
          (case d of _ # r # as \<Rightarrow>
             if h = ''storage'' \<and> \<not> is_token r then throw_special_form (Lst d) (Some r)
             else bindO (build_arguments lb alloc mt as w) (\<lambda>(args, w1).
                  bindO (build_expression lb alloc mt r w1) (\<lambda>(ref, w2).
                  Ret ((if h = ''invoke'' then make_invoke else if h = ''jump'' then make_jump else make_storage)
                         alloc ref args (Some (Lst d)) mt w2)))
           | _ \<Rightarrow> throw_special_form (Lst d) None)
        else if h = ''constrain'' then
          (case d of [_, b, r] \<Rightarrow>
             bindO (build_expression lb alloc mt b w) (\<lambda>(ex, w1).
             bindO (build_expression lb alloc mt r w1) (\<lambda>(ref, w2).
             Ret (make_constrain alloc ex ref (Some (Lst d)) mt w2)))
           | _ \<Rightarrow> throw_special_form (Lst d) None)
        else (case d of [] \<Rightarrow> Undef | x # _ \<Rightarrow>
          bindO (build_expression lb alloc mt x w) (\<lambda>(ref, w1).
          Ret (make_meta alloc ref (Some (Lst d)) mt w1))))"
| "build_arguments lb alloc mt [] w = Ret ([], w)"
| "build_arguments lb alloc mt (v # d) w =
     bindO (build_expression lb alloc mt v w) (\<lambda>(e, w1).
     bindO (build_arguments lb alloc mt d w1) (\<lambda>(es, w2). Ret (e # es, w2)))"
| "build_parameters lb alloc mt whole [] w = Ret ([], w)"
| "build_parameters lb alloc mt whole (v # d) w =
     (if \<not> is_token v then throw_special_form whole (Some v)
      else bindO (build_expression lb alloc mt v w) (\<lambda>(e, w1).
           bindO (build_parameters lb alloc mt whole d w1) (\<lambda>(es, w2). Ret (e # es, w2))))"

end
