(* ===== verification/Lexer.thy ===== *)
theory Lexer
  imports L2_Errors
begin

text \<open>
  The reader of \<open>bootstrap/lexer.c\<close>: source text to fragments. A source is a list of
  characters and a position an index into it; \<open>l2src_sz\<close> is the length of the list. The
  functions call each other and consume one unit of fuel per call or loop step; the lemmas
  give the fuel that is enough for every source.
\<close>

section \<open>Tokens\<close>

function read_whitespace :: "string \<Rightarrow> nat \<Rightarrow> nat \<times> nat" where
  "read_whitespace l2src pos =
     (if pos < length l2src \<and> isspace (l2src ! pos) then read_whitespace l2src (pos + 1)
      else (length l2src - pos, pos))"
  by auto
termination by (relation "measure (\<lambda>(s, p). length s - p)") auto

declare read_whitespace.simps [simp del]

text \<open>The test that ends a token.\<close>

definition ends_token :: "char \<Rightarrow> bool" where
  "ends_token c \<longleftrightarrow> isspace c \<or> c = CHR ''('' \<or> c = CHR '')'' \<or> c = CHR ''{'' \<or> c = CHR ''}'' \<or>
     c = CHR ''['' \<or> c = CHR '']'' \<or> c = CHR '':'' \<or> c = CHR '';''"

text \<open>A \<open>char\<close> passed as an \<open>int\<close>.\<close>

definition char_int :: "char \<Rightarrow> int" where
  "char_int c = sint (byte_of c)"

text \<open>The loop of \<open>read_token\<close>; a position behind the end never equals \<open>l2src_sz\<close>.\<close>

function read_token_loop :: "string \<Rightarrow> char \<Rightarrow> nat \<Rightarrow> frag list \<Rightarrow> ('x, frag \<times> nat) evaluation" where
  "read_token_loop l2src c pos l =
     (case char_entry c of None \<Rightarrow> Undef
      | Some e \<Rightarrow>
         if pos = length l2src then Ret (Lst (l @ [e]), pos)
         else if pos > length l2src then Undef
         else if \<not> ends_token (l2src ! pos)
              then read_token_loop l2src (l2src ! pos) (pos + 1) (l @ [e])
              else Ret (Lst (l @ [e]), pos + 1 - 1))"
  by auto
termination by (relation "measure (\<lambda>(s, c, p, l). length s - p)") auto

declare read_token_loop.simps [simp del]

definition read_token :: "string \<Rightarrow> nat \<Rightarrow> ('x, frag \<times> nat) evaluation" where
  "read_token l2src pos =
     (if length l2src = pos then throw_unexpected_character 0 pos
      else if ends_token (l2src ! pos)
           then throw_unexpected_character (char_int (l2src ! pos)) pos
           else read_token_loop l2src (l2src ! pos) (pos + 1) [])"

section \<open>Lists and sugar\<close>

text \<open>The prefix and the closing delimiter that \<open>read_list\<close> picks by the opening one.\<close>

definition opens_list :: "char \<Rightarrow> bool" where
  "opens_list c \<longleftrightarrow> c = CHR ''('' \<or> c = CHR ''{'' \<or> c = CHR ''[''"

definition list_prefix :: "char \<Rightarrow> ('x, frag list) evaluation" where
  "list_prefix c =
     (if c = CHR ''{'' then bindO (build_token ''jump'') (\<lambda>t. Ret [t])
      else if c = CHR ''['' then bindO (build_token ''invoke'') (\<lambda>t. Ret [t])
      else Ret [])"

definition closing :: "char \<Rightarrow> char" where
  "closing c = (if c = CHR ''{'' then CHR ''}'' else if c = CHR ''['' then CHR '']'' else CHR '')'')"

text \<open>What \<open>read_fragment\<close> and \<open>read_fragment2\<close> return for the list they have collected.\<close>

fun single_or_list :: "frag list \<Rightarrow> frag" where
  "single_or_list [x] = x"
| "single_or_list xs = Lst xs"

text \<open>
  The C functions call \<open>read_fragment\<close>, declared before them. Here it is their argument
  \<open>rf\<close>, and \<open>read_fragment\<close> passes itself, with one unit of fuel less. Loops whose body may
  read a fragment have fuel of their own.
\<close>

type_synonym 'x reader = "nat \<Rightarrow> ('x, frag \<times> nat) evaluation"

fun read_list_loop ::
  "nat \<Rightarrow> 'x reader \<Rightarrow> string \<Rightarrow> char \<Rightarrow> frag list \<Rightarrow> nat \<Rightarrow> ('x, frag \<times> nat) evaluation"
where
  "read_list_loop 0 rf l2src delimiter sexprs pos = NoFuel"
| "read_list_loop (Suc n) rf l2src delimiter sexprs pos =
     (case read_whitespace l2src pos of (left, pos1) \<Rightarrow>
        if left \<noteq> 0 \<and> l2src ! pos1 = delimiter then Ret (Lst sexprs, pos1 + 1)
        else bindO (rf pos1) (\<lambda>(f, pos2).
               read_list_loop n rf l2src delimiter (sexprs @ [f]) pos2))"

definition read_list :: "nat \<Rightarrow> 'x reader \<Rightarrow> string \<Rightarrow> nat \<Rightarrow> ('x, frag \<times> nat) evaluation" where
  "read_list n rf l2src pos =
     (if length l2src = pos then throw_unexpected_character 0 pos
      else if opens_list (l2src ! pos)
           then bindO (list_prefix (l2src ! pos)) (\<lambda>sexprs.
                  read_list_loop n rf l2src (closing (l2src ! pos)) sexprs (pos + 1))
           else throw_unexpected_character (char_int (l2src ! pos)) pos)"

definition read_fragment1 :: "nat \<Rightarrow> 'x reader \<Rightarrow> string \<Rightarrow> nat \<Rightarrow> ('x, frag \<times> nat) evaluation" where
  "read_fragment1 n rf l2src pos =
     (if pos = length l2src then throw_unexpected_character 0 pos
      else if opens_list (l2src ! pos) then read_list n rf l2src pos
           else read_token l2src pos)"

text \<open>The loops of \<open>read_fragment2\<close> (separator \<open>;\<close>) and \<open>read_fragment\<close> (separator \<open>:\<close>), which
  differ in the separator and in the reader of a part.\<close>

fun read_parts_loop ::
  "nat \<Rightarrow> 'x reader \<Rightarrow> string \<Rightarrow> char \<Rightarrow> frag list \<Rightarrow> nat \<Rightarrow> ('x, frag \<times> nat) evaluation"
where
  "read_parts_loop 0 part l2src separator sexprs pos = NoFuel"
| "read_parts_loop (Suc n) part l2src separator sexprs pos =
     (case read_whitespace l2src pos of (left, pos1) \<Rightarrow>
        if left \<noteq> 0 \<and> l2src ! pos1 = separator
        then bindO (part (snd (read_whitespace l2src (pos1 + 1)))) (\<lambda>(f, pos2).
               read_parts_loop n part l2src separator (sexprs @ [f]) pos2)
        else Ret (single_or_list sexprs, pos1))"

definition read_fragment2 :: "nat \<Rightarrow> 'x reader \<Rightarrow> string \<Rightarrow> nat \<Rightarrow> ('x, frag \<times> nat) evaluation" where
  "read_fragment2 n rf l2src pos =
     bindO (read_fragment1 n rf l2src pos) (\<lambda>(f, pos1).
       read_parts_loop n (read_fragment1 n rf l2src) l2src (CHR '';'') [f] pos1)"

primrec read_fragment :: "nat \<Rightarrow> string \<Rightarrow> nat \<Rightarrow> ('x, frag \<times> nat) evaluation" where
  "read_fragment 0 l2src pos = NoFuel"
| "read_fragment (Suc n) l2src pos =
     bindO (read_fragment2 n (read_fragment n l2src) l2src pos) (\<lambda>(f, pos1).
       read_parts_loop n (read_fragment2 n (read_fragment n l2src) l2src) l2src (CHR '':'') [f] pos1)"

section \<open>Progress and termination\<close>

lemma read_whitespace_spec:
  "pos \<le> length s \<Longrightarrow> read_whitespace s pos = (l, p) \<Longrightarrow>
     l = length s - p \<and> pos \<le> p \<and> p \<le> length s \<and>
     (\<forall>i. pos \<le> i \<and> i < p \<longrightarrow> isspace (s ! i)) \<and> (p < length s \<longrightarrow> \<not> isspace (s ! p))"
proof (induction s pos arbitrary: l p rule: read_whitespace.induct)
  case (1 s pos)
  show ?case
  proof (cases "pos < length s \<and> isspace (s ! pos)")
    case True
    then have "read_whitespace s (pos + 1) = (l, p)"
      using "1.prems"(2) by (simp add: read_whitespace.simps [of s pos])
    from "1.IH" [OF True _ this] True show ?thesis
      by (metis Suc_eq_plus1 Suc_leI le_antisym linorder_not_le Suc_leD)
  next
    case False
    then show ?thesis using "1.prems" by (auto simp: read_whitespace.simps [of s pos])
  qed
qed

lemma read_token_loop_bounds:
  "read_token_loop s c pos l = Ret (f, p) \<Longrightarrow> pos \<le> p \<and> p \<le> length s"
proof (induction s c pos l rule: read_token_loop.induct)
  case (1 s c pos l)
  show ?case
    using "1.prems" "1.IH"
    by (subst (asm) read_token_loop.simps) (fastforce split: option.splits if_splits)
qed

lemma char_entry_Ch: "char_entry c = Some e \<Longrightarrow> \<exists>d. e = Ch d"
  by (auto simp: char_entry_def split: if_splits)

text \<open>Fragments that the reader builds: a nonempty list of characters, or a list of such
  fragments.\<close>

fun well_formed :: "frag \<Rightarrow> bool" where
  "well_formed (Lst d) = ((d \<noteq> [] \<and> list_all is_ch d) \<or> list_all well_formed d)"
| "well_formed _ = False"

text \<open>Characters at which no fragment starts although they are not white space.\<close>

definition stray :: "char \<Rightarrow> bool" where
  "stray c \<longleftrightarrow> c \<in> {CHR '')'', CHR ''}'', CHR '']'', CHR '':'', CHR '';''}"

lemma ends_token_set: "\<not> ends_token c \<longleftrightarrow> \<not> isspace c \<and> c \<notin> set ''(){}[]:;''"
  by (simp add: ends_token_def)

lemma ends_token_cases: "ends_token c \<longleftrightarrow> isspace c \<or> opens_list c \<or> stray c"
  by (auto simp: ends_token_def opens_list_def stray_def)

definition at_token :: "string \<Rightarrow> nat \<Rightarrow> bool" where
  "at_token s pos \<longleftrightarrow> pos \<le> length s \<and> (pos < length s \<longrightarrow> \<not> isspace (s ! pos))"

lemma at_token_le: "at_token s pos \<Longrightarrow> pos \<le> length s"
  by (simp add: at_token_def)

lemma read_whitespace_cases:
  assumes "pos \<le> length s"
  obtains p where "read_whitespace s pos = (length s - p, p)" "pos \<le> p" "at_token s p"
proof -
  obtain l p where "read_whitespace s pos = (l, p)" by fastforce
  with read_whitespace_spec [OF assms this] that show ?thesis by (simp add: at_token_def)
qed

text \<open>The error names a place of the source from \<open>pos\<close> on: its end, or a stray character.\<close>

definition located :: "string \<Rightarrow> nat \<Rightarrow> 'x evaluate_error \<Rightarrow> bool" where
  "located s pos e \<longleftrightarrow> (\<exists>c p. e = unexpected_character_error c (int p) \<and> pos \<le> p \<and>
     (p = length s \<and> c = 0 \<or> p < length s \<and> stray (s ! p) \<and> c = char_int (s ! p)))"

definition in_table :: "string \<Rightarrow> bool" where
  "in_table s \<longleftrightarrow> (\<forall>c \<in> set s. char_entry c \<noteq> None)"

text \<open>What a reader started at \<open>pos\<close> may do: \<open>k\<close> is the least number of characters that it
  consumes.\<close>

fun read_ok :: "string \<Rightarrow> nat \<Rightarrow> nat \<Rightarrow> ('x, frag \<times> nat) evaluation \<Rightarrow> bool" where
  "read_ok s pos k (Ret (f, q)) = (pos + k \<le> q \<and> q \<le> length s \<and> well_formed f)"
| "read_ok s pos k (Throw e) = located s pos e"
| "read_ok s pos k Undef = (\<not> in_table s)"
| "read_ok s pos k NoFuel = True"

lemma located_mono: "located s pos e \<Longrightarrow> p \<le> pos \<Longrightarrow> located s p e"
  unfolding located_def by (elim exE conjE) (intro exI conjI; (assumption | simp))

lemma read_ok_mono: "read_ok s pos k r \<Longrightarrow> p + j \<le> pos + k \<Longrightarrow> p \<le> pos \<Longrightarrow> read_ok s p j r"
  by (cases "(s, pos, k, r)" rule: read_ok.cases) (auto intro: located_mono)

lemma read_ok_bindO:
  "read_ok s pos k r \<Longrightarrow> (\<And>f q. pos + k \<le> q \<Longrightarrow> q \<le> length s \<Longrightarrow> well_formed f \<Longrightarrow> read_ok s pos j (h (f, q))) \<Longrightarrow>
   read_ok s pos j (bindO r h)"
  by (cases "(s, pos, k, r)" rule: read_ok.cases) auto

lemma read_token_loop_ok:
  "c \<in> set s \<Longrightarrow> pos \<le> length s \<Longrightarrow> list_all is_ch l \<Longrightarrow>
   read_ok s pos 0 (read_token_loop s c pos l :: ('x, frag \<times> nat) evaluation)"
proof (induction s c pos l rule: read_token_loop.induct)
  case (1 s c pos l)
  show ?case
  proof (cases "char_entry c")
    case None
    with "1.prems" show ?thesis by (auto simp: read_token_loop.simps in_table_def)
  next
    case (Some e)
    then have e: "is_ch e" using char_entry_Ch [OF Some] by auto
    show ?thesis
    proof (cases "pos < length s \<and> \<not> ends_token (s ! pos)")
      case True
      then have "read_ok s (pos + 1) 0 (read_token_loop s (s ! pos) (pos + 1) (l @ [e]) :: ('x, frag \<times> nat) evaluation)"
        using "1.IH" [OF Some] "1.prems" e by simp
      with True Some show ?thesis
        by (simp add: read_token_loop.simps [of s c]) (erule read_ok_mono; simp)
    next
      case False
      with Some e "1.prems" show ?thesis by (auto simp: read_token_loop.simps [of s c])
    qed
  qed
qed

lemma read_token_ok:
  assumes "at_token s pos" "pos = length s \<or> \<not> opens_list (s ! pos)"
  shows "read_ok s pos 1 (read_token s pos)"
proof (cases "pos < length s \<and> \<not> ends_token (s ! pos)")
  case True
  then have "read_ok s (pos + 1) 0 (read_token_loop s (s ! pos) (pos + 1) [] :: ('b, frag \<times> nat) evaluation)"
    by (intro read_token_loop_ok) simp_all
  with True show ?thesis by (simp add: read_token_def) (erule read_ok_mono; simp)
next
  case False
  with assms show ?thesis
    by (auto simp: read_token_def throw_defs located_def at_token_def ends_token_cases)
qed

lemma sugar_in_table: "\<forall>c \<in> set (''jump'' @ ''invoke''). char_entry c = Some (Ch c)"
  by code_simp

lemma build_jump: "build_token ''jump'' = Ret (Lst (map Ch ''jump''))"
  unfolding build_token_def by (subst build_token_loop_Ret) (use sugar_in_table in auto)

lemma build_invoke: "build_token ''invoke'' = Ret (Lst (map Ch ''invoke''))"
  unfolding build_token_def by (subst build_token_loop_Ret) (use sugar_in_table in auto)

lemma list_prefix_wf: "\<exists>l. list_prefix c = Ret l \<and> list_all well_formed l"
  by (simp add: list_prefix_def build_token_def char_entry_def chars_def byte_of_def)

locale fragment_reader =
  fixes l2src :: string and rf :: "'x reader"
  assumes reads: "at_token l2src pos \<Longrightarrow> read_ok l2src pos 1 (rf pos)"
begin

lemma read_list_loop_ok:
  "pos \<le> length l2src \<Longrightarrow> list_all well_formed sexprs \<Longrightarrow>
   read_ok l2src pos 1 (read_list_loop n rf l2src d sexprs pos)"
proof (induction n arbitrary: sexprs pos)
  case (Suc n)
  from Suc.prems(1) obtain p where p: "read_whitespace l2src pos = (length l2src - p, p)"
    "pos \<le> p" "at_token l2src p" by (rule read_whitespace_cases)
  have "read_ok l2src p 1 (bindO (rf p) (\<lambda>(f, pos2). read_list_loop n rf l2src d (sexprs @ [f]) pos2))"
  proof (rule read_ok_bindO [OF reads [OF p(3)]])
    fix f q assume q: "p + 1 \<le> q" "q \<le> length l2src" "well_formed f"
    then have "read_ok l2src q 1 (read_list_loop n rf l2src d (sexprs @ [f]) q)"
      using Suc by simp
    then show "read_ok l2src p 1 (case (f, q) of (f, pos2) \<Rightarrow> read_list_loop n rf l2src d (sexprs @ [f]) pos2)"
      using q by (simp) (erule read_ok_mono; simp)
  qed
  from read_ok_mono [OF this, of pos 1] show ?case
    using p Suc.prems by (auto simp: at_token_def)
qed simp

lemma read_list_ok: "at_token l2src pos \<Longrightarrow> pos < length l2src \<Longrightarrow> opens_list (l2src ! pos) \<Longrightarrow>
  read_ok l2src pos 1 (read_list n rf l2src pos)"
proof -
  assume a: "at_token l2src pos" "pos < length l2src" "opens_list (l2src ! pos)"
  obtain l where l: "list_prefix (l2src ! pos) = (Ret l :: ('x, frag list) evaluation)" "list_all well_formed l"
    using list_prefix_wf by blast
  have "read_ok l2src (pos + 1) 1 (read_list_loop n rf l2src (closing (l2src ! pos)) l (pos + 1))"
    using a l by (intro read_list_loop_ok) simp_all
  then show ?thesis
    using a l by (simp add: read_list_def) (erule read_ok_mono; simp)
qed

lemma read_fragment1_ok: "at_token l2src pos \<Longrightarrow> read_ok l2src pos 1 (read_fragment1 n rf l2src pos)"
  using read_list_ok [of pos n] read_token_ok [of l2src pos]
  by (auto simp: read_fragment1_def throw_defs located_def at_token_def)

lemma read_parts_loop_ok:
  "pos \<le> length l2src \<Longrightarrow> sexprs \<noteq> [] \<Longrightarrow> list_all well_formed sexprs \<Longrightarrow>
   read_ok l2src pos 0 (read_parts_loop n rf l2src sep sexprs pos)"
proof (induction n arbitrary: sexprs pos)
  case (Suc n)
  from Suc.prems(1) obtain p where p: "read_whitespace l2src pos = (length l2src - p, p)"
    "pos \<le> p" "at_token l2src p" by (rule read_whitespace_cases)
  show ?case
  proof (cases "p < length l2src \<and> l2src ! p = sep")
    case True
    then have "p + 1 \<le> length l2src" by simp
    then obtain q where q: "read_whitespace l2src (p + 1) = (length l2src - q, q)"
      "p + 1 \<le> q" "at_token l2src q" by (rule read_whitespace_cases)
    have "read_ok l2src q 0 (bindO (rf q) (\<lambda>(f, pos2). read_parts_loop n rf l2src sep (sexprs @ [f]) pos2))"
    proof (rule read_ok_bindO [OF reads [OF q(3)]])
      fix f r assume r: "q + 1 \<le> r" "r \<le> length l2src" "well_formed f"
      then have "read_ok l2src r 0 (read_parts_loop n rf l2src sep (sexprs @ [f]) r)"
        using Suc by simp
      then show "read_ok l2src q 0 (case (f, r) of (f, pos2) \<Rightarrow> read_parts_loop n rf l2src sep (sexprs @ [f]) pos2)"
        using r by (simp) (erule read_ok_mono; simp)
    qed
    from read_ok_mono [OF this, of pos 0] show ?thesis
      using True p q by (simp)
  next
    case False
    moreover have "well_formed (single_or_list sexprs)"
      using Suc.prems by (cases sexprs rule: single_or_list.cases) auto
    ultimately show ?thesis using p by (auto simp: at_token_def)
  qed
qed simp

end

lemma fragment2_reader:
  assumes "fragment_reader s rf"
  shows "fragment_reader s (read_fragment2 n rf s)"
proof
  fix pos assume a: "at_token s pos"
  have 1: "fragment_reader s (read_fragment1 n rf s)"
    by standard (rule fragment_reader.read_fragment1_ok [OF assms])
  show "read_ok s pos 1 (read_fragment2 n rf s pos)"
    unfolding read_fragment2_def
  proof (rule read_ok_bindO [OF fragment_reader.reads [OF 1 a]])
    fix f q assume q: "pos + 1 \<le> q" "q \<le> length s" "well_formed f"
    then have "read_ok s q 0 (read_parts_loop n (read_fragment1 n rf s) s (CHR '';'') [f] q)"
      by (intro fragment_reader.read_parts_loop_ok [OF 1]) simp_all
    then show "read_ok s pos 1 (case (f, q) of (f, pos1) \<Rightarrow>
        read_parts_loop n (read_fragment1 n rf s) s (CHR '';'') [f] pos1)"
      using q by (simp) (erule read_ok_mono; simp)
  qed
qed

lemma fragment_reader_read_fragment: "fragment_reader s (read_fragment n s :: 'x reader)"
proof (induction n)
  case (Suc n)
  note 2 = fragment2_reader [OF Suc, of n]
  show ?case
  proof
    fix pos assume a: "at_token s pos"
    show "read_ok s pos 1 (read_fragment (Suc n) s pos :: ('x, frag \<times> nat) evaluation)"
      unfolding read_fragment.simps
    proof (rule read_ok_bindO [OF fragment_reader.reads [OF 2 a]])
      fix f q assume q: "pos + 1 \<le> q" "q \<le> length s" "well_formed f"
      then have "read_ok s q 0 (read_parts_loop n (read_fragment2 n (read_fragment n s) s :: 'x reader) s (CHR '':'') [f] q)"
        by (intro fragment_reader.read_parts_loop_ok [OF 2]) simp_all
      then show "read_ok s pos 1 (case (f, q) of (f, pos1) \<Rightarrow>
          read_parts_loop n (read_fragment2 n (read_fragment n s) s :: 'x reader) s (CHR '':'') [f] pos1)"
        using q by (simp) (erule read_ok_mono; simp)
    qed
  qed
qed (simp add: fragment_reader_def)

interpretation rd: fragment_reader l2src "read_fragment n l2src"
  by (rule fragment_reader_read_fragment)

subsection \<open>Enough fuel\<close>

locale returning_reader = fragment_reader +
  fixes b :: nat
  assumes returns: "at_token l2src pos \<Longrightarrow> b \<le> pos \<Longrightarrow> rf pos \<noteq> NoFuel"
begin

lemma progress: "at_token l2src pos \<Longrightarrow> rf pos = Ret (f, q) \<Longrightarrow> pos < q \<and> q \<le> length l2src"
  using reads [of pos] by simp

lemma read_list_loop_returns:
  "pos \<le> length l2src \<Longrightarrow> b \<le> pos \<Longrightarrow> length l2src - pos < n \<Longrightarrow>
   read_list_loop n rf l2src d sexprs pos \<noteq> NoFuel"
proof (induction n arbitrary: sexprs pos)
  case (Suc n)
  from Suc.prems(1) obtain p where p: "read_whitespace l2src pos = (length l2src - p, p)"
    "pos \<le> p" "at_token l2src p" by (rule read_whitespace_cases)
  have "read_list_loop n rf l2src d (sexprs @ [f]) q \<noteq> NoFuel" if "rf p = Ret (f, q)" for f q
    using progress [OF p(3) that] p Suc.prems by (intro Suc.IH) auto
  with p returns [OF p(3)] Suc.prems show ?case
    by (auto simp: bindO_eq_NoFuel)
qed simp

lemma read_parts_loop_returns:
  "pos \<le> length l2src \<Longrightarrow> b \<le> pos \<Longrightarrow> length l2src - pos < n \<Longrightarrow>
   read_parts_loop n rf l2src sep sexprs pos \<noteq> NoFuel"
proof (induction n arbitrary: sexprs pos)
  case (Suc n)
  from Suc.prems(1) obtain p where p: "read_whitespace l2src pos = (length l2src - p, p)"
    "pos \<le> p" "at_token l2src p" by (rule read_whitespace_cases)
  show ?case
  proof (cases "p < length l2src \<and> l2src ! p = sep")
    case True
    then have "p + 1 \<le> length l2src" by simp
    then obtain r where r: "read_whitespace l2src (p + 1) = (length l2src - r, r)"
      "p + 1 \<le> r" "at_token l2src r" by (rule read_whitespace_cases)
    have "read_parts_loop n rf l2src sep (sexprs @ [f]) q \<noteq> NoFuel" if "rf r = Ret (f, q)" for f q
      using progress [OF r(3) that] p r Suc.prems by (intro Suc.IH) auto
    with p r returns [OF r(3)] Suc.prems True show ?thesis
      by (auto simp: bindO_eq_NoFuel)
  qed (use p in auto)
qed simp

end

lemma read_token_returns: "(read_token s pos :: ('x, frag \<times> nat) evaluation) \<noteq> NoFuel"
proof -
  have "(read_token_loop s c pos l :: ('x, frag \<times> nat) evaluation) \<noteq> NoFuel" for c pos l
  proof (induction s c pos l rule: read_token_loop.induct)
    case (1 s c pos l)
    then show ?case
      by (simp add: read_token_loop.simps [of s c] split: option.split)
  qed
  then show ?thesis by (simp add: read_token_def throw_defs)
qed

lemma read_fragment1_returns:
  fixes rf :: "'x reader"
  assumes "returning_reader s rf (Suc pos)" "pos \<le> length s" "length s - pos \<le> n"
  shows "read_fragment1 n rf s pos \<noteq> NoFuel"
proof -
  note loop = returning_reader.read_list_loop_returns [OF assms(1), of "Suc pos" n]
  obtain l where "list_prefix (s ! pos) = (Ret l :: ('x, frag list) evaluation)"
    using list_prefix_wf by blast
  with loop assms(2,3) show ?thesis
    using read_token_returns by (auto simp: read_fragment1_def read_list_def throw_defs)
qed

lemma returning_reader_later: "returning_reader s rf b \<Longrightarrow> b \<le> c \<Longrightarrow> returning_reader s rf c"
  by (simp add: returning_reader_def returning_reader_axioms_def)

lemma returning_fragment1:
  assumes "returning_reader s rf (Suc b)" "length s - b \<le> n"
  shows "returning_reader s (read_fragment1 n rf s) b"
proof -
  have r: "fragment_reader s rf" using assms(1) by (rule returning_reader.axioms)
  have "read_fragment1 n rf s p \<noteq> NoFuel" if "at_token s p" "b \<le> p" for p
    using that assms(2) at_token_le [OF that(1)]
    by (intro read_fragment1_returns returning_reader_later [OF assms(1)]) simp_all
  then show ?thesis
    by (simp add: returning_reader_def returning_reader_axioms_def fragment_reader_def
        fragment_reader.read_fragment1_ok [OF r] del: One_nat_def)
qed

lemma returning_fragment2:
  assumes "returning_reader s rf (Suc b)" "length s - b \<le> n"
  shows "returning_reader s (read_fragment2 n rf s) b"
proof -
  have r: "fragment_reader s rf" using assms(1) by (rule returning_reader.axioms)
  note r1 = returning_fragment1 [OF assms]
  have "read_fragment2 n rf s p \<noteq> NoFuel" if p: "at_token s p" "b \<le> p" for p
  proof -
    have "read_parts_loop n (read_fragment1 n rf s) s (CHR '';'') [f] q \<noteq> NoFuel"
      if "read_fragment1 n rf s p = Ret (f, q)" for f q
      using returning_reader.progress [OF r1 p(1) that] p(2) assms(2)
      by (intro returning_reader.read_parts_loop_returns [OF r1]) auto
    with returning_reader.returns [OF r1 p] show ?thesis
      by (auto simp: read_fragment2_def bindO_eq_NoFuel)
  qed
  then show ?thesis
    by (simp add: returning_reader_def returning_reader_axioms_def fragment2_reader [OF r])
qed

lemma returning_reader_read_fragment:
  "length s < b + n \<Longrightarrow> returning_reader s (read_fragment n s :: 'x reader) b"
proof (induction n arbitrary: b)
  case 0
  then show ?case
    by (simp add: returning_reader_def returning_reader_axioms_def at_token_def fragment_reader_def)
next
  case (Suc n)
  have r: "returning_reader s (read_fragment n s :: 'x reader) (Suc b)"
    using Suc.prems by (intro Suc.IH) simp
  have "length s - b \<le> n" using Suc.prems by simp
  note r2 = returning_fragment2 [OF r this]
  have "(read_fragment (Suc n) s p :: ('x, frag \<times> nat) evaluation) \<noteq> NoFuel"
    if p: "at_token s p" "b \<le> p" for p
  proof -
    have "(read_parts_loop n (read_fragment2 n (read_fragment n s) s) s (CHR '':'') [f] q
             :: ('x, frag \<times> nat) evaluation) \<noteq> NoFuel"
      if "read_fragment2 n (read_fragment n s :: 'x reader) s p = Ret (f, q)" for f q
      using returning_reader.progress [OF r2 p(1) that] p(2) Suc.prems
      by (intro returning_reader.read_parts_loop_returns [OF r2]) auto
    with returning_reader.returns [OF r2 p] show ?thesis
      by (auto simp: bindO_eq_NoFuel)
  qed
  then show ?case
    using fragment_reader_read_fragment [of s "Suc n"]
    by (simp only: returning_reader_def returning_reader_axioms_def) blast
qed

interpretation rd: returning_reader l2src "read_fragment (Suc (length l2src)) l2src" 0
  by (rule returning_reader_read_fragment) simp

text \<open>The reader with the fuel that is enough at every position of the source.\<close>

definition read_source :: "string \<Rightarrow> nat \<Rightarrow> ('x, frag \<times> nat) evaluation" where
  "read_source l2src pos = read_fragment (Suc (length l2src)) l2src pos"

section \<open>Printing and reading back\<close>

definition spaces :: "string \<Rightarrow> bool" where
  "spaces ws \<longleftrightarrow> list_all isspace ws"

lemma read_whitespace_spaces:
  "spaces ws \<Longrightarrow> rest = [] \<or> \<not> isspace (hd rest) \<Longrightarrow>
   read_whitespace (pre @ ws @ rest) (length pre) = (length rest, length pre + length ws)"
proof (induction ws arbitrary: pre)
  case Nil
  then show ?case by (cases rest) (auto simp: read_whitespace.simps nth_append)
next
  case (Cons c ws)
  from Cons.IH [of "pre @ [c]"] Cons.prems show ?case
    by (subst read_whitespace.simps) (simp add: spaces_def nth_append)
qed

lemma kept_not_ends: "kept_char c \<Longrightarrow> \<not> ends_token c"
proof -
  let ?e = "[CHR '' '', CHR 0x0C, CHR 0x0A, CHR 0x0D, CHR 0x09, CHR 0x0B, CHR ''('', CHR '')'',
    CHR ''{'', CHR ''}'', CHR ''['', CHR '']'', CHR '':'', CHR '';'']"
  have "list_all (\<lambda>c. \<not> kept_char c) ?e" by code_simp
  then show "kept_char c \<Longrightarrow> \<not> ends_token c"
    by (auto simp: ends_token_def isspace_def)
qed

lemma read_token_loop_kept:
  "kept_char c \<Longrightarrow> list_all kept_char t \<Longrightarrow> rest = [] \<or> ends_token (hd rest) \<Longrightarrow>
   read_token_loop (pre @ t @ rest) c (length pre) l =
     Ret (Lst (l @ map Ch (c # t)), length pre + length t)"
proof (induction t arbitrary: pre c l)
  case Nil
  then show ?case
    by (cases rest) (auto simp: read_token_loop.simps kept_char_def nth_append)
next
  case (Cons d t)
  from Cons.IH [of d "pre @ [d]" "l @ [Ch c]"] Cons.prems show ?case
    by (subst read_token_loop.simps) (auto simp: nth_append kept_not_ends kept_char_def)
qed

lemma read_token_kept:
  assumes "t \<noteq> []" "list_all kept_char t" "rest = [] \<or> ends_token (hd rest)"
  shows "read_token (pre @ t @ rest) (length pre) = Ret (Lst (map Ch t), length pre + length t)"
proof (cases t)
  case (Cons c u)
  then have "read_token_loop ((pre @ [c]) @ u @ rest) c (length (pre @ [c])) [] =
      (Ret (Lst ([] @ map Ch (c # u)), length (pre @ [c]) + length u) :: ('b, frag \<times> nat) evaluation)"
    using assms by (intro read_token_loop_kept) simp_all
  with Cons assms show ?thesis by (simp add: read_token_def nth_append kept_not_ends)
qed (use assms in simp)

text \<open>Fragments whose tokens consist of characters that the table keeps.\<close>

fun kept_ch :: "frag \<Rightarrow> bool" where
  "kept_ch (Ch c) = kept_char c"
| "kept_ch _ = False"

fun printable :: "frag \<Rightarrow> bool" where
  "printable (Lst d) = ((d \<noteq> [] \<and> list_all kept_ch d) \<or> list_all printable d)"
| "printable _ = False"

lemma kept_ch_map: "list_all kept_ch d \<Longrightarrow> \<exists>t. d = map Ch t \<and> list_all kept_char t"
proof (induction d)
  case (Cons x d)
  then obtain t where "d = map Ch t" "list_all kept_char t" by auto
  with Cons.prems show ?case
    by (cases x) (auto intro: exI [of _ "the_ch # t" for the_ch])
qed simp

text \<open>Text behind a fragment at which the reader stops.\<close>

definition stops :: "string \<Rightarrow> bool" where
  "stops rest \<longleftrightarrow>
     (case dropWhile isspace rest of [] \<Rightarrow> True | c # _ \<Rightarrow> c \<noteq> CHR '':'' \<and> c \<noteq> CHR '';'')"

lemma read_parts_loop_stops:
  assumes "stops rest" "sep = CHR '':'' \<or> sep = CHR '';''"
  shows "fuel_le (read_parts_loop n rf (pre @ rest) sep [f] (length pre))
           (Ret (f, length pre + length (takeWhile isspace rest)))"
proof (cases n)
  case (Suc m)
  let ?w = "takeWhile isspace rest" and ?r = "dropWhile isspace rest"
  have "read_whitespace (pre @ ?w @ ?r) (length pre) = (length ?r, length pre + length ?w)"
    by (rule read_whitespace_spaces) (use hd_dropWhile [of isspace rest] in \<open>auto simp: spaces_def list_all_iff dropWhile_eq_Nil_conv dest: set_takeWhileD\<close>)
  then have w: "read_whitespace (pre @ rest) (length pre) = (length ?r, length pre + length ?w)" by simp
  have "(pre @ rest) ! (length pre + length ?w) \<noteq> sep" if "?r \<noteq> []"
  proof -
    have "rest ! length ?w = hd ?r"
      using that by (metis takeWhile_dropWhile_id nth_append_length list.exhaust_sel)
    then show ?thesis using that assms by (cases ?r) (auto simp: stops_def)
  qed
  with w Suc show ?thesis by auto
qed simp

lemma stops_dropWhile: "stops rest \<Longrightarrow> stops (dropWhile isspace rest)"
  by (simp add: stops_def)

lemma fuel_le_bindO_Ret: "fuel_le m (Ret x) \<Longrightarrow> fuel_le (k x) r \<Longrightarrow> fuel_le (bindO m k) r"
  by (auto simp: fuel_le_def)

lemma read_fragment_of_fragment1:
  assumes "\<And>n (rf :: 'x reader). rf = read_fragment n (pre @ t @ rest) \<Longrightarrow>
      fuel_le (read_fragment1 n rf (pre @ t @ rest) (length pre)) (Ret (f, length pre + length t))"
    and "stops rest"
  shows "fuel_le (read_fragment n (pre @ t @ rest) (length pre) :: ('x, frag \<times> nat) evaluation)
    (Ret (f, length pre + length t + length (takeWhile isspace rest)))"
proof (cases n)
  case (Suc m)
  let ?s = "pre @ t @ rest" and ?w = "takeWhile isspace rest" and ?r = "dropWhile isspace rest"
  have 1: "fuel_le (read_parts_loop m p ?s (CHR '';'') [f] (length pre + length t))
      (Ret (f, length pre + length t + length ?w))" for p :: "'x reader"
    using read_parts_loop_stops [OF assms(2), of "CHR '';''" m p "pre @ t"] by simp
  have 2: "fuel_le (read_parts_loop m p ?s (CHR '':'') [f] (length pre + length t + length ?w))
      (Ret (f, length pre + length t + length ?w))" for p :: "'x reader"
    using read_parts_loop_stops [OF stops_dropWhile [OF assms(2)], of "CHR '':''" m p "pre @ t @ ?w"]
    by (simp add: takeWhile_eq_Nil_iff add.assoc) (metis dropWhile_eq_Nil_conv hd_dropWhile takeWhile_eq_Nil_iff list.size(3) add_0_right)
  show ?thesis
    unfolding Suc read_fragment.simps read_fragment2_def
    by (rule fuel_le_bindO_Ret, rule fuel_le_bindO_Ret, rule assms(1), rule refl,
        simp only: prod.case, rule 1, simp only: prod.case, rule 2)
qed simp

lemma print_fragment_head:
  "printable x \<Longrightarrow> \<exists>c t. print_fragment x = c # t \<and> \<not> isspace c \<and> c \<notin> {CHR '')'', CHR '':'', CHR '';''}"
proof (induction x rule: printable.induct)
  case (1 d)
  show ?case
  proof (cases d)
    case (Cons y d')
    show ?thesis
    proof (cases "is_token (Lst d)")
      case True
      with Cons "1.prems" obtain c where "y = Ch c" "kept_char c"
        by (cases y) auto
      with Cons show ?thesis using kept_not_ends [of c] by (auto simp: ends_token_def)
    qed (simp add: isspace_def)
  qed (simp add: isspace_def)
qed simp_all

lemma read_list_loop_print:
  fixes rf :: "'x reader"
  assumes "\<And>x pre rest. x \<in> set d \<Longrightarrow> s = pre @ print_fragment x @ rest \<Longrightarrow>
        rest = [] \<or> ends_token (hd rest) \<Longrightarrow> stops rest \<Longrightarrow>
      fuel_le (rf (length pre))
        (Ret (x, length pre + length (print_fragment x) + length (takeWhile isspace rest)))"
    and "list_all printable d"
    and "s = pre @ concat (map (\<lambda>t. print_fragment t @ '' '') d) @ '')'' @ rest"
  shows "fuel_le (read_list_loop n rf s (CHR '')'') l (length pre))
      (Ret (Lst (l @ d), length pre + length (concat (map (\<lambda>t. print_fragment t @ '' '') d)) + 1))"
  using assms
proof (induction d arbitrary: pre l n)
  case Nil
  have "read_whitespace (pre @ '')'' @ rest) (length pre) = (length ('')'' @ rest), length pre)"
    using read_whitespace_spaces [of "[]" "'')'' @ rest" pre] by (simp add: spaces_def isspace_def)
  with Nil.prems(3) show ?case by (cases n) (simp_all add: nth_append)
next
  case (Cons x d)
  let ?tail = "concat (map (\<lambda>t. print_fragment t @ '' '') d) @ '')'' @ rest"
  obtain c t where c: "print_fragment x = c # t" "\<not> isspace c" "c \<noteq> CHR '')''"
    using print_fragment_head [of x] Cons.prems(2) by auto
  have tail: "\<exists>e u. ?tail = e # u \<and> \<not> isspace e \<and> e \<noteq> CHR '':'' \<and> e \<noteq> CHR '';''"
    using print_fragment_head [of "hd d"] Cons.prems(2) by (cases d) (auto simp: isspace_def)
  have s: "s = pre @ print_fragment x @ ('' '' @ ?tail)" using Cons.prems(3) by simp
  have w: "read_whitespace s (length pre) = (length (print_fragment x @ '' '' @ ?tail), length pre)"
    using read_whitespace_spaces [of "[]" "print_fragment x @ '' '' @ ?tail" pre] c s
    by (simp add: spaces_def)
  have "fuel_le (rf (length pre))
      (Ret (x, length pre + length (print_fragment x) + length (takeWhile isspace ('' '' @ ?tail))))"
    using tail by (intro Cons.prems(1) s) (auto simp: ends_token_def isspace_def stops_def)
  then have x: "fuel_le (rf (length pre)) (Ret (x, length (pre @ print_fragment x @ '' '')))"
    using tail by (auto simp: isspace_def)
  have d: "fuel_le (read_list_loop k rf s (CHR '')'') (l @ [x]) (length (pre @ print_fragment x @ '' '')))
      (Ret (Lst ((l @ [x]) @ d), length (pre @ print_fragment x @ '' '') +
         length (concat (map (\<lambda>t. print_fragment t @ '' '') d)) + 1))" for k
    using Cons.prems by (intro Cons.IH) auto
  show ?case
  proof (cases n)
    case (Suc k)
    have "fuel_le (bindO (rf (length pre)) (\<lambda>(f, pos2). read_list_loop k rf s (CHR '')'') (l @ [f]) pos2))
        (Ret (Lst (l @ x # d), length pre + length (concat (map (\<lambda>t. print_fragment t @ '' '') (x # d))) + 1))"
      using d [of k] by (intro fuel_le_bindO_Ret [OF x]) (simp add: add.assoc)
    moreover have "s ! length pre \<noteq> CHR '')''" using s c by (simp add: nth_append)
    ultimately show ?thesis using Suc w by simp
  qed simp
qed

lemma read_print_fragment:
  "printable f \<Longrightarrow> rest = [] \<or> ends_token (hd rest) \<Longrightarrow> stops rest \<Longrightarrow>
   s = pre @ print_fragment f @ rest \<Longrightarrow>
   fuel_le (read_fragment n s (length pre) :: ('x, frag \<times> nat) evaluation)
     (Ret (f, length pre + length (print_fragment f) + length (takeWhile isspace rest)))"
proof (induction f arbitrary: n pre rest rule: printable.induct)
  case (1 d)
  let ?t = "print_fragment (Lst d)"
  have "fuel_le (read_fragment1 m rf (pre @ ?t @ rest) (length pre)) (Ret (Lst d, length pre + length ?t))"
    if rf: "rf = (read_fragment k s :: 'x reader)" for m k rf
  proof (cases "is_token (Lst d)")
    case True
    with "1.prems"(1) have "list_all kept_ch d" by (cases d) (auto elim: is_token.elims)
    then obtain t where t: "d = map Ch t" "list_all kept_char t" using kept_ch_map by blast
    then have "?t = t" using True by (simp add: comp_def)
    moreover obtain c u where "t = c # u" using True t by (cases t) auto
    moreover have "\<not> opens_list c" using t kept_not_ends [of c] calculation ends_token_cases by auto
    moreover have "read_token (pre @ t @ rest) (length pre) =
        (Ret (Lst (map Ch t), length pre + length t) :: ('x, frag \<times> nat) evaluation)"
      using t "1.prems"(2) calculation by (intro read_token_kept) simp_all
    ultimately show ?thesis
      using t by (simp add: read_fragment1_def nth_append)
  next
    case False
    then have all: "list_all printable d" using "1.prems"(1) by (cases d) (auto elim: kept_ch.elims)
    let ?items = "concat (map (\<lambda>t. print_fragment t @ '' '') d)"
    have t: "?t = ''('' @ ?items @ '')''" using False by simp
    have p: "list_prefix (CHR ''('') = (Ret [] :: ('x, frag list) evaluation)" by (simp add: list_prefix_def)
    have "fuel_le (read_list_loop m rf s (CHR '')'') [] (length (pre @ ''('')))
        (Ret (Lst ([] @ d), length (pre @ ''('') + length ?items + 1))"
    proof (rule read_list_loop_print [OF _ all])
      show "s = (pre @ ''('') @ ?items @ '')'' @ rest" using "1.prems"(4) t by simp
      fix x pre' rest'
      assume "x \<in> set d" "s = pre' @ print_fragment x @ rest'" "rest' = [] \<or> ends_token (hd rest')" "stops rest'"
      with "1.IH" [of x rest' pre' k] all rf
      show "fuel_le (rf (length pre'))
          (Ret (x, length pre' + length (print_fragment x) + length (takeWhile isspace rest')))"
        by (simp add: list_all_iff)
    qed
    then show ?thesis
      using "1.prems"(4) t p by (simp add: read_fragment1_def read_list_def nth_append opens_list_def closing_def)
  qed
  then show ?case
    using "1.prems"(3,4) by (simp del: print_fragment.simps) (rule read_fragment_of_fragment1; simp del: print_fragment.simps)
qed simp_all

text \<open>C9. Reading the text that \<open>print_fragment\<close> prints for a fragment
without variables, whose tokens consist of characters that the table keeps, gives the fragment
back and consumes the whole text.\<close>

lemma print_read_roundtrip:
  assumes "printable f"
  shows "read_source (print_fragment f) 0 = (Ret (f, length (print_fragment f)) :: ('x, frag \<times> nat) evaluation)"
proof -
  let ?s = "print_fragment f"
  obtain c t where "?s = c # t" "\<not> isspace c" using print_fragment_head [OF assms] by blast
  then have "at_token ?s 0" by (simp add: at_token_def)
  then have "(read_source ?s 0 :: ('x, frag \<times> nat) evaluation) \<noteq> NoFuel"
    unfolding read_source_def by (rule rd.returns) simp
  moreover have "fuel_le (read_source ?s 0 :: ('x, frag \<times> nat) evaluation) (Ret (f, length ?s))"
    using read_print_fragment [of f "[]" ?s "[]" "Suc (length ?s)"] assms
    by (simp add: read_source_def stops_def)
  ultimately show ?thesis by (auto simp: fuel_le_def)
qed

lemma print_read_roundtrip_witness:
  "read_source ''(lambda (x ) y )'' 0 =
     (Ret (Lst [Lst (map Ch ''lambda''), Lst [Lst [Ch (CHR ''x'')]], Lst [Ch (CHR ''y'')]], 16)
        :: (unit, frag \<times> nat) evaluation)"
proof -
  have "printable (Lst [Lst (map Ch ''lambda''), Lst [Lst [Ch (CHR ''x'')]], Lst [Ch (CHR ''y'')]])"
    by code_simp
  from print_read_roundtrip [OF this] show ?thesis by (simp add: numeral_eq_Suc)
qed

section \<open>The grammar\<close>

text \<open>
  The grammar that the comment in \<open>lexer.c\<close> gives, as relations between texts and fragments:
  \<open>fragment1\<close> is a token or a list in one of the three kinds of brackets, \<open>fragment2\<close> a fragment1
  or a \<open>;\<close>-separated subsublist, \<open>fragment\<close> a fragment2 or a \<open>:\<close>-separated sublist.
\<close>

inductive parts_of :: "(string \<Rightarrow> frag \<Rightarrow> bool) \<Rightarrow> char \<Rightarrow> string \<Rightarrow> frag list \<Rightarrow> bool"
  for part :: "string \<Rightarrow> frag \<Rightarrow> bool" and sep :: char where
  one_part: "part a x \<Longrightarrow> parts_of part sep a [x]"
| more_parts: "parts_of part sep a xs \<Longrightarrow> spaces u \<Longrightarrow> spaces v \<Longrightarrow> part b x \<Longrightarrow>
    parts_of part sep (a @ u @ [sep] @ v @ b) (xs @ [x])"

lemma parts_of_mono [mono]:
  "(\<And>t f. p t f \<longrightarrow> q t f) \<Longrightarrow> parts_of p sep t fs \<longrightarrow> parts_of q sep t fs"
proof (rule impI)
  assume pq: "\<And>t f. p t f \<longrightarrow> q t f" and "parts_of p sep t fs"
  from this(2) show "parts_of q sep t fs"
    by induction (use pq in \<open>blast intro: one_part more_parts\<close>)+
qed

inductive fragment1 :: "string \<Rightarrow> frag \<Rightarrow> bool"
  and fragment2 :: "string \<Rightarrow> frag \<Rightarrow> bool"
  and fragment :: "string \<Rightarrow> frag \<Rightarrow> bool"
  and fragments :: "string \<Rightarrow> frag list \<Rightarrow> bool" where
  token: "t \<noteq> [] \<Longrightarrow> list_all (\<lambda>c. \<not> isspace c \<and> c \<notin> set ''(){}[]:;'') t \<Longrightarrow>
    map char_entry t = map Some l \<Longrightarrow> fragment1 t (Lst l)"
| list: "spaces u \<Longrightarrow> fragments t xs \<Longrightarrow> fragment1 (''('' @ u @ t @ '')'') (Lst xs)"
| clist: "spaces u \<Longrightarrow> fragments t xs \<Longrightarrow>
    fragment1 (''{'' @ u @ t @ ''}'') (Lst (Lst (map Ch ''jump'') # xs))"
| slist: "spaces u \<Longrightarrow> fragments t xs \<Longrightarrow>
    fragment1 (''['' @ u @ t @ '']'') (Lst (Lst (map Ch ''invoke'') # xs))"
| single2: "fragment1 t x \<Longrightarrow> fragment2 t x"
| subsublist: "parts_of fragment1 (CHR '';'') t xs \<Longrightarrow> 2 \<le> length xs \<Longrightarrow> fragment2 t (Lst xs)"
| single: "fragment2 t x \<Longrightarrow> fragment t x"
| sublist: "parts_of fragment2 (CHR '':'') t xs \<Longrightarrow> 2 \<le> length xs \<Longrightarrow> fragment t (Lst xs)"
| no_fragment: "fragments [] []"
| next_fragment: "fragment a x \<Longrightarrow> spaces u \<Longrightarrow> fragments t xs \<Longrightarrow> fragments (a @ u @ t) (x # xs)"

text \<open>The part of a source between two positions.\<close>

definition segment :: "'a list \<Rightarrow> nat \<Rightarrow> nat \<Rightarrow> 'a list" where
  "segment s i j = take (j - i) (drop i s)"

lemma segment_split: "i \<le> j \<Longrightarrow> j \<le> k \<Longrightarrow> segment s i k = segment s i j @ segment s j k"
proof -
  assume ij: "i \<le> j" and "j \<le> k"
  then have "k - i = (j - i) + (k - j)" by simp
  then show ?thesis using ij by (simp only: segment_def take_add drop_drop) simp
qed

lemma segment_Suc: "i < length s \<Longrightarrow> segment s i (Suc i) = [s ! i]"
  by (simp add: segment_def take_Suc_conv_app_nth hd_drop_conv_nth take_Suc)

lemma segment_empty [simp]: "segment s i i = []"
  by (simp add: segment_def)

lemma spaces_append [simp]: "spaces (a @ b) \<longleftrightarrow> spaces a \<and> spaces b"
  by (simp add: spaces_def)

lemma spaces_Nil [simp]: "spaces []"
  by (simp add: spaces_def)

lemma spaces_slice:
  assumes "read_whitespace s pos = (l, p)" "pos \<le> length s"
  shows "spaces (segment s pos p)"
proof -
  have "isspace (s ! i)" if "pos \<le> i" "i < p" for i
    using read_whitespace_spec [OF assms(2,1)] that by simp
  moreover have "segment s pos p ! i = s ! (pos + i)" if "i < length (segment s pos p)" for i
    using that assms(2) by (simp add: segment_def)
  ultimately show ?thesis by (auto simp: spaces_def list_all_length segment_def)
qed

lemma read_token_loop_text:
  "read_token_loop s c pos l = (Ret (f, q) :: ('x, frag \<times> nat) evaluation) \<Longrightarrow>
   \<exists>es. f = Lst (l @ es) \<and> map char_entry (c # segment s pos q) = map Some es \<and>
     list_all (\<lambda>c. \<not> ends_token c) (segment s pos q)"
proof (induction s c pos l rule: read_token_loop.induct)
  case (1 s c pos l)
  then obtain e where e: "char_entry c = Some e" by (cases "char_entry c") (auto simp: read_token_loop.simps)
  show ?case
  proof (cases "pos < length s \<and> \<not> ends_token (s ! pos)")
    case True
    then have r: "read_token_loop s (s ! pos) (pos + 1) (l @ [e]) = (Ret (f, q) :: ('x, frag \<times> nat) evaluation)"
      using "1.prems" e by (simp add: read_token_loop.simps [of s c])
    from "1.IH" [OF e _ _ _ this] True obtain es where es: "f = Lst ((l @ [e]) @ es)"
      "map char_entry (s ! pos # segment s (pos + 1) q) = map Some es"
      "list_all (\<lambda>c. \<not> ends_token c) (segment s (pos + 1) q)" by auto
    have "segment s pos q = s ! pos # segment s (pos + 1) q"
      using segment_split [of pos "pos + 1" q s] segment_Suc [of pos s] True read_token_loop_bounds [OF r] by simp
    with es e True show ?thesis by (intro exI [of _ "e # es"]) simp
  next
    case False
    with "1.prems" e have "f = Lst (l @ [e])" "q = pos"
      by (auto simp: read_token_loop.simps [of s c] split: if_splits)
    with e show ?thesis by simp
  qed
qed

lemma read_token_text:
  assumes "read_token s pos = (Ret (f, q) :: ('x, frag \<times> nat) evaluation)" "pos \<le> length s"
  shows "fragment1 (segment s pos q) f"
proof -
  have r: "read_token_loop s (s ! pos) (pos + 1) [] = (Ret (f, q) :: ('x, frag \<times> nat) evaluation)"
    and p: "\<not> ends_token (s ! pos)" "pos < length s"
    using assms by (auto simp: read_token_def throw_defs split: if_splits)
  have "segment s pos q = s ! pos # segment s (pos + 1) q"
    using segment_split [of pos "pos + 1" q s] segment_Suc [of pos s] p read_token_loop_bounds [OF r] by simp
  with read_token_loop_text [OF r] p
  have "\<exists>es. f = Lst es \<and> map char_entry (segment s pos q) = map Some es \<and>
      list_all (\<lambda>c. \<not> ends_token c) (segment s pos q) \<and> segment s pos q \<noteq> []" by auto
  then show ?thesis unfolding ends_token_set by (auto intro: token)
qed

text \<open>A fragment text of the grammar \<open>G\<close>, and white space behind it.\<close>

definition text_of :: "(string \<Rightarrow> frag \<Rightarrow> bool) \<Rightarrow> string \<Rightarrow> frag \<Rightarrow> bool" where
  "text_of G t f \<longleftrightarrow> (\<exists>m u. t = m @ u \<and> spaces u \<and> G m f)"

locale grammar_reader = fragment_reader l2src rf for l2src :: string and rf :: "'x reader" +
  fixes G :: "string \<Rightarrow> frag \<Rightarrow> bool"
  assumes sound: "at_token l2src pos \<Longrightarrow> rf pos = Ret (f, q) \<Longrightarrow> text_of G (segment l2src pos q) f"
begin

lemma advance: "at_token l2src pos \<Longrightarrow> rf pos = Ret (f, q) \<Longrightarrow> pos < q \<and> q \<le> length l2src"
  using reads [of pos] by simp

lemma read_parts_loop_text:
  "read_parts_loop n rf l2src sep sexprs pos = Ret (f, q) \<Longrightarrow> pos \<le> length l2src \<Longrightarrow> p0 \<le> pos \<Longrightarrow>
   parts_of G sep m sexprs \<Longrightarrow> segment l2src p0 pos = m @ u \<Longrightarrow> spaces u \<Longrightarrow>
   \<exists>m u xs. f = single_or_list xs \<and> parts_of G sep m xs \<and> segment l2src p0 q = m @ u \<and> spaces u \<and> pos \<le> q"
proof (induction n arbitrary: sexprs pos m u)
  case (Suc n)
  from Suc.prems(2) obtain p where p: "read_whitespace l2src pos = (length l2src - p, p)"
    "pos \<le> p" "at_token l2src p" by (rule read_whitespace_cases)
  have sp: "spaces (segment l2src pos p)" using spaces_slice [OF p(1)] Suc.prems by simp
  have s1: "segment l2src p0 p = m @ (u @ segment l2src pos p)"
    using segment_split [of p0 pos p l2src] p Suc.prems by simp
  show ?case
  proof (cases "p < length l2src \<and> l2src ! p = sep")
    case True
    then have "p + 1 \<le> length l2src" by simp
    then obtain r where r: "read_whitespace l2src (p + 1) = (length l2src - r, r)"
      "p + 1 \<le> r" "at_token l2src r" by (rule read_whitespace_cases)
    have sr: "spaces (segment l2src (p + 1) r)" using spaces_slice [OF r(1)] True by simp
    obtain x z where x: "rf r = Ret (x, z)" and nxt: "read_parts_loop n rf l2src sep (sexprs @ [x]) z = Ret (f, q)"
      using Suc.prems(1) p r True by auto
    note z = advance [OF r(3) x]
    obtain a v where a: "segment l2src r z = a @ v" "spaces v" "G a x"
      using sound [OF r(3) x] by (auto simp: text_of_def)
    have "segment l2src p0 z = segment l2src p0 p @ segment l2src p (p + 1) @ segment l2src (p + 1) r @ segment l2src r z"
      using segment_split [of p0 p z l2src] segment_split [of p "p + 1" z l2src] segment_split [of "p + 1" r z l2src]
        p r z Suc.prems(3) by simp
    then have "segment l2src p0 z = (m @ (u @ segment l2src pos p) @ [sep] @ segment l2src (p + 1) r @ a) @ v"
      using s1 segment_Suc [of p l2src] True a by simp
    moreover have part: "parts_of G sep (m @ (u @ segment l2src pos p) @ [sep] @ segment l2src (p + 1) r @ a) (sexprs @ [x])"
      using Suc.prems sp sr a by (intro more_parts) simp_all
    ultimately have "\<exists>m u xs. f = single_or_list xs \<and> parts_of G sep m xs \<and>
        segment l2src p0 q = m @ u \<and> spaces u \<and> z \<le> q"
      using z p r Suc.prems(3) a(2) by (intro Suc.IH [OF nxt _ _ part, of v]) simp_all
    with z p r show ?thesis by (metis add_leD1 le_trans less_imp_le_nat)
  next
    case False
    then have "f = single_or_list sexprs" "q = p" using Suc.prems(1) p by (auto simp: at_token_def)
    with s1 sp p Suc.prems show ?thesis by (metis spaces_append)
  qed
qed simp

lemma read_list_loop_text:
  assumes G: "G = fragment"
  shows "read_list_loop n rf l2src d sexprs pos = Ret (f, q) \<Longrightarrow> pos \<le> length l2src \<Longrightarrow>
    \<exists>fs u t. f = Lst (sexprs @ fs) \<and> segment l2src pos q = u @ t @ [d] \<and> spaces u \<and> fragments t fs \<and> pos < q"
proof (induction n arbitrary: sexprs pos)
  case (Suc n)
  from Suc.prems(2) obtain p where p: "read_whitespace l2src pos = (length l2src - p, p)"
    "pos \<le> p" "at_token l2src p" by (rule read_whitespace_cases)
  have sp: "spaces (segment l2src pos p)" using spaces_slice [OF p(1)] Suc.prems by simp
  show ?case
  proof (cases "p < length l2src \<and> l2src ! p = d")
    case True
    then have "f = Lst sexprs" "q = p + 1" using Suc.prems(1) p by auto
    moreover from True have "segment l2src pos (p + 1) = segment l2src pos p @ [d]"
      using segment_split [of pos p "p + 1" l2src] segment_Suc [of p l2src] p by simp
    ultimately show ?thesis using sp p no_fragment by (metis append_Nil append_Nil2 le_imp_less_Suc Suc_eq_plus1)
  next
    case False
    then obtain x z where x: "rf p = Ret (x, z)" and nxt: "read_list_loop n rf l2src d (sexprs @ [x]) z = Ret (f, q)"
      using Suc.prems(1) p by (auto simp: at_token_def split: if_splits)
    note z = advance [OF p(3) x]
    obtain a v where a: "segment l2src p z = a @ v" "spaces v" "fragment a x"
      using sound [OF p(3) x] G by (auto simp: text_of_def)
    from Suc.IH [OF nxt] z obtain fs u t where t: "f = Lst ((sexprs @ [x]) @ fs)"
      "segment l2src z q = u @ t @ [d]" "spaces u" "fragments t fs" "z < q" by auto
    have "fragments (a @ (v @ u) @ t) (x # fs)" using a t by (intro next_fragment) simp_all
    moreover have "segment l2src pos q = segment l2src pos p @ (a @ (v @ u) @ t) @ [d]"
      using segment_split [of pos p q l2src] segment_split [of p z q l2src] p z t a by simp
    moreover have "f = Lst (sexprs @ x # fs)" "pos < q" using t p z by simp_all
    ultimately show ?thesis using sp by blast
  qed
qed simp

lemma read_fragment1_text:
  assumes G: "G = fragment" and p: "at_token l2src pos" and r: "read_fragment1 n rf l2src pos = Ret (f, q)"
  shows "fragment1 (segment l2src pos q) f"
proof (cases "pos < length l2src \<and> opens_list (l2src ! pos)")
  case True
  obtain l where l: "list_prefix (l2src ! pos) = (Ret l :: ('x, frag list) evaluation)"
    using list_prefix_wf by blast
  have loop: "read_list_loop n rf l2src (closing (l2src ! pos)) l (pos + 1) = Ret (f, q)"
    using r l True by (simp add: read_fragment1_def read_list_def)
  obtain fs u t where t: "f = Lst (l @ fs)" "segment l2src (pos + 1) q = u @ t @ [closing (l2src ! pos)]"
    "spaces u" "fragments t fs" "pos + 1 < q"
    using read_list_loop_text [OF G loop] True by auto
  have "segment l2src pos q = [l2src ! pos] @ u @ t @ [closing (l2src ! pos)]"
    using segment_split [of pos "pos + 1" q l2src] segment_Suc [of pos l2src] True t by simp
  then show ?thesis
    using l list [OF t(3,4)] clist [OF t(3,4)] slist [OF t(3,4)] True t(1)
    by (auto simp: opens_list_def closing_def list_prefix_def build_jump build_invoke)
next
  case False
  then show ?thesis using r p read_token_text [of l2src pos f q]
    by (auto simp: read_fragment1_def throw_defs at_token_def split: if_splits)
qed

end

lemma text_of_plain: "G t f \<Longrightarrow> text_of G t f"
  unfolding text_of_def by (metis append_Nil2 spaces_Nil)

lemma single_or_list_one: "single_or_list [x] = x"
  by simp

lemma single_or_list_many: "2 \<le> length xs \<Longrightarrow> single_or_list xs = Lst xs"
  by (cases xs rule: single_or_list.cases) auto

lemma parts_of_text:
  assumes "parts_of G sep m xs"
  shows "(\<exists>x. xs = [x] \<and> G m x) \<or> 2 \<le> length xs"
  using assms
proof cases
  case (more_parts a ys u v b x)
  from more_parts(3) have "ys \<noteq> []" by cases simp_all
  with more_parts show ?thesis by (cases ys) auto
qed simp

lemma grammar_reader_fragment2:
  assumes "grammar_reader s rf fragment"
  shows "grammar_reader s (read_fragment2 n rf s) fragment2"
proof -
  have fr: "fragment_reader s rf" using assms by (rule grammar_reader.axioms)
  have 1: "grammar_reader s (read_fragment1 n rf s) fragment1"
    using fragment_reader.read_fragment1_ok [OF fr] grammar_reader.read_fragment1_text [OF assms refl]
    by (auto simp: grammar_reader_def grammar_reader_axioms_def fragment_reader_def intro: text_of_plain
        simp del: One_nat_def)
  have "text_of fragment2 (segment s pos q) f"
    if p: "at_token s pos" and r: "read_fragment2 n rf s pos = Ret (f, q)" for pos f q
  proof -
    obtain x z where x: "read_fragment1 n rf s pos = Ret (x, z)"
      and loop: "read_parts_loop n (read_fragment1 n rf s) s (CHR '';'') [x] z = Ret (f, q)"
      using r by (auto simp: read_fragment2_def)
    note z = grammar_reader.advance [OF 1 p x]
    note x1 = grammar_reader.read_fragment1_text [OF assms refl p x]
    obtain m u xs where m: "f = single_or_list xs" "parts_of fragment1 (CHR '';'') m xs"
      "segment s pos q = m @ u" "spaces u"
      using grammar_reader.read_parts_loop_text [OF 1 loop _ _ one_part [of fragment1, OF x1], of pos "[]"] z by auto
    have "fragment2 m f"
      using parts_of_text [OF m(2)] m(1,2) by (auto intro: single2 simp: single_or_list_many subsublist)
    with m show ?thesis by (auto simp: text_of_def)
  qed
  then show ?thesis
    by (simp add: grammar_reader_def grammar_reader_axioms_def fragment2_reader [OF fr])
qed

lemma grammar_reader_read_fragment: "grammar_reader s (read_fragment n s :: 'x reader) fragment"
proof (induction n)
  case 0
  then show ?case by (simp add: grammar_reader_def grammar_reader_axioms_def fragment_reader_def)
next
  case (Suc n)
  note 2 = grammar_reader_fragment2 [OF Suc, of n]
  have "text_of fragment (segment s pos q) f"
    if p: "at_token s pos" and r: "(read_fragment (Suc n) s pos :: ('x, frag \<times> nat) evaluation) = Ret (f, q)" for pos f q
  proof -
    obtain x z where x: "read_fragment2 n (read_fragment n s :: 'x reader) s pos = Ret (x, z)"
      and loop: "read_parts_loop n (read_fragment2 n (read_fragment n s :: 'x reader) s) s (CHR '':'') [x] z = Ret (f, q)"
      using r by auto
    note z = grammar_reader.advance [OF 2 p x]
    obtain a v where a: "segment s pos z = a @ v" "spaces v" "fragment2 a x"
      using grammar_reader.sound [OF 2 p x] by (auto simp: text_of_def)
    obtain m u xs where m: "f = single_or_list xs" "parts_of fragment2 (CHR '':'') m xs"
      "segment s pos q = m @ u" "spaces u"
      using grammar_reader.read_parts_loop_text [OF 2 loop _ _ one_part [of fragment2, OF a(3)], of pos v] z a by auto
    have "fragment m f"
      using parts_of_text [OF m(2)] m(1,2) by (auto intro: single simp: single_or_list_many sublist)
    with m show ?thesis by (auto simp: text_of_def)
  qed
  moreover have "fragment_reader s (read_fragment (Suc n) s :: 'x reader)" by (rule fragment_reader_read_fragment)
  ultimately show ?case
    by (simp only: grammar_reader_def grammar_reader_axioms_def) blast
qed

interpretation gr: grammar_reader l2src "read_fragment n l2src" fragment
  by (rule grammar_reader_read_fragment)

text \<open>C5. The text that the reader consumes for a fragment is a text that the grammar in
the comment of \<open>lexer.c\<close> derives for it, followed by white space only.\<close>

lemma read_fragment_sound:
  assumes "at_token s pos"
    and "(read_fragment n s pos :: ('x, frag \<times> nat) evaluation) = Ret (f, q)"
  shows "\<exists>m u. take (q - pos) (drop pos s) = m @ u \<and> spaces u \<and> fragment m f"
  using gr.sound [OF assms] by (simp add: text_of_def segment_def)

section \<open>The places of errors\<close>

text \<open>Texts with which a fragment may begin, and texts that are a fragment with white space behind it.\<close>

definition begins_fragment :: "string \<Rightarrow> bool" where
  "begins_fragment t \<longleftrightarrow> (\<exists>r f. fragment (t @ r) f)"

definition is_fragment_text :: "string \<Rightarrow> bool" where
  "is_fragment_text t \<longleftrightarrow> (\<exists>m u f. t = m @ u \<and> spaces u \<and> fragment m f)"

text \<open>
  A scan with a stack of closing brackets, which tells from a text whether the next character can follow it:
  a fragment is due, a fragment or the end of a list may come, or a fragment was found.
\<close>

datatype expected = Due | Optional | Found

type_synonym scan_state = "string \<times> expected"

definition is_separator :: "char \<Rightarrow> bool" where
  "is_separator c \<longleftrightarrow> c = CHR '':'' \<or> c = CHR '';''"

fun scan_step :: "scan_state \<Rightarrow> char \<Rightarrow> scan_state option" where
  "scan_step (ds, m) c =
     (if isspace c then Some (ds, m)
      else if opens_list c then Some (closing c # ds, Optional)
      else if is_separator c then (if m = Found then Some (ds, Due) else None)
      else if stray c then (if m \<noteq> Due \<and> ds \<noteq> [] \<and> hd ds = c then Some (tl ds, Found) else None)
      else Some (ds, Found))"

fun scan :: "scan_state \<Rightarrow> string \<Rightarrow> scan_state option" where
  "scan st [] = Some st"
| "scan st (c # cs) = (case scan_step st c of None \<Rightarrow> None | Some st \<Rightarrow> scan st cs)"

declare scan_step.simps [simp del]

lemma scan_append: "scan st (a @ b) = (case scan st a of None \<Rightarrow> None | Some st \<Rightarrow> scan st b)"
  by (induction a arbitrary: st) (auto split: option.split)

lemma scan_spaces: "spaces u \<Longrightarrow> scan st u = Some st"
  by (cases st, induction u) (auto simp: spaces_def scan_step.simps)

lemma scan_token: "list_all (\<lambda>c. \<not> ends_token c) t \<Longrightarrow> t \<noteq> [] \<Longrightarrow> scan (ds, m) t = Some (ds, Found)"
proof (induction t arbitrary: m)
  case (Cons c t)
  have "scan_step (ds, m) c = Some (ds, Found)"
    using Cons.prems(1) by (auto simp: scan_step.simps ends_token_cases is_separator_def stray_def)
  with Cons show ?case by (cases t) auto
qed simp

lemma closing_stray: "opens_list c \<Longrightarrow> stray (closing c) \<and> \<not> isspace (closing c) \<and> \<not> opens_list (closing c) \<and> \<not> is_separator (closing c)"
  by (auto simp: opens_list_def closing_def stray_def isspace_def is_separator_def)

lemma scan_separator: "is_separator c \<Longrightarrow> scan_step (ds, Found) c = Some (ds, Due)"
  by (auto simp: scan_step.simps is_separator_def isspace_def opens_list_def)

lemma scan_open: "opens_list c \<Longrightarrow> scan_step (ds, m) c = Some (closing c # ds, Optional)"
  by (auto simp: scan_step.simps isspace_def opens_list_def)

lemma scan_close: "opens_list c \<Longrightarrow> m \<noteq> Due \<Longrightarrow> scan_step (closing c # ds, m) (closing c) = Some (ds, Found)"
  using closing_stray [of c] by (simp add: scan_step.simps)

lemma stray_step: "stray c \<Longrightarrow> scan_step (ds, m) c =
    (if is_separator c then (if m = Found then Some (ds, Due) else None)
     else if m \<noteq> Due \<and> ds \<noteq> [] \<and> hd ds = c then Some (tl ds, Found) else None)"
  by (auto simp: scan_step.simps stray_def isspace_def opens_list_def)

lemma scan_list:
  assumes "spaces u" "opens_list b" "scan (closing b # ds, Optional) t = Some (closing b # ds, m')" "m' \<noteq> Due"
  shows "scan (ds, m) (b # u @ t @ [closing b]) = Some (ds, Found)"
  using assms by (simp add: scan_open scan_append scan_spaces scan_close)

subsection \<open>The grammar passes the scan\<close>

lemma parts_of_scan:
  assumes "parts_of p sep t xs" and "is_separator sep"
    and "\<And>t x ds m. p t x \<Longrightarrow> scan (ds, m) t = Some (ds, Found)"
  shows "scan (ds, m) t = Some (ds, Found)"
  using assms(1)
proof (induction arbitrary: m)
  case (one_part a x)
  then show ?case by (rule assms(3))
next
  case (more_parts a xs u v b x)
  then show ?case using assms(3) by (simp add: scan_append scan_spaces scan_separator [OF assms(2)])
qed

lemma grammar_scan:
  "fragment1 t f \<Longrightarrow> \<forall>ds m. scan (ds, m) t = Some (ds, Found)"
  "fragment2 t f \<Longrightarrow> \<forall>ds m. scan (ds, m) t = Some (ds, Found)"
  "fragment t f \<Longrightarrow> \<forall>ds m. scan (ds, m) t = Some (ds, Found)"
  "fragments t fs \<Longrightarrow> \<forall>ds m. m \<noteq> Due \<longrightarrow> (\<exists>m'. m' \<noteq> Due \<and> scan (ds, m) t = Some (ds, m'))"
proof (induction rule: fragment1_fragment2_fragment_fragments.inducts)
  case (token t l)
  then show ?case using scan_token unfolding ends_token_set [symmetric] by blast
next
  case (list u t xs)
  show ?case
  proof (intro allI)
    fix ds m
    obtain m' where "m' \<noteq> Due" "scan (CHR '')'' # ds, Optional) t = Some (CHR '')'' # ds, m')" using list(3) by blast
    with scan_list [OF list(1), of "CHR ''(''" ds t m' m] show "scan (ds, m) (''('' @ u @ t @ '')'') = Some (ds, Found)"
      by (simp add: opens_list_def closing_def)
  qed
next
  case (clist u t xs)
  show ?case
  proof (intro allI)
    fix ds m
    obtain m' where "m' \<noteq> Due" "scan (CHR ''}'' # ds, Optional) t = Some (CHR ''}'' # ds, m')" using clist(3) by blast
    with scan_list [OF clist(1), of "CHR ''{''" ds t m' m] show "scan (ds, m) (''{'' @ u @ t @ ''}'') = Some (ds, Found)"
      by (simp add: opens_list_def closing_def)
  qed
next
  case (slist u t xs)
  show ?case
  proof (intro allI)
    fix ds m
    obtain m' where "m' \<noteq> Due" "scan (CHR '']'' # ds, Optional) t = Some (CHR '']'' # ds, m')" using slist(3) by blast
    with scan_list [OF slist(1), of "CHR ''[''" ds t m' m] show "scan (ds, m) (''['' @ u @ t @ '']'') = Some (ds, Found)"
      by (simp add: opens_list_def closing_def)
  qed
next
  case (subsublist t xs)
  from parts_of_scan [OF this(1)] show ?case by (auto simp: is_separator_def)
next
  case (sublist t xs)
  from parts_of_scan [OF this(1)] show ?case by (auto simp: is_separator_def)
next
  case (next_fragment a x u t xs)
  then show ?case by (simp add: scan_append scan_spaces)
qed simp_all

subsection \<open>The reader follows the scan\<close>

definition starts :: "string \<Rightarrow> nat \<Rightarrow> scan_state \<Rightarrow> bool" where
  "starts s pos st \<longleftrightarrow> at_token s pos \<and> st \<noteq> ([], Found) \<and>
     (pos < length s \<longrightarrow> stray (s ! pos) \<longrightarrow> scan_step st (s ! pos) = None)"

definition stops_before :: "string \<Rightarrow> nat \<Rightarrow> char set \<Rightarrow> bool" where
  "stops_before s q S \<longleftrightarrow> (S \<noteq> {} \<longrightarrow> at_token s q) \<and> (q < length s \<longrightarrow> s ! q \<notin> S)"

definition stuck :: "string \<Rightarrow> nat \<Rightarrow> scan_state \<Rightarrow> 'x evaluate_error \<Rightarrow> bool" where
  "stuck s pos st e \<longleftrightarrow> (\<exists>c p st'. e = unexpected_character_error c (int p) \<and> pos \<le> p \<and> p \<le> length s \<and>
     scan st (segment s pos p) = Some st' \<and>
     (p = length s \<and> c = 0 \<and> st' \<noteq> ([], Found) \<or> p < length s \<and> c = char_int (s ! p) \<and> scan_step st' (s ! p) = None))"

fun scanned :: "string \<Rightarrow> nat \<Rightarrow> scan_state \<Rightarrow> char set \<Rightarrow> ('x, frag \<times> nat) evaluation \<Rightarrow> bool" where
  "scanned s pos st S (Ret (f, q)) \<longleftrightarrow> pos \<le> q \<and> q \<le> length s \<and>
     scan st (segment s pos q) = Some (fst st, Found) \<and> stops_before s q S"
| "scanned s pos st S (Throw e) \<longleftrightarrow> stuck s pos st e"
| "scanned s pos st S _ \<longleftrightarrow> True"

lemma scan_segment:
  "i \<le> j \<Longrightarrow> j \<le> k \<Longrightarrow> scan st (segment s i j) = Some st1 \<Longrightarrow> scan st (segment s i k) = scan st1 (segment s j k)"
  using segment_split [of i j k s] by (simp add: scan_append)

lemma stuck_later:
  assumes "scan st (segment s pos p) = Some st1" "pos \<le> p" "stuck s p st1 e"
  shows "stuck s pos st e"
proof -
  obtain c q st' where e: "e = unexpected_character_error c (int q)" "p \<le> q" "q \<le> length s"
      "scan st1 (segment s p q) = Some st'"
      "q = length s \<and> c = 0 \<and> st' \<noteq> ([], Found) \<or> q < length s \<and> c = char_int (s ! q) \<and> scan_step st' (s ! q) = None"
    using assms(3) by (auto simp: stuck_def)
  moreover have "scan st (segment s pos q) = Some st'" using scan_segment [OF assms(2) e(2) assms(1)] e(4) by simp
  moreover have "pos \<le> q" using e(2) assms(2) by simp
  ultimately show ?thesis unfolding stuck_def by (intro exI [of _ c] exI [of _ q] exI [of _ st'] conjI)
qed

lemma stuck_here:
  "starts s pos st \<Longrightarrow> pos = length s \<Longrightarrow> stuck s pos st (unexpected_character_error 0 (int pos))"
  "starts s pos st \<Longrightarrow> pos < length s \<Longrightarrow> stray (s ! pos) \<Longrightarrow>
    stuck s pos st (unexpected_character_error (char_int (s ! pos)) (int pos))"
  unfolding stuck_def starts_def
  by (rule exI [of _ 0], rule exI [of _ pos], rule exI [of _ st], simp)
     (rule exI [of _ "char_int (s ! pos)"], rule exI [of _ pos], rule exI [of _ st], simp)

lemma at_token_whitespace: "at_token s pos \<Longrightarrow> read_whitespace s pos = (length s - pos, pos)"
  by (simp add: at_token_def read_whitespace.simps)

lemma scan_whitespace: "read_whitespace s pos = (l, p) \<Longrightarrow> pos \<le> length s \<Longrightarrow> scan st (segment s pos p) = Some st"
  by (intro scan_spaces spaces_slice)

locale scanning_reader = fragment_reader l2src rf for l2src :: string and rf :: "'x reader" +
  fixes S :: "char set"
  assumes scans: "starts l2src pos st \<Longrightarrow> scanned l2src pos st S (rf pos)"
begin

lemma read_parts_loop_scanned:
  assumes sep: "is_separator sep"
  shows "p0 \<le> pos \<Longrightarrow> pos \<le> length l2src \<Longrightarrow> scan st (segment l2src p0 pos) = Some (fst st, Found) \<Longrightarrow>
    stops_before l2src pos S \<Longrightarrow> scanned l2src p0 st (insert sep S) (read_parts_loop n rf l2src sep xs pos)"
proof (induction n arbitrary: xs pos)
  case (Suc n)
  from Suc.prems(2) obtain p where p: "read_whitespace l2src pos = (length l2src - p, p)"
    "pos \<le> p" "at_token l2src p" by (rule read_whitespace_cases)
  have pl: "p \<le> length l2src" using p(3) by (rule at_token_le)
  have sp: "scan st (segment l2src p0 p) = Some (fst st, Found)"
    using scan_segment [OF Suc.prems(1) p(2) Suc.prems(3)] scan_whitespace [OF p(1) Suc.prems(2)] by simp
  show ?case
  proof (cases "p < length l2src \<and> l2src ! p = sep")
    case True
    then have "p + 1 \<le> length l2src" by simp
    then obtain r where r: "read_whitespace l2src (p + 1) = (length l2src - r, r)"
      "p + 1 \<le> r" "at_token l2src r" by (rule read_whitespace_cases)
    have "scan st (segment l2src p0 (p + 1)) = Some (fst st, Due)"
      using scan_segment [of p0 p "p + 1" st l2src] sp True Suc.prems(1) p(2) segment_Suc [of p l2src] scan_separator [OF sep] by simp
    then have sr: "scan st (segment l2src p0 r) = Some (fst st, Due)"
      using scan_segment [of p0 "p + 1" r st l2src] scan_whitespace [OF r(1)] True r(2) Suc.prems(1) p(2) by simp
    have "starts l2src r (fst st, Due)"
      using r(3) by (auto simp: starts_def stray_step)
    note rf = scans [OF this]
    show ?thesis
    proof (cases "rf r")
      case (Ret y)
      obtain f z where y: "y = (f, z)" by (cases y)
      have z: "r \<le> z" "z \<le> length l2src" "scan (fst st, Due) (segment l2src r z) = Some (fst st, Found)" "stops_before l2src z S"
        using rf Ret y by simp_all
      have "scan st (segment l2src p0 z) = Some (fst st, Found)"
        using scan_segment [of p0 r z st l2src] sr z r(2) p(2) Suc.prems(1) by simp
      from Suc.IH [OF _ z(2) this z(4)] show ?thesis using True p r z Ret y Suc.prems(1) by simp
    next
      case (Throw e)
      then show ?thesis using rf stuck_later [OF sr] True p r Suc.prems(1) by simp
    qed (use True p r in simp_all)
  next
    case False
    have "stops_before l2src p (insert sep S)"
    proof (cases "S = {}")
      case False
      then have "p = pos" using Suc.prems(4) p(1) at_token_whitespace by (simp add: stops_before_def)
      then show ?thesis using Suc.prems(4) \<open>\<not> (p < length l2src \<and> l2src ! p = sep)\<close> p(3) by (auto simp: stops_before_def)
    qed (use False p(3) in \<open>simp add: stops_before_def\<close>)
    then show ?thesis using False p sp pl Suc.prems(1) by auto
  qed
qed simp

lemma read_list_loop_scanned:
  assumes S: "S = {CHR '':'', CHR '';''}" and d: "opens_list b" "d = closing b"
  shows "p0 \<le> pos \<Longrightarrow> pos \<le> length l2src \<Longrightarrow> scan st (segment l2src p0 pos) = Some (d # fst st, m) \<Longrightarrow>
    m = Optional \<or> m = Found \<and> stops_before l2src pos S \<Longrightarrow>
    scanned l2src p0 st {} (read_list_loop n rf l2src d xs pos)"
proof (induction n arbitrary: xs pos m)
  case (Suc n)
  from Suc.prems(2) obtain p where p: "read_whitespace l2src pos = (length l2src - p, p)"
    "pos \<le> p" "at_token l2src p" by (rule read_whitespace_cases)
  have pl: "p \<le> length l2src" using p(3) by (rule at_token_le)
  have sp: "scan st (segment l2src p0 p) = Some (d # fst st, m)"
    using scan_segment [OF Suc.prems(1) p(2) Suc.prems(3)] scan_whitespace [OF p(1) Suc.prems(2)] by simp
  show ?case
  proof (cases "p < length l2src \<and> l2src ! p = d")
    case True
    have "scan_step (d # fst st, m) d = Some (fst st, Found)" using scan_close [OF d(1)] d(2) Suc.prems(4) by auto
    then have "scan st (segment l2src p0 (p + 1)) = Some (fst st, Found)"
      using scan_segment [of p0 p "p + 1" st l2src] sp True Suc.prems(1) p(2) segment_Suc [of p l2src] by simp
    then show ?thesis using True p Suc.prems(1) by (simp add: stops_before_def)
  next
    case False
    have "\<not> is_separator (l2src ! p)" if "m = Found" "p < length l2src"
    proof -
      have b: "stops_before l2src pos S" using that(1) Suc.prems(4) by simp
      then have "at_token l2src pos" by (simp add: stops_before_def S)
      from at_token_whitespace [OF this] p(1) have "p = pos" by simp
      then show ?thesis using b that(2) by (simp add: stops_before_def S is_separator_def)
    qed
    then have "starts l2src p (d # fst st, m)"
      using p(3) False by (auto simp: starts_def stray_step)
    note rf = scans [OF this]
    show ?thesis
    proof (cases "rf p")
      case (Ret y)
      obtain f z where y: "y = (f, z)" by (cases y)
      have z: "p \<le> z" "z \<le> length l2src" "scan (d # fst st, m) (segment l2src p z) = Some (d # fst st, Found)" "stops_before l2src z S"
        using rf Ret y by simp_all
      have "scan st (segment l2src p0 z) = Some (d # fst st, Found)"
        using scan_segment [of p0 p z st l2src] sp z p(2) Suc.prems(1) by simp
      from Suc.IH [OF _ z(2) this] show ?thesis using False p z Ret y Suc.prems(1) by (auto simp: at_token_def)
    next
      case (Throw e)
      then show ?thesis using rf stuck_later [OF sp] False p Suc.prems(1) by (auto simp: at_token_def)
    qed (use False p in \<open>auto simp: at_token_def\<close>)
  qed
qed simp

lemma read_fragment1_scanned:
  assumes S: "S = {CHR '':'', CHR '';''}" and st: "starts l2src pos st"
  shows "scanned l2src pos st {} (read_fragment1 n rf l2src pos)"
proof (cases "pos < length l2src")
  case False
  then have "pos = length l2src" using st by (simp add: starts_def at_token_def)
  with stuck_here(1) [OF st] show ?thesis by (simp add: read_fragment1_def throw_defs)
next
  case len: True
  let ?c = "l2src ! pos"
  show ?thesis
  proof (cases "opens_list ?c")
    case True
    obtain l where l: "list_prefix ?c = (Ret l :: ('x, frag list) evaluation)" using list_prefix_wf by blast
    have "scan st (segment l2src pos (pos + 1)) = Some (closing ?c # fst st, Optional)"
      using segment_Suc [OF len] scan_open [OF True] by (cases st) simp
    from read_list_loop_scanned [OF S True refl _ _ this] show ?thesis
      using True len l by (simp add: read_fragment1_def read_list_def)
  next
    case nopen: False
    show ?thesis
    proof (cases "ends_token ?c")
      case True
      then have "stray ?c" using nopen st len by (auto simp: ends_token_cases starts_def at_token_def)
      with stuck_here(2) [OF st len] True nopen len show ?thesis by (simp add: read_fragment1_def read_token_def throw_defs)
    next
      case False
      have ok: "read_ok l2src (pos + 1) 0 (read_token_loop l2src ?c (pos + 1) [] :: ('x, frag \<times> nat) evaluation)"
        using len by (intro read_token_loop_ok) simp_all
      have nt: "read_token_loop l2src c q l \<noteq> (Throw e :: ('x, frag \<times> nat) evaluation)" for c q l e
      proof (induction l2src c q l rule: read_token_loop.induct)
        case (1 s c pos l)
        then show ?case by (simp add: read_token_loop.simps [of s c] split: option.split)
      qed
      show ?thesis
      proof (cases "read_token_loop l2src ?c (pos + 1) [] :: ('x, frag \<times> nat) evaluation")
        case (Ret y)
        obtain f q where y: "y = (f, q)" by (cases y)
        have q: "pos + 1 \<le> q" "q \<le> length l2src" using ok Ret y by simp_all
        have "list_all (\<lambda>c. \<not> ends_token c) (segment l2src pos q)"
          using read_token_loop_text [OF Ret [unfolded y]] segment_split [of pos "pos + 1" q l2src] segment_Suc [OF len] False q by auto
        moreover have "segment l2src pos q \<noteq> []"
          using segment_split [of pos "pos + 1" q l2src] segment_Suc [OF len] q by simp
        ultimately have "scan st (segment l2src pos q) = Some (fst st, Found)" using scan_token by (cases st) simp
        then show ?thesis using Ret y q False nopen len
          by (simp add: read_fragment1_def read_token_def stops_before_def)
      qed (use False nopen len nt in \<open>simp_all add: read_fragment1_def read_token_def\<close>)
    qed
  qed
qed

end


lemma scanning_parts:
  assumes part: "scanning_reader s part S" and sep: "is_separator sep"
    and st: "starts s pos st" and r1: "scanned s pos st S (r1 :: ('x, frag \<times> nat) evaluation)"
  shows "scanned s pos st (insert sep S) (bindO r1 (\<lambda>(f, pos1). read_parts_loop n part s sep [f] pos1))"
proof (cases r1)
  case (Ret y)
  obtain f q where y: "y = (f, q)" by (cases y)
  show ?thesis using r1 Ret y scanning_reader.read_parts_loop_scanned [OF part sep, of pos q st n "[f]"] by simp
qed (use r1 in simp_all)

lemma scanning_fragment2:
  assumes "scanning_reader s rf {CHR '':'', CHR '';''}"
  shows "scanning_reader s (read_fragment2 n rf s) {CHR '';''}"
proof -
  have fr: "fragment_reader s rf" using assms by (rule scanning_reader.axioms)
  have 1: "scanning_reader s (read_fragment1 n rf s) {}"
    using fragment_reader.read_fragment1_ok [OF fr] scanning_reader.read_fragment1_scanned [OF assms refl]
    by (simp add: scanning_reader_def scanning_reader_axioms_def fragment_reader_def del: One_nat_def)
  have "scanned s pos st {CHR '';''} (read_fragment2 n rf s pos)" if "starts s pos st" for pos st
    unfolding read_fragment2_def
    by (rule scanning_parts [OF 1 _ that scanning_reader.scans [OF 1 that]]) (simp add: is_separator_def)
  then show ?thesis
    by (simp add: scanning_reader_def scanning_reader_axioms_def fragment2_reader [OF fr])
qed

lemma scanning_read_fragment: "scanning_reader s (read_fragment n s :: 'x reader) {CHR '':'', CHR '';''}"
proof (induction n)
  case 0
  then show ?case by (simp add: scanning_reader_def scanning_reader_axioms_def fragment_reader_def)
next
  case (Suc n)
  note 2 = scanning_fragment2 [OF Suc, of n]
  have "scanned s pos st {CHR '':'', CHR '';''} (read_fragment (Suc n) s pos :: ('x, frag \<times> nat) evaluation)"
    if "starts s pos st" for pos st
    unfolding read_fragment.simps
    by (rule scanning_parts [OF 2 _ that scanning_reader.scans [OF 2 that]]) (simp add: is_separator_def)
  moreover have "fragment_reader s (read_fragment (Suc n) s :: 'x reader)" by (rule fragment_reader_read_fragment)
  ultimately show ?case by (simp only: scanning_reader_def scanning_reader_axioms_def) blast
qed

interpretation sc: scanning_reader l2src "read_fragment n l2src" "{CHR '':'', CHR '';''}"
  by (rule scanning_read_fragment)

subsection \<open>What was read can go on\<close>

locale viable_reader = grammar_reader l2src rf G
  for l2src :: string and rf :: "'x reader" and G :: "string \<Rightarrow> frag \<Rightarrow> bool" +
  assumes viable: "at_token l2src pos \<Longrightarrow> rf pos = Throw (unexpected_character_error c (int p)) \<Longrightarrow>
    pos \<le> p \<and> (\<exists>r f. G (segment l2src pos p @ r) f)"
begin

lemma read_parts_loop_viable:
  "read_parts_loop n rf l2src sep xs pos = Throw (unexpected_character_error c (int p)) \<Longrightarrow> pos \<le> length l2src \<Longrightarrow>
   p0 \<le> pos \<Longrightarrow> parts_of G sep m xs \<Longrightarrow> segment l2src p0 pos = m @ u \<Longrightarrow> spaces u \<Longrightarrow>
   p0 \<le> p \<and> (\<exists>r ys. parts_of G sep (segment l2src p0 p @ r) ys \<and> 2 \<le> length ys)"
proof (induction n arbitrary: xs pos m u)
  case (Suc n)
  from Suc.prems(2) obtain p1 where p1: "read_whitespace l2src pos = (length l2src - p1, p1)"
    "pos \<le> p1" "at_token l2src p1" by (rule read_whitespace_cases)
  have sp: "spaces (segment l2src pos p1)" using spaces_slice [OF p1(1)] Suc.prems by simp
  have True: "p1 < length l2src \<and> l2src ! p1 = sep" using Suc.prems(1) p1 by (auto split: if_splits)
  then have "p1 + 1 \<le> length l2src" by simp
  then obtain r where r: "read_whitespace l2src (p1 + 1) = (length l2src - r, r)"
    "p1 + 1 \<le> r" "at_token l2src r" by (rule read_whitespace_cases)
  have sr: "spaces (segment l2src (p1 + 1) r)" using spaces_slice [OF r(1)] True by simp
  have pre: "segment l2src p0 z = m @ (u @ segment l2src pos p1) @ [sep] @ segment l2src (p1 + 1) r @ segment l2src r z"
    if "r \<le> z" for z
    using segment_split [of p0 pos z l2src] segment_split [of pos p1 z l2src] segment_split [of p1 "p1 + 1" z l2src]
      segment_split [of "p1 + 1" r z l2src] segment_Suc [of p1 l2src] True p1 r that Suc.prems(3,5) by simp
  have u: "spaces (u @ segment l2src pos p1)" using sp Suc.prems(6) by simp
  note more = more_parts [OF Suc.prems(4) u sr]
  show ?case
  proof (cases "rf r")
    case (Ret y)
    obtain x z where y: "y = (x, z)" by (cases y)
    note z = advance [OF r(3) Ret [unfolded y]]
    obtain a v where a: "segment l2src r z = a @ v" "spaces v" "G a x"
      using sound [OF r(3) Ret [unfolded y]] by (auto simp: text_of_def)
    have "read_parts_loop n rf l2src sep (xs @ [x]) z = Throw (unexpected_character_error c (int p))"
      using Suc.prems(1) p1 r True Ret y by simp
    from Suc.IH [OF this _ _ more [OF a(3)], of v] show ?thesis
      using z p1 r Suc.prems(3) a(1,2) pre [of z] by simp
  next
    case (Throw e)
    then have t: "rf r = Throw (unexpected_character_error c (int p))" using Suc.prems(1) p1 r True by simp
    from viable [OF r(3) this] obtain q f where q: "r \<le> p" "G (segment l2src r p @ q) f" by blast
    have "xs \<noteq> []" using parts_of_text [OF Suc.prems(4)] by auto
    then have "2 \<le> length (xs @ [f])" by (cases xs) simp_all
    with more [OF q(2)] pre [OF q(1)] q(1) r p1 Suc.prems(3) show ?thesis
      by (intro conjI exI [of _ q] exI [of _ "xs @ [f]"]) simp_all
  qed (use Suc.prems(1) p1 r True in simp_all)
qed simp

lemma read_list_loop_viable:
  assumes G: "G = fragment"
  shows "read_list_loop n rf l2src d xs pos = Throw (unexpected_character_error c (int p)) \<Longrightarrow> pos \<le> length l2src \<Longrightarrow>
    pos \<le> p \<and> (\<exists>r u t fs. segment l2src pos p @ r = u @ t \<and> spaces u \<and> fragments t fs)"
proof (induction n arbitrary: xs pos)
  case (Suc n)
  from Suc.prems(2) obtain p1 where p1: "read_whitespace l2src pos = (length l2src - p1, p1)"
    "pos \<le> p1" "at_token l2src p1" by (rule read_whitespace_cases)
  have sp: "spaces (segment l2src pos p1)" using spaces_slice [OF p1(1)] Suc.prems by simp
  have nd: "\<not> (p1 < length l2src \<and> l2src ! p1 = d)" using Suc.prems(1) p1 by (auto split: if_splits)
  show ?case
  proof (cases "rf p1")
    case (Ret y)
    obtain x z where y: "y = (x, z)" by (cases y)
    note z = advance [OF p1(3) Ret [unfolded y]]
    obtain a v where a: "segment l2src p1 z = a @ v" "spaces v" "fragment a x"
      using sound [OF p1(3) Ret [unfolded y]] G by (auto simp: text_of_def)
    have "read_list_loop n rf l2src d (xs @ [x]) z = Throw (unexpected_character_error c (int p))"
      using Suc.prems(1) p1 nd Ret y by (auto simp: at_token_def split: if_splits)
    from Suc.IH [OF this] z obtain r u t fs where t: "z \<le> p" "segment l2src z p @ r = u @ t" "spaces u" "fragments t fs" by auto
    have "fragments (a @ (v @ u) @ t) (x # fs)" using a t by (intro next_fragment) simp_all
    moreover have "segment l2src pos p @ r = segment l2src pos p1 @ (a @ (v @ u) @ t)"
      using segment_split [of pos p1 p l2src] segment_split [of p1 z p l2src] p1 z t a by simp
    ultimately show ?thesis using sp p1(2) z t(1) by (intro conjI) (simp, blast)
  next
    case (Throw e)
    then have "rf p1 = Throw (unexpected_character_error c (int p))" using Suc.prems(1) p1 nd by (auto simp: at_token_def split: if_splits)
    from viable [OF p1(3) this] obtain r f where r: "p1 \<le> p" "fragment (segment l2src p1 p @ r) f" using G by blast
    have "fragments (segment l2src p1 p @ r) [f]"
      using next_fragment [OF r(2) spaces_Nil no_fragment] by simp
    moreover have "segment l2src pos p @ r = segment l2src pos p1 @ (segment l2src p1 p @ r)"
      using segment_split [of pos p1 p l2src] p1 r by simp
    ultimately show ?thesis using sp p1(2) r(1) by (intro conjI) (simp, blast)
  qed (use Suc.prems(1) p1 nd in \<open>auto simp: at_token_def split: if_splits\<close>)
qed simp

lemma read_fragment1_viable:
  assumes G: "G = fragment" and at: "at_token l2src pos"
    and t: "read_fragment1 n rf l2src pos = Throw (unexpected_character_error c (int p))"
  shows "pos \<le> p \<and> (\<exists>r f. fragment1 (segment l2src pos p @ r) f)"
proof (cases "pos < length l2src \<and> opens_list (l2src ! pos)")
  case True
  obtain l where l: "list_prefix (l2src ! pos) = (Ret l :: ('x, frag list) evaluation)"
    using list_prefix_wf by blast
  have "read_list_loop n rf l2src (closing (l2src ! pos)) l (pos + 1) = Throw (unexpected_character_error c (int p))"
    using t l True by (simp add: read_fragment1_def read_list_def)
  from read_list_loop_viable [OF G this] True obtain r u t fs where
    r: "pos + 1 \<le> p" "segment l2src (pos + 1) p @ r = u @ t" "spaces u" "fragments t fs" by auto
  have "segment l2src pos p @ r @ [closing (l2src ! pos)] = [l2src ! pos] @ u @ t @ [closing (l2src ! pos)]"
    using segment_split [of pos "pos + 1" p l2src] segment_Suc [of pos l2src] True r by simp
  moreover have "\<exists>f. fragment1 ([l2src ! pos] @ u @ t @ [closing (l2src ! pos)]) f"
    using list [OF r(3,4)] clist [OF r(3,4)] slist [OF r(3,4)] True by (auto simp: opens_list_def closing_def)
  ultimately have "\<exists>f. fragment1 (segment l2src pos p @ (r @ [closing (l2src ! pos)])) f" by (simp only:)
  then show ?thesis using r(1) by (intro conjI) (simp, blast)
next
  case False
  have nt: "read_token_loop l2src c q l \<noteq> (Throw e :: ('x, frag \<times> nat) evaluation)" for c q l e
  proof (induction l2src c q l rule: read_token_loop.induct)
    case (1 s c pos l)
    then show ?case by (simp add: read_token_loop.simps [of s c] split: option.split)
  qed
  have "p = pos" using t False at nt
    by (auto simp: read_fragment1_def read_token_def throw_defs at_token_def split: if_splits)
  moreover have "char_entry (CHR ''j'') = Some (Ch (CHR ''j''))" using sugar_in_table by simp
  then have "fragment1 ''j'' (Lst [Ch (CHR ''j'')])" by (intro token) (simp_all add: isspace_def)
  ultimately show ?thesis by (metis append_Nil order_refl segment_empty)
qed

end


lemma viable_fragment2:
  assumes "viable_reader s rf fragment"
  shows "viable_reader s (read_fragment2 n rf s) fragment2"
proof -
  have gr: "grammar_reader s rf fragment" using assms by (rule viable_reader.axioms)
  have fr: "fragment_reader s rf" using gr by (rule grammar_reader.axioms)
  have g1: "grammar_reader s (read_fragment1 n rf s) fragment1"
    using fragment_reader.read_fragment1_ok [OF fr] grammar_reader.read_fragment1_text [OF gr refl]
    by (auto simp: grammar_reader_def grammar_reader_axioms_def fragment_reader_def intro: text_of_plain
        simp del: One_nat_def)
  have 1: "viable_reader s (read_fragment1 n rf s) fragment1"
    using g1 viable_reader.read_fragment1_viable [OF assms refl]
    by (simp add: viable_reader_def viable_reader_axioms_def)
  have "pos \<le> p \<and> (\<exists>r f. fragment2 (segment s pos p @ r) f)"
    if at: "at_token s pos" and t: "read_fragment2 n rf s pos = Throw (unexpected_character_error c (int p))" for pos c p
  proof (cases "read_fragment1 n rf s pos")
    case (Ret y)
    obtain x z where y: "y = (x, z)" by (cases y)
    note z = grammar_reader.advance [OF g1 at Ret [unfolded y]]
    note x = grammar_reader.read_fragment1_text [OF gr refl at Ret [unfolded y]]
    have "read_parts_loop n (read_fragment1 n rf s) s (CHR '';'') [x] z = Throw (unexpected_character_error c (int p))"
      using t Ret y by (simp add: read_fragment2_def)
    from viable_reader.read_parts_loop_viable [OF 1 this _ _ one_part [of fragment1, OF x], of pos "[]"] z
    show ?thesis by (auto intro: subsublist)
  next
    case (Throw e)
    then show ?thesis using t viable_reader.viable [OF 1 at, of c p] by (auto simp: read_fragment2_def intro: single2)
  qed (use t in \<open>simp_all add: read_fragment2_def\<close>)
  with grammar_reader_fragment2 [OF gr, of n] show ?thesis
    by (simp add: viable_reader_def viable_reader_axioms_def)
qed

lemma viable_read_fragment: "viable_reader s (read_fragment n s :: 'x reader) fragment"
proof (induction n)
  case 0
  have "grammar_reader s (read_fragment 0 s :: 'x reader) fragment" by (rule grammar_reader_read_fragment)
  then show ?case by (simp only: viable_reader_def viable_reader_axioms_def) simp
next
  case (Suc n)
  note 2 = viable_fragment2 [OF Suc, of n]
  have g2: "grammar_reader s (read_fragment2 n (read_fragment n s :: 'x reader) s) fragment2"
    using 2 by (rule viable_reader.axioms)
  have "pos \<le> p \<and> (\<exists>r f. fragment (segment s pos p @ r) f)"
    if at: "at_token s pos" and t: "(read_fragment (Suc n) s pos :: ('x, frag \<times> nat) evaluation) =
      Throw (unexpected_character_error c (int p))" for pos c p
  proof (cases "read_fragment2 n (read_fragment n s :: 'x reader) s pos")
    case (Ret y)
    obtain x z where y: "y = (x, z)" by (cases y)
    note z = grammar_reader.advance [OF g2 at Ret [unfolded y]]
    obtain a v where a: "segment s pos z = a @ v" "spaces v" "fragment2 a x"
      using grammar_reader.sound [OF g2 at Ret [unfolded y]] by (auto simp: text_of_def)
    have "read_parts_loop n (read_fragment2 n (read_fragment n s :: 'x reader) s) s (CHR '':'') [x] z =
        Throw (unexpected_character_error c (int p))"
      using t Ret y by simp
    from viable_reader.read_parts_loop_viable [OF 2 this _ _ one_part [of fragment2, OF a(3)], of pos v] z a
    show ?thesis by (auto intro: sublist)
  next
    case (Throw e)
    then show ?thesis using t viable_reader.viable [OF 2 at, of c p] by (auto intro: single)
  qed (use t in simp_all)
  moreover have "grammar_reader s (read_fragment (Suc n) s :: 'x reader) fragment" by (rule grammar_reader_read_fragment)
  ultimately show ?case by (simp only: viable_reader_def viable_reader_axioms_def) blast
qed

interpretation vi: viable_reader l2src "read_fragment n l2src" fragment
  by (rule viable_read_fragment)

subsection \<open>The first character that no fragment goes on with\<close>

lemma segment_full: "segment s pos (length s) = drop pos s"
  by (simp add: segment_def)

lemma not_begins:
  assumes "scan ([], Due) t = Some st" "scan_step st c = None"
  shows "\<not> begins_fragment (t @ [c])"
proof
  assume "begins_fragment (t @ [c])"
  then obtain r f where "fragment (t @ [c] @ r) f" by (auto simp: begins_fragment_def)
  then have "scan ([], Due) (t @ [c] @ r) = Some ([], Found)" using grammar_scan(3) by blast
  with assms show False by (simp add: scan_append)
qed

lemma not_text:
  assumes "scan ([], Due) t = Some st" "st \<noteq> ([], Found)"
  shows "\<not> is_fragment_text t"
proof
  assume "is_fragment_text t"
  then obtain m u f where "t = m @ u" "spaces u" "fragment m f" by (auto simp: is_fragment_text_def)
  then have "scan ([], Due) t = Some ([], Found)" using grammar_scan(3) by (simp add: scan_append scan_spaces)
  with assms show False by simp
qed

definition first_error :: "string \<Rightarrow> nat \<Rightarrow> 'x evaluate_error \<Rightarrow> bool" where
  "first_error s pos e \<longleftrightarrow> (\<exists>c p. e = unexpected_character_error c (int p) \<and> pos \<le> p \<and> begins_fragment (segment s pos p) \<and>
     (p < length s \<and> c = char_int (s ! p) \<and> \<not> begins_fragment (segment s pos (p + 1)) \<or>
      p = length s \<and> c = 0 \<and> \<not> is_fragment_text (segment s pos p)))"

lemma read_fragment_error:
  assumes at: "at_token s pos" and t: "read_fragment n s pos = (Throw e :: ('x, frag \<times> nat) evaluation)"
  shows "first_error s pos e"
proof -
  have "starts s pos ([], Due)" using at by (auto simp: starts_def stray_step)
  then have "scanned s pos ([], Due) {CHR '':'', CHR '';''} (read_fragment n s pos :: ('x, frag \<times> nat) evaluation)"
    by (rule sc.scans)
  with t obtain c p st where
    e: "e = unexpected_character_error c (int p)" "pos \<le> p" "p \<le> length s" "scan ([], Due) (segment s pos p) = Some st"
      "p = length s \<and> c = 0 \<and> st \<noteq> ([], Found) \<or> p < length s \<and> c = char_int (s ! p) \<and> scan_step st (s ! p) = None"
    by (auto simp: stuck_def)
  have b: "begins_fragment (segment s pos p)"
    using vi.viable [OF at t [unfolded e(1)]] unfolding begins_fragment_def by blast
  have "segment s pos (p + 1) = segment s pos p @ [s ! p]" if "p < length s"
    using segment_split [of pos p "p + 1" s] segment_Suc [OF that] e(2) by simp
  with e(5) not_begins [OF e(4)] not_text [OF e(4)] b e(1,2) show ?thesis
    unfolding first_error_def by (intro exI [of _ c] exI [of _ p]) auto
qed

text \<open>C2. With fuel for the rest of the source the reader returns a fragment and a later
position within the source, or throws an error that names the first character with which the
text from the start is no beginning of a fragment of the grammar any more, or the end of the
source when that text is a beginning but not a whole fragment. It reads outside of the character
table only for sources with bytes from 128 up.\<close>

lemma read_fragment_total:
  assumes "at_token s pos" "length s - pos < n"
  shows "case (read_fragment n s pos :: ('x, frag \<times> nat) evaluation) of
      Ret (f, q) \<Rightarrow> pos < q \<and> q \<le> length s \<and> well_formed f
    | Throw e \<Rightarrow> first_error s pos e
    | Undef \<Rightarrow> \<not> in_table s
    | NoFuel \<Rightarrow> False"
proof -
  have "returning_reader s (read_fragment n s :: 'x reader) pos"
    using assms by (intro returning_reader_read_fragment) simp
  note enough = returning_reader.returns [OF this assms(1) order_refl]
  have "read_ok s pos 1 (read_fragment n s pos :: ('x, frag \<times> nat) evaluation)"
    by (rule rd.reads [OF assms(1)])
  with enough read_fragment_error [OF assms(1), of n, where ?'x = 'x] show ?thesis
    by (cases "read_fragment n s pos :: ('x, frag \<times> nat) evaluation") auto
qed

lemma read_fragment_total_witness:
  "(read_fragment 10 ''((a) }'' 0 :: (unit, frag \<times> nat) evaluation) = Throw (unexpected_character_error (char_int (CHR ''}'')) 5) \<and>
    first_error ''((a) }'' 0 (unexpected_character_error (char_int (CHR ''}'')) 5 :: unit evaluate_error)"
proof -
  have r: "(read_fragment 10 ''((a) }'' 0 :: (unit, frag \<times> nat) evaluation) = Throw (unexpected_character_error (char_int (CHR ''}'')) 5)"
    by code_simp
  have "at_token ''((a) }'' 0" "length ''((a) }'' - 0 < 10" by (simp_all add: at_token_def isspace_def)
  from read_fragment_total [OF this, where ?'x = unit] r show ?thesis by simp
qed

lemma read_fragment_sound_witness:
  "\<exists>m u. ''{f:g (x)} '' = m @ u \<and> spaces u \<and> fragment m
     (Lst [Lst (map Ch ''jump''), Lst [Lst [Ch (CHR ''f'')], Lst [Ch (CHR ''g'')]], Lst [Lst [Ch (CHR ''x'')]]])"
proof -
  have "(read_fragment 12 ''{f:g (x)} '' 0 :: (unit, frag \<times> nat) evaluation) =
      Ret (Lst [Lst (map Ch ''jump''), Lst [Lst [Ch (CHR ''f'')], Lst [Ch (CHR ''g'')]], Lst [Lst [Ch (CHR ''x'')]]], 10)"
    by code_simp
  from read_fragment_sound [OF _ this] show ?thesis by (simp add: at_token_def isspace_def)
qed

end
