(* ===== verification/Expression_Syntax.thy ===== *)
theory Expression_Syntax
  imports Expressions Lexer
begin

text \<open>
  What \<open>build_expression\<close> promises: the relation \<open>denotes\<close> between fragments and expressions is
  the syntax of the language, and the builder returns the expression that a fragment denotes
  or throws a special form error when there is none.
\<close>

section \<open>Literals\<close>

definition binary_value :: "string \<Rightarrow> nat" where
  "binary_value str = foldl (\<lambda>n c. 2 * n + (if c = CHR ''1'' then 1 else 0)) 0 str"

definition binary :: "string \<Rightarrow> bool" where
  "binary str \<longleftrightarrow> list_all (\<lambda>c. c = CHR ''0'' \<or> c = CHR ''1'') str"

lemma literal_loop_spec:
  "literal_loop str (of_nat n) =
     (if binary str then Some (of_nat (foldl (\<lambda>n c. 2 * n + (if c = CHR ''1'' then 1 else 0)) n str)) else None)"
proof (induction str arbitrary: n)
  case (Cons c str)
  have 1: "push_bit 1 (of_nat n :: u64) = of_nat (2 * n)" by (simp add: push_bit_eq_mult)
  have 2: "push_bit 1 (of_nat n :: u64) + 1 = of_nat (2 * n + 1)" by (simp add: push_bit_eq_mult)
  show ?case
    using Cons.IH [of "2 * n"] Cons.IH [of "2 * n + 1"] by (simp only: literal_loop.simps Let_def 1 2) (simp add: binary_def add.commute)
qed (simp add: binary_def)

lemma literal_loop_value: "literal_loop str 0 = (if binary str then Some (of_nat (binary_value str)) else None)"
  using literal_loop_spec [of str 0] by (simp add: binary_value_def)

lemma binary_value_less: "binary_value str < 2 ^ length str"
proof (induction str rule: rev_induct)
  case (snoc c str)
  then show ?case by (simp add: binary_value_def)
qed (simp add: binary_value_def)

lemma binary_literal_exact:
  "length str = 64 \<Longrightarrow> unat (of_nat (binary_value str) :: u64) = binary_value str"
  using binary_value_less [of str] by (simp add: unat_of_nat)

section \<open>The syntax of expressions\<close>

definition tok :: "string \<Rightarrow> frag" where
  "tok s = Lst (map Ch s)"

definition special_words :: "string list" where
  "special_words = [''with'', ''if'', ''function'', ''continuation'', ''literal'', ''invoke'', ''jump'',
     ''storage'', ''constrain'']"

text \<open>
  The expression that a fragment denotes: the primitive expressions of the language, and meta
  expressions for every list that does not start with a keyword.
\<close>

inductive denotes :: "frag \<Rightarrow> expr \<Rightarrow> bool" where
  symbol: "s \<noteq> [] \<Longrightarrow> denotes (tok s) (Symbol a (Some s))"
| with_e: "is_token r \<Longrightarrow> denotes r ref \<Longrightarrow> denotes b ex \<Longrightarrow>
    denotes (Lst [tok ''with'', r, b]) (With a ref ex [Symbol p None])"
| if_e: "denotes c cnd \<Longrightarrow> denotes t con \<Longrightarrow> denotes e alt \<Longrightarrow>
    denotes (Lst [tok ''if'', c, t, e]) (If a cnd con alt)"
| function_e: "is_token r \<Longrightarrow> \<not> is_token (Lst vs) \<Longrightarrow> list_all is_token vs \<Longrightarrow> denotes r ref \<Longrightarrow>
    list_all2 denotes vs params \<Longrightarrow> denotes b ex \<Longrightarrow>
    denotes (Lst [tok ''function'', r, Lst vs, b]) (Function a ref ex params)"
| continuation_e: "is_token r \<Longrightarrow> \<not> is_token (Lst vs) \<Longrightarrow> list_all is_token vs \<Longrightarrow> denotes r ref \<Longrightarrow>
    list_all2 denotes vs params \<Longrightarrow> denotes b ex \<Longrightarrow>
    denotes (Lst [tok ''continuation'', r, Lst vs, b]) (Continuation a ref ex params)"
| literal: "length str = 64 \<Longrightarrow> binary str \<Longrightarrow>
    denotes (Lst [tok ''literal'', tok str]) (Literal a (of_nat (binary_value str)))"
| invoke: "denotes r ref \<Longrightarrow> list_all2 denotes vs args \<Longrightarrow>
    denotes (Lst (tok ''invoke'' # r # vs)) (Invoke a ref args)"
| jump: "denotes r ref \<Longrightarrow> list_all2 denotes vs args \<Longrightarrow>
    denotes (Lst (tok ''jump'' # r # vs)) (Jump a ref args)"
| storage: "is_token r \<Longrightarrow> denotes r ref \<Longrightarrow> list_all2 denotes vs args \<Longrightarrow>
    denotes (Lst (tok ''storage'' # r # vs)) (Storage a ref args)"
| constrain: "denotes b ex \<Longrightarrow> denotes r ref \<Longrightarrow>
    denotes (Lst [tok ''constrain'', b, r]) (Constrain a ref ex)"
| meta: "\<not> is_ch x \<Longrightarrow> x \<notin> tok ` set special_words \<Longrightarrow> denotes x ref \<Longrightarrow> denotes (Lst (x # xs)) (Meta a ref)"

text \<open>The bytes behind elements that are no characters are the low bytes of aligned pointers.\<close>

definition aligned :: "(frag \<Rightarrow> char) \<Rightarrow> bool" where
  "aligned lb \<longleftrightarrow> (\<forall>e. (of_char (lb e) :: nat) mod 8 = 0)"

lemma tok_inject [simp]: "tok a = tok b \<longleftrightarrow> a = b"
  by (simp add: tok_def inj_on_def inj_map_eq_map)

lemma is_token_tok [simp]: "is_token (tok s) \<longleftrightarrow> s \<noteq> []"
  by (cases s) (simp_all add: tok_def)

lemma is_ch_tok [simp]: "\<not> is_ch (tok s)"
  by (simp add: tok_def)

lemma kept_char_not_nul: "kept_char c \<Longrightarrow> c \<noteq> CHR 0x00"
  by (simp add: kept_char_def)

lemma to_string_tok: "list_all kept_char s \<Longrightarrow> to_string lb (tok s) = Some s"
  by (auto simp: tok_def list_all_iff comp_def dest: kept_char_not_nul intro!: takeWhile_eq_all_conv [THEN iffD2])

lemma printable_token:
  assumes "printable x" "is_token x"
  obtains s where "x = tok s" "s \<noteq> []" "list_all kept_char s" "to_string lb x = Some s"
proof -
  obtain d where d: "x = Lst d" using assms(1) by (cases x) auto
  with assms have "list_all kept_ch d" by (cases d) (auto elim: is_token.elims)
  then obtain s where "d = map Ch s" "list_all kept_char s" using kept_ch_map by blast
  with d assms(2) to_string_tok [of s lb] show ?thesis by (intro that [of s]; cases s) (simp_all add: tok_def)
qed

lemma keyword_head: "k \<in> set special_words \<Longrightarrow> k = c # cs \<Longrightarrow> (of_char c :: nat) mod 8 \<noteq> 0"
proof -
  have "list_all (\<lambda>k. (of_char (hd k) :: nat) mod 8 \<noteq> 0) special_words" by code_simp
  then show "k \<in> set special_words \<Longrightarrow> k = c # cs \<Longrightarrow> (of_char c :: nat) mod 8 \<noteq> 0"
    by (auto simp: list_all_iff)
qed

lemma printable_head:
  assumes "printable x" "aligned lb"
  obtains s where "to_string lb x = Some s" "\<And>k. k \<in> set special_words \<Longrightarrow> s = k \<longleftrightarrow> x = tok k"
proof (cases "is_token x")
  case True
  with assms(1) obtain s where "x = tok s" "to_string lb x = Some s" by (rule printable_token)
  then show ?thesis using that [of s] by auto
next
  case False
  obtain d where d: "x = Lst d" using assms(1) by (cases x) auto
  let ?s = "takeWhile (\<lambda>c. c \<noteq> CHR 0x00) (map (element_char lb) d)"
  have "?s \<noteq> k \<and> x \<noteq> tok k" if k: "k \<in> set special_words" for k
  proof -
    obtain c cs where c: "k = c # cs" using k by (auto simp: special_words_def)
    have "x \<noteq> tok k" using False c by auto
    moreover have "?s \<noteq> k"
    proof (cases d)
      case (Cons y ys)
      with False d have "\<not> is_ch y" by (cases y) auto
      then have "element_char lb y = lb y" by (cases y) auto
      moreover have "lb y \<noteq> c" using keyword_head [OF k c] assms(2) by (auto simp: aligned_def)
      ultimately show ?thesis using Cons c by auto
    qed (use c in simp)
    ultimately show ?thesis by blast
  qed
  with d that [of ?s] show ?thesis by auto
qed

lemma tok_not_Ch [simp]: "tok s \<noteq> Ch c" "Ch c \<noteq> tok s"
  by (simp_all add: tok_def)

lemma tok_not_Cons: "\<not> is_ch h \<Longrightarrow> tok s \<noteq> Lst (h # xs)" "\<not> is_ch h \<Longrightarrow> Lst (h # xs) \<noteq> tok s"
  by (cases s; auto simp: tok_def)+

inductive_simps denotes_Lst: "denotes (Lst (h # xs)) e"

lemmas denotes_form = denotes_Lst special_words_def tok_not_Cons

lemma denotes_nothing [simp]: "\<not> denotes (Var a) e" "\<not> denotes (Ch c) e" "\<not> denotes (Lst []) e"
  by (auto simp: tok_def elim: denotes.cases)

lemma denotes_with: "denotes (Lst (tok ''with'' # xs)) e \<longleftrightarrow>
  (\<exists>a r b ref ex p. xs = [r, b] \<and> is_token r \<and> denotes r ref \<and> denotes b ex \<and> e = With a ref ex [Symbol p None])"
  by (auto simp: denotes_form)

lemma denotes_if: "denotes (Lst (tok ''if'' # xs)) e \<longleftrightarrow>
  (\<exists>a x y z c t u. xs = [x, y, z] \<and> denotes x c \<and> denotes y t \<and> denotes z u \<and> e = If a c t u)"
  by (auto simp: denotes_form)

lemma denotes_function: "denotes (Lst (tok ''function'' # xs)) e \<longleftrightarrow>
  (\<exists>a r vs b ref ex ps. xs = [r, Lst vs, b] \<and> is_token r \<and> \<not> is_token (Lst vs) \<and> list_all is_token vs \<and>
     denotes r ref \<and> list_all2 denotes vs ps \<and> denotes b ex \<and> e = Function a ref ex ps)"
  by (auto simp: denotes_form)

lemma denotes_continuation: "denotes (Lst (tok ''continuation'' # xs)) e \<longleftrightarrow>
  (\<exists>a r vs b ref ex ps. xs = [r, Lst vs, b] \<and> is_token r \<and> \<not> is_token (Lst vs) \<and> list_all is_token vs \<and>
     denotes r ref \<and> list_all2 denotes vs ps \<and> denotes b ex \<and> e = Continuation a ref ex ps)"
  by (auto simp: denotes_form)

lemma denotes_literal: "denotes (Lst (tok ''literal'' # xs)) e \<longleftrightarrow>
  (\<exists>a str. xs = [tok str] \<and> length str = 64 \<and> binary str \<and> e = Literal a (of_nat (binary_value str)))"
  by (auto simp: denotes_form)

lemma denotes_invoke: "denotes (Lst (tok ''invoke'' # xs)) e \<longleftrightarrow>
  (\<exists>a r vs ref as. xs = r # vs \<and> denotes r ref \<and> list_all2 denotes vs as \<and> e = Invoke a ref as)"
  by (auto simp: denotes_form)

lemma denotes_jump: "denotes (Lst (tok ''jump'' # xs)) e \<longleftrightarrow>
  (\<exists>a r vs ref as. xs = r # vs \<and> denotes r ref \<and> list_all2 denotes vs as \<and> e = Jump a ref as)"
  by (auto simp: denotes_form)

lemma denotes_storage: "denotes (Lst (tok ''storage'' # xs)) e \<longleftrightarrow>
  (\<exists>a r vs ref as. xs = r # vs \<and> is_token r \<and> denotes r ref \<and> list_all2 denotes vs as \<and> e = Storage a ref as)"
  by (auto simp: denotes_form)

lemma denotes_constrain: "denotes (Lst (tok ''constrain'' # xs)) e \<longleftrightarrow>
  (\<exists>a b r ex ref. xs = [b, r] \<and> denotes b ex \<and> denotes r ref \<and> e = Constrain a ref ex)"
  by (auto simp: denotes_form)

lemma denotes_meta: "\<not> is_ch h \<Longrightarrow> h \<notin> tok ` set special_words \<Longrightarrow>
  denotes (Lst (h # xs)) e \<longleftrightarrow> (\<exists>a ref. denotes h ref \<and> e = Meta a ref)"
  by (auto simp: denotes_form)

section \<open>Building follows the syntax\<close>

fun parts :: "frag \<Rightarrow> frag set" where
  "parts (Lst d) = insert (Lst d) (\<Union>t \<in> set d. parts t)"
| "parts t = {t}"

lemma parts_self: "t \<in> parts t"
  by (cases t) auto

text \<open>A build of \<open>f\<close> returns what \<open>f\<close> denotes, or throws an error about a part of \<open>f\<close> when it
  denotes nothing; lists of fragments likewise.\<close>

fun builds :: "frag \<Rightarrow> ('x, expr \<times> 's world) evaluation \<Rightarrow> bool" where
  "builds f (Ret (e, w)) = denotes f e"
| "builds f (Throw err) = ((\<nexists>e. denotes f e) \<and> (\<exists>d s. err = special_form_error d s \<and> d \<in> parts f))"
| "builds f Undef = False"
| "builds f NoFuel = False"

fun builds_all :: "(frag \<Rightarrow> bool) \<Rightarrow> frag \<Rightarrow> frag list \<Rightarrow> ('x, expr list \<times> 's world) evaluation \<Rightarrow> bool" where
  "builds_all P f vs (Ret (es, w)) = (list_all P vs \<and> list_all2 denotes vs es)"
| "builds_all P f vs (Throw err) = ((\<nexists>es. list_all P vs \<and> list_all2 denotes vs es) \<and>
     (\<exists>d s. err = special_form_error d s \<and> d \<in> parts f))"
| "builds_all P f vs Undef = False"
| "builds_all P f vs NoFuel = False"

lemma builds_bindO:
  assumes "builds r R" "parts r \<subseteq> parts f" "\<And>e w. denotes r e \<Longrightarrow> builds f (k (e, w))"
    "\<And>e. denotes f e \<Longrightarrow> \<exists>e'. denotes r e'"
  shows "builds f (bindO R k)"
  using assms by (cases "(r, R)" rule: builds.cases) auto

lemma builds_all_bindO:
  assumes "builds_all P f vs R" "\<And>es w. list_all P vs \<Longrightarrow> list_all2 denotes vs es \<Longrightarrow> builds f (k (es, w))"
    "\<And>e. denotes f e \<Longrightarrow> \<exists>es. list_all P vs \<and> list_all2 denotes vs es"
  shows "builds f (bindO R k)"
  using assms by (cases "(P, f, vs, R)" rule: builds_all.cases) auto

lemma builds_Ret: "denotes f (fst p) \<Longrightarrow> builds f (Ret p)"
  by (cases p) simp

lemma builds_throw: "(\<And>e. \<not> denotes f e) \<Longrightarrow> builds f (throw_special_form f s)"
  by (simp add: throw_special_form_def parts_self)

lemma make_fst:
  "\<exists>a. fst (make_symbol alloc n fr mt w) = Symbol a n"
  "\<exists>a. fst (make_literal alloc v fr mt w) = Literal a v"
  "\<exists>a p. fst (make_with alloc ref ex fr mt w) = With a ref ex [Symbol p None]"
  "\<exists>a. fst (make_if alloc c t u fr mt w) = If a c t u"
  "\<exists>a. fst (make_function alloc ref ps ex fr mt w) = Function a ref ex ps"
  "\<exists>a. fst (make_continuation alloc ref ps ex fr mt w) = Continuation a ref ex ps"
  "\<exists>a. fst (make_invoke alloc ref as fr mt w) = Invoke a ref as"
  "\<exists>a. fst (make_jump alloc ref as fr mt w) = Jump a ref as"
  "\<exists>a. fst (make_storage alloc ref as fr mt w) = Storage a ref as"
  "\<exists>a. fst (make_constrain alloc ex ref fr mt w) = Constrain a ref ex"
  "\<exists>a. fst (make_meta alloc ref fr mt w) = Meta a ref"
  by (simp_all add: make_symbol_def make_literal_def make_with_def make_if_def make_function_def
      make_continuation_def make_invoke_def make_jump_def make_storage_def make_constrain_def
      make_meta_def Let_def split: prod.split)

lemma build_arguments_builds:
  assumes "\<And>x w. x \<in> set vs \<Longrightarrow> builds x (build_expression lb alloc mt x w :: ('x, expr \<times> 's world) evaluation)"
    and "\<And>x. x \<in> set vs \<Longrightarrow> parts x \<subseteq> parts f"
  shows "builds_all (\<lambda>_. True) f vs (build_arguments lb alloc mt vs w :: ('x, expr list \<times> 's world) evaluation)"
  using assms
proof (induction vs arbitrary: w)
  case (Cons v vs)
  note v = Cons.prems(1) [of v w, simplified]
  note vs = Cons.IH [OF Cons.prems, simplified]
  show ?case
  proof (cases "(v, build_expression lb alloc mt v w :: ('x, expr \<times> 's world) evaluation)" rule: builds.cases)
    case (1 g e w1)
    then show ?thesis
      using v vs [of w1]
      by (cases "(\<lambda>_ :: frag. True, f, vs, build_arguments lb alloc mt vs w1 :: ('x, expr list \<times> 's world) evaluation)" rule: builds_all.cases)
        (auto simp: list_all2_Cons1)
  next
    case (2 g err)
    then show ?thesis using v Cons.prems(2) [of v] by (auto simp: list_all2_Cons1, blast)
  qed (use v in auto)
qed simp

lemma build_parameters_builds:
  assumes "\<And>x w. x \<in> set vs \<Longrightarrow> builds x (build_expression lb alloc mt x w :: ('x, expr \<times> 's world) evaluation)"
    and "\<And>x. x \<in> set vs \<Longrightarrow> parts x \<subseteq> parts f"
  shows "builds_all is_token f vs (build_parameters lb alloc mt f vs w :: ('x, expr list \<times> 's world) evaluation)"
  using assms
proof (induction vs arbitrary: w)
  case (Cons v vs)
  note v = Cons.prems(1) [of v w, simplified]
  note vs = Cons.IH [OF Cons.prems, simplified]
  show ?case
  proof (cases "is_token v")
    case True
    show ?thesis
    proof (cases "(v, build_expression lb alloc mt v w :: ('x, expr \<times> 's world) evaluation)" rule: builds.cases)
      case (1 g e w1)
      then show ?thesis
        using v vs [of w1] True
        by (cases "(is_token, f, vs, build_parameters lb alloc mt f vs w1 :: ('x, expr list \<times> 's world) evaluation)" rule: builds_all.cases)
          (auto simp: list_all2_Cons1)
    next
      case (2 g err)
      then show ?thesis using v Cons.prems(2) [of v] True by (auto simp: list_all2_Cons1, blast)
    qed (use v True in auto)
  next
    case False
    then show ?thesis by (simp add: throw_special_form_def parts_self)
  qed
qed simp

text \<open>One lemma per form: the branch of \<open>build_expression\<close> for the form, given the builds of the
  parts, the syntax of the form and the node that its \<open>make_\<close> function makes.\<close>

lemma builds_two:
  assumes IH: "\<And>x w. x \<in> set xs \<Longrightarrow> builds x (build_expression lb alloc mt x w :: ('x, expr \<times> 's world) evaluation)"
    and f: "f = Lst (tok k # xs)"
    and form: "\<And>e. denotes f e \<longleftrightarrow> (\<exists>x y c d. xs = [x, y] \<and> (Q \<longrightarrow> is_token x) \<and> denotes x c \<and> denotes y d \<and> node c d e)"
    and mk: "\<And>c d w. node c d (fst (mk c d w))"
  shows "builds f (case xs of [x, y] \<Rightarrow>
             if Q \<and> \<not> is_token x then throw_special_form f (Some x)
             else bindO (build_expression lb alloc mt x w) (\<lambda>(c, w1).
                  bindO (build_expression lb alloc mt y w1) (\<lambda>(d, w2).
                  (Ret (mk c d w2) :: ('x, expr \<times> 's world) evaluation)))
           | _ \<Rightarrow> throw_special_form f None)"
proof (cases "\<exists>x y. xs = [x, y] \<and> (Q \<longrightarrow> is_token x)")
  case True
  then obtain x y where xs: "xs = [x, y]" "Q \<longrightarrow> is_token x" by blast
  have ps: "parts x \<subseteq> parts f" "parts y \<subseteq> parts f" using xs f by auto
  have ex: "(\<exists>c. denotes x c) \<and> (\<exists>d. denotes y d)" if "denotes f e" for e using that xs by (auto simp: form)
  have "builds f (bindO (build_expression lb alloc mt x w) (\<lambda>(c, w1).
        bindO (build_expression lb alloc mt y w1) (\<lambda>(d, w2).
        (Ret (mk c d w2) :: ('x, expr \<times> 's world) evaluation))))"
  proof (rule builds_bindO [OF IH], unfold prod.case)
    fix c w1 assume c: "denotes x c"
    show "builds f (bindO (build_expression lb alloc mt y w1) (\<lambda>(d, w2).
        (Ret (mk c d w2) :: ('x, expr \<times> 's world) evaluation)))"
    proof (rule builds_bindO [OF IH], unfold prod.case)
      fix d w2 assume "denotes y d"
      then show "builds f (Ret (mk c d w2))"
        using c xs mk [of c d w2] by (intro builds_Ret) (auto simp: form)
    qed (use xs ps ex in auto)
  qed (use xs ps ex in auto)
  then show ?thesis using xs by auto
next
  case False
  then have "\<not> denotes f e" for e by (auto simp: form)
  with False show ?thesis by (auto split: list.split intro: builds_throw)
qed

lemma builds_if:
  assumes IH: "\<And>x w. x \<in> set xs \<Longrightarrow> builds x (build_expression lb alloc mt x w :: ('x, expr \<times> 's world) evaluation)"
    and f: "f = Lst (tok ''if'' # xs)"
  shows "builds f (case xs of [c, t, u] \<Rightarrow>
             bindO (build_expression lb alloc mt c w) (\<lambda>(cnd, w1).
             bindO (build_expression lb alloc mt t w1) (\<lambda>(con, w2).
             bindO (build_expression lb alloc mt u w2) (\<lambda>(alt, w3).
             (Ret (make_if alloc cnd con alt (Some f) mt w3) :: ('x, expr \<times> 's world) evaluation))))
           | _ \<Rightarrow> throw_special_form f None)"
proof (cases "\<exists>c t u. xs = [c, t, u]")
  case True
  then obtain c t u where xs: "xs = [c, t, u]" by blast
  have "builds f (bindO (build_expression lb alloc mt c w) (\<lambda>(cnd, w1).
        bindO (build_expression lb alloc mt t w1) (\<lambda>(con, w2).
        bindO (build_expression lb alloc mt u w2) (\<lambda>(alt, w3).
        (Ret (make_if alloc cnd con alt (Some f) mt w3) :: ('x, expr \<times> 's world) evaluation)))))"
  proof (rule builds_bindO [OF IH], unfold prod.case)
    fix cnd w1 assume 1: "denotes c cnd"
    show "builds f (bindO (build_expression lb alloc mt t w1) (\<lambda>(con, w2).
        bindO (build_expression lb alloc mt u w2) (\<lambda>(alt, w3).
        (Ret (make_if alloc cnd con alt (Some f) mt w3) :: ('x, expr \<times> 's world) evaluation))))"
    proof (rule builds_bindO [OF IH], unfold prod.case)
      fix con w2 assume 2: "denotes t con"
      show "builds f (bindO (build_expression lb alloc mt u w2) (\<lambda>(alt, w3).
        (Ret (make_if alloc cnd con alt (Some f) mt w3) :: ('x, expr \<times> 's world) evaluation)))"
      proof (rule builds_bindO [OF IH], unfold prod.case)
        fix alt w3 assume "denotes u alt"
        then show "builds f (Ret (make_if alloc cnd con alt (Some f) mt w3))"
          using 1 2 xs make_fst(4) [of alloc cnd con alt "Some f" mt w3]
          by (intro builds_Ret) (auto simp: f denotes_if)
      qed (use xs in \<open>auto simp: f denotes_if\<close>)
    qed (use xs in \<open>auto simp: f denotes_if\<close>)
  qed (use xs in \<open>auto simp: f denotes_if\<close>)
  then show ?thesis using xs by simp
next
  case False
  then have "\<not> denotes f e" for e by (auto simp: f denotes_if)
  with False show ?thesis by (auto split: list.split intro: builds_throw)
qed

lemma builds_procedure:
  assumes IH: "\<And>x w. x \<in> set xs \<Longrightarrow> builds x (build_expression lb alloc mt x w :: ('x, expr \<times> 's world) evaluation)"
    and IHs: "\<And>vs x w. Lst vs \<in> set xs \<Longrightarrow> \<not> is_token (Lst vs) \<Longrightarrow> x \<in> set vs \<Longrightarrow> builds x (build_expression lb alloc mt x w :: ('x, expr \<times> 's world) evaluation)"
    and lists: "\<forall>x \<in> set xs. printable x"
    and f: "f = Lst (tok k # xs)"
    and form: "\<And>e. denotes f e \<longleftrightarrow> (\<exists>a r vs b ref ex ps. xs = [r, Lst vs, b] \<and> is_token r \<and> \<not> is_token (Lst vs) \<and>
       list_all is_token vs \<and> denotes r ref \<and> list_all2 denotes vs ps \<and> denotes b ex \<and> e = con a ref ex ps)"
    and mk: "\<And>ref ps ex w. \<exists>a. fst (mk ref ps ex w) = con a ref ex ps"
  shows "builds f (case xs of [r, ps, b] \<Rightarrow>
             if \<not> is_token r then throw_special_form f (Some r)
             else if is_token ps then throw_special_form f (Some ps)
             else (case ps of Var v \<Rightarrow> NoFuel | Ch c \<Rightarrow> Undef | Lst vs \<Rightarrow>
               bindO (build_parameters lb alloc mt f vs w) (\<lambda>(params, w1).
               bindO (build_expression lb alloc mt r w1) (\<lambda>(ref, w2).
               bindO (build_expression lb alloc mt b w2) (\<lambda>(ex, w3).
               (Ret (mk ref params ex w3) :: ('x, expr \<times> 's world) evaluation)))))
           | _ \<Rightarrow> throw_special_form f None)"
proof (cases "\<exists>r vs b. xs = [r, Lst vs, b] \<and> is_token r \<and> \<not> is_token (Lst vs)")
  case True
  then obtain r vs b where xs: "xs = [r, Lst vs, b]" "is_token r" "\<not> is_token (Lst vs)" by blast
  have ps: "parts r \<subseteq> parts f" "parts b \<subseteq> parts f" "\<And>x. x \<in> set vs \<Longrightarrow> parts x \<subseteq> parts f"
    using xs f by auto
  have ex: "(\<exists>e'. denotes r e') \<and> (\<exists>e'. denotes b e') \<and> (\<exists>es. list_all is_token vs \<and> list_all2 denotes vs es)"
    if "denotes f e" for e using that xs by (auto simp: form)
  have "builds f (bindO (build_parameters lb alloc mt f vs w) (\<lambda>(params, w1).
        bindO (build_expression lb alloc mt r w1) (\<lambda>(ref, w2).
        bindO (build_expression lb alloc mt b w2) (\<lambda>(ex, w3).
        (Ret (mk ref params ex w3) :: ('x, expr \<times> 's world) evaluation)))))"
  proof (rule builds_all_bindO [OF build_parameters_builds], unfold prod.case)
    fix ps w1 assume 1: "list_all is_token vs" "list_all2 denotes vs ps"
    show "builds f (bindO (build_expression lb alloc mt r w1) (\<lambda>(ref, w2).
        bindO (build_expression lb alloc mt b w2) (\<lambda>(ex, w3).
        (Ret (mk ref ps ex w3) :: ('x, expr \<times> 's world) evaluation))))"
    proof (rule builds_bindO [OF IH], unfold prod.case)
      fix ref w2 assume 2: "denotes r ref"
      show "builds f (bindO (build_expression lb alloc mt b w2) (\<lambda>(ex, w3).
        (Ret (mk ref ps ex w3) :: ('x, expr \<times> 's world) evaluation)))"
      proof (rule builds_bindO [OF IH], unfold prod.case)
        fix ex w3 assume "denotes b ex"
        then show "builds f (Ret (mk ref ps ex w3))"
          using 1 2 xs mk [of ref ps ex w3] by (intro builds_Ret) (auto simp: form)
      qed (use xs \<open>parts b \<subseteq> parts f\<close> ex in auto)
    qed (use xs \<open>parts r \<subseteq> parts f\<close> ex in auto)
  qed (use xs ps ex IHs [of vs] in auto)
  then show ?thesis using xs by simp
next
  case False
  then have no: "\<not> denotes f e" for e by (auto simp: form)
  show ?thesis
  proof (cases "\<exists>r ps b. xs = [r, ps, b]")
    case True
    then obtain r ps b where xs: "xs = [r, ps, b]" by blast
    with lists have "printable ps" by simp
    with False xs no show ?thesis by (cases ps) (auto intro: builds_throw)
  next
    case False
    with no show ?thesis by (auto split: list.split intro: builds_throw)
  qed
qed

lemma builds_literal:
  assumes lits: "\<And>x. x \<in> set xs \<Longrightarrow> printable x"
    and f: "f = Lst (tok ''literal'' # xs)"
  shows "builds f (case xs of [v] \<Rightarrow>
             if \<not> is_token v then throw_special_form f (Some v)
             else (case to_string lb v of None \<Rightarrow> NoFuel | Some str \<Rightarrow>
               if length str \<noteq> WORD_BIN_LEN then throw_special_form f (Some v)
               else (case literal_loop str 0 of None \<Rightarrow> throw_special_form f (Some v)
                     | Some n \<Rightarrow> (Ret (make_literal alloc n (Some f) mt w) :: ('x, expr \<times> 's world) evaluation)))
           | _ \<Rightarrow> throw_special_form f None)"
proof (cases "\<exists>v. xs = [v] \<and> is_token v")
  case True
  then obtain v where v: "xs = [v]" "is_token v" by blast
  obtain str where str: "v = tok str" "to_string lb v = Some str"
    using printable_token [OF lits v(2)] v(1) by auto
  show ?thesis
  proof (cases "length str = 64 \<and> binary str")
    case True
    then show ?thesis
      using v str make_fst(2) [of alloc "of_nat (binary_value str)" "Some f" mt w]
      by (auto simp: WORD_BIN_LEN_def literal_loop_value f denotes_literal intro!: builds_Ret)
  next
    case False
    then have "\<not> denotes f e" for e using v str by (auto simp: f denotes_literal)
    with False v str show ?thesis by (auto simp: WORD_BIN_LEN_def literal_loop_value intro: builds_throw)
  qed
next
  case False
  then have "\<not> denotes f e" for e by (auto simp: f denotes_literal)
  with False show ?thesis by (auto split: list.split intro: builds_throw)
qed

lemma builds_call:
  assumes IH: "\<And>x w. x \<in> set xs \<Longrightarrow> builds x (build_expression lb alloc mt x w :: ('x, expr \<times> 's world) evaluation)"
    and f: "f = Lst (tok k # xs)"
    and form: "\<And>e. denotes f e \<longleftrightarrow> (\<exists>a r vs ref as. xs = r # vs \<and> (Q \<longrightarrow> is_token r) \<and> denotes r ref \<and>
       list_all2 denotes vs as \<and> e = con a ref as)"
    and mk: "\<And>ref as w. \<exists>a. fst (mk ref as w) = con a ref as"
  shows "builds f (case xs of r # as \<Rightarrow>
             if Q \<and> \<not> is_token r then throw_special_form f (Some r)
             else bindO (build_arguments lb alloc mt as w) (\<lambda>(args, w1).
                  bindO (build_expression lb alloc mt r w1) (\<lambda>(ref, w2).
                  (Ret (mk ref args w2) :: ('x, expr \<times> 's world) evaluation)))
           | _ \<Rightarrow> throw_special_form f None)"
proof (cases "\<exists>r vs. xs = r # vs \<and> (Q \<longrightarrow> is_token r)")
  case True
  then obtain r vs where xs: "xs = r # vs" "Q \<longrightarrow> is_token r" by blast
  have ps: "parts r \<subseteq> parts f" "\<And>x. x \<in> set vs \<Longrightarrow> parts x \<subseteq> parts f" using xs f by auto
  have ex: "(\<exists>e'. denotes r e') \<and> (\<exists>es. list_all2 denotes vs es)" if "denotes f e" for e
    using that xs by (auto simp: form)
  have "builds f (bindO (build_arguments lb alloc mt vs w) (\<lambda>(args, w1).
        bindO (build_expression lb alloc mt r w1) (\<lambda>(ref, w2).
        (Ret (mk ref args w2) :: ('x, expr \<times> 's world) evaluation))))"
  proof (rule builds_all_bindO [OF build_arguments_builds], unfold prod.case)
    fix as w1 assume 1: "list_all2 denotes vs as"
    show "builds f (bindO (build_expression lb alloc mt r w1) (\<lambda>(ref, w2).
        (Ret (mk ref as w2) :: ('x, expr \<times> 's world) evaluation)))"
    proof (rule builds_bindO [OF IH], unfold prod.case)
      fix ref w2 assume "denotes r ref"
      then show "builds f (Ret (mk ref as w2))"
        using 1 xs mk [of ref as w2] by (intro builds_Ret) (auto simp: form)
    qed (use xs ps ex in auto)
  qed (use xs ps ex IH in \<open>auto simp: list_all_iff\<close>)
  then show ?thesis using xs by auto
next
  case False
  then have "\<not> denotes f e" for e by (auto simp: form)
  with False show ?thesis by (auto split: list.split intro: builds_throw)
qed

lemma special_word_cases:
  "s \<in> set special_words \<Longrightarrow> s = ''with'' \<or> s = ''if'' \<or> s = ''function'' \<or> s = ''continuation'' \<or>
     s = ''literal'' \<or> s = ''invoke'' \<or> s = ''jump'' \<or> s = ''storage'' \<or> s = ''constrain''"
  by (simp only: special_words_def list.set insert_iff empty_iff simp_thms)

lemma build_expression_builds:
  assumes "aligned lb"
  shows "printable f \<Longrightarrow> builds f (build_expression lb alloc mt f w :: ('x, expr \<times> 's world) evaluation)"
proof (induction "size f" arbitrary: f w rule: less_induct)
  case less
  obtain d where f: "f = Lst d" using less.prems by (cases f) auto
  show ?case
  proof (cases "is_token f")
    case True
    then obtain s where s: "f = tok s" "s \<noteq> []" "to_string lb f = Some s"
      using printable_token [OF less.prems] by metis
    have "d \<noteq> []" using True f by auto
    moreover have "builds f (Ret (make_symbol alloc (Some s) (Some f) mt w) :: ('x, expr \<times> 's world) evaluation)"
      using make_fst(1) [of alloc "Some s" "Some f" mt w] s by (intro builds_Ret) (auto intro: denotes.symbol)
    ultimately show ?thesis using True s(3) f by simp
  next
    case False
    show ?thesis
    proof (cases d)
      case Nil
      then have "\<not> denotes f e" for e using f by simp
      with Nil f show ?thesis by (simp add: builds_throw)
    next
      case (Cons h xs)
      have all: "list_all printable d" using less.prems False f Cons by (cases h) auto
      then have h: "printable h" "\<not> is_ch h" using Cons by (auto elim: is_ch.elims)
      obtain s where s: "to_string lb h = Some s" "\<And>k. k \<in> set special_words \<Longrightarrow> s = k \<longleftrightarrow> h = tok k"
        using printable_head [OF h(1) assms] by metis
      have IH: "builds x (build_expression lb alloc mt x w :: ('x, expr \<times> 's world) evaluation)" if "x \<in> set d" for x w
        using that all size_element [OF that] f by (intro less.hyps) (auto simp: list_all_iff)
      then have IHx: "builds x (build_expression lb alloc mt x w :: ('x, expr \<times> 's world) evaluation)" if "x \<in> set xs" for x w
        using that Cons by simp
      have IHs: "builds x (build_expression lb alloc mt x w :: ('x, expr \<times> 's world) evaluation)"
        if "Lst vs \<in> set xs" "\<not> is_token (Lst vs)" "x \<in> set vs" for vs x w
      proof (rule less.hyps)
        have "size x < size (Lst vs)" "size (Lst vs) < size (Lst d)"
          using size_element [of x vs] size_element [of "Lst vs" d] that Cons by simp_all
        then show "size x < size f" using f by simp
        have "printable (Lst vs)" using that(1) all Cons by (simp add: list_all_iff del: printable.simps)
        then show "printable x" using that(2,3) by (cases vs; cases "hd vs") (auto simp: list_all_iff)
      qed
      have nv: "Var v \<notin> set xs" "Ch c \<notin> set xs" for v c using all Cons by (auto simp: list_all_iff)
      have pr: "printable x" if "x \<in> set xs" for x using that all Cons by (simp add: list_all_iff)
      have nt: "\<not> is_token (Lst (h # xs))" using False f Cons by simp
      note sf = f Cons s(1) nt
      consider "h \<in> tok ` set special_words" | "h \<notin> tok ` set special_words" by blast
      then show ?thesis
      proof cases
        case 1
        then have k: "s \<in> set special_words" "h = tok s" using s(2) by auto
        have fk: "f = Lst (tok s # xs)" using f Cons k by simp
        from special_word_cases [OF k(1)] show ?thesis
        proof (elim disjE)
          assume s': "s = ''with''"
          have form: "denotes f e \<longleftrightarrow> (\<exists>x y c d. xs = [x, y] \<and> (True \<longrightarrow> is_token x) \<and> denotes x c \<and> denotes y d \<and> (\<exists>a p. e = With a c d [Symbol p None]))" for e
            unfolding fk s' denotes_with by blast
          have mk: "\<exists>a p. fst (make_with alloc c d (Some f) mt w) = With a c d [Symbol p None]" for c d w
            using make_fst(3) by blast
          show ?thesis
            using builds_two [where mk = "\<lambda>c d. make_with alloc c d (Some f) mt" and w = w, OF IHx fk form mk]
            unfolding f Cons s' simp_thms if_False by (simp add: s(1) s' nt)
        next
          assume s': "s = ''if''"
          show ?thesis
            using builds_if [OF IHx fk [unfolded s'], where w = w]
            unfolding f Cons s' simp_thms if_False by (simp add: s(1) s' nt)
        next
          assume s': "s = ''function''"
          have form: "denotes f e \<longleftrightarrow> (\<exists>a r vs b ref ex ps. xs = [r, Lst vs, b] \<and> is_token r \<and> \<not> is_token (Lst vs) \<and> list_all is_token vs \<and> denotes r ref \<and> list_all2 denotes vs ps \<and> denotes b ex \<and> e = Function a ref ex ps)" for e
            unfolding fk s' denotes_function by blast
          have mk: "\<exists>a. fst (make_function alloc ref ps ex (Some f) mt w) = Function a ref ex ps" for ref ps ex w
            using make_fst(5) by blast
          show ?thesis
            using builds_procedure [where mk = "\<lambda>ref ps ex. make_function alloc ref ps ex (Some f) mt" and w = w, OF IHx IHs _ fk form mk] pr
            unfolding f Cons s' simp_thms if_False by (simp add: s(1) s' nt)
        next
          assume s': "s = ''continuation''"
          have form: "denotes f e \<longleftrightarrow> (\<exists>a r vs b ref ex ps. xs = [r, Lst vs, b] \<and> is_token r \<and> \<not> is_token (Lst vs) \<and> list_all is_token vs \<and> denotes r ref \<and> list_all2 denotes vs ps \<and> denotes b ex \<and> e = Continuation a ref ex ps)" for e
            unfolding fk s' denotes_continuation by blast
          have mk: "\<exists>a. fst (make_continuation alloc ref ps ex (Some f) mt w) = Continuation a ref ex ps" for ref ps ex w
            using make_fst(6) by blast
          show ?thesis
            using builds_procedure [where mk = "\<lambda>ref ps ex. make_continuation alloc ref ps ex (Some f) mt" and w = w, OF IHx IHs _ fk form mk] pr
            unfolding f Cons s' simp_thms if_False by (simp add: s(1) s' nt)
        next
          assume s': "s = ''literal''"
          show ?thesis
            using builds_literal [OF pr fk [unfolded s'], where w = w]
            unfolding f Cons s' simp_thms if_False by (simp add: s(1) s' nt)
        next
          assume s': "s = ''invoke''"
          have form: "denotes f e \<longleftrightarrow> (\<exists>a r vs ref as. xs = r # vs \<and> (False \<longrightarrow> is_token r) \<and> denotes r ref \<and> list_all2 denotes vs as \<and> e = Invoke a ref as)" for e
            unfolding fk s' denotes_invoke by blast
          have mk: "\<exists>a. fst (make_invoke alloc ref as (Some f) mt w) = Invoke a ref as" for ref as w
            using make_fst(7) by blast
          show ?thesis
            using builds_call [where mk = "\<lambda>ref as. make_invoke alloc ref as (Some f) mt" and w = w, OF IHx fk form mk]
            unfolding f Cons s' simp_thms if_False by (simp add: s(1) s' nt)
        next
          assume s': "s = ''jump''"
          have form: "denotes f e \<longleftrightarrow> (\<exists>a r vs ref as. xs = r # vs \<and> (False \<longrightarrow> is_token r) \<and> denotes r ref \<and> list_all2 denotes vs as \<and> e = Jump a ref as)" for e
            unfolding fk s' denotes_jump by blast
          have mk: "\<exists>a. fst (make_jump alloc ref as (Some f) mt w) = Jump a ref as" for ref as w
            using make_fst(8) by blast
          show ?thesis
            using builds_call [where mk = "\<lambda>ref as. make_jump alloc ref as (Some f) mt" and w = w, OF IHx fk form mk]
            unfolding f Cons s' simp_thms if_False by (simp add: s(1) s' nt)
        next
          assume s': "s = ''storage''"
          have form: "denotes f e \<longleftrightarrow> (\<exists>a r vs ref as. xs = r # vs \<and> (True \<longrightarrow> is_token r) \<and> denotes r ref \<and> list_all2 denotes vs as \<and> e = Storage a ref as)" for e
            unfolding fk s' denotes_storage by blast
          have mk: "\<exists>a. fst (make_storage alloc ref as (Some f) mt w) = Storage a ref as" for ref as w
            using make_fst(9) by blast
          show ?thesis
            using builds_call [where mk = "\<lambda>ref as. make_storage alloc ref as (Some f) mt" and w = w, OF IHx fk form mk]
            unfolding f Cons s' simp_thms if_False by (simp add: s(1) s' nt)
        next
          assume s': "s = ''constrain''"
          have form: "denotes f e \<longleftrightarrow> (\<exists>x y c d. xs = [x, y] \<and> (False \<longrightarrow> is_token x) \<and> denotes x c \<and> denotes y d \<and> (\<exists>a. e = Constrain a d c))" for e
            unfolding fk s' denotes_constrain by blast
          have mk: "\<exists>a. fst (make_constrain alloc c d (Some f) mt w) = Constrain a d c" for c d w
            using make_fst(10) by blast
          show ?thesis
            using builds_two [where mk = "\<lambda>c d. make_constrain alloc c d (Some f) mt" and w = w, OF IHx fk form mk]
            unfolding f Cons s' simp_thms if_False by (simp add: s(1) s' nt)
        qed
      next
        case 2
        then have k: "s \<notin> set special_words" using s(2) by blast
        have "builds f (bindO (build_expression lb alloc mt h w) (\<lambda>(ref, w1).
            (Ret (make_meta alloc ref (Some f) mt w1) :: ('x, expr \<times> 's world) evaluation)))"
        proof (rule builds_bindO [OF IH], unfold prod.case)
          fix ref w1 assume "denotes h ref"
          then show "builds f (Ret (make_meta alloc ref (Some f) mt w1))"
            using make_fst(11) [of alloc ref "Some f" mt w1] f Cons h(2) 2
            by (intro builds_Ret) (auto simp: denotes_meta)
        qed (use f Cons h 2 in \<open>auto simp: denotes_meta\<close>)
        then show ?thesis using sf k by (simp add: special_words_def)
      qed
    qed
  qed
qed

section \<open>The properties\<close>

text \<open>C3. For a fragment whose tokens consist of characters that the table of characters
keeps (no control characters) \<open>build_expression\<close> returns the expression that the
fragment denotes in the syntax of the language; when it denotes none, it throws a special form
error about a part of the fragment. The low bytes of aligned pointers, which
\<open>to_string\<close> reads for lists, never look like a keyword.\<close>

lemma build_expression_correct:
  assumes "printable f" and "aligned lb"
  shows "case (build_expression lb alloc mt f w :: ('x, expr \<times> 's world) evaluation) of
      Ret (e, w') \<Rightarrow> denotes f e
    | Throw err \<Rightarrow> (\<nexists>e. denotes f e) \<and> (\<exists>d s. err = special_form_error d s \<and> d \<in> parts f)
    | Undef \<Rightarrow> False
    | NoFuel \<Rightarrow> False"
  using build_expression_builds [OF assms(2,1), of alloc mt w, where ?'x = 'x]
  by (cases "build_expression lb alloc mt f w :: ('x, expr \<times> 's world) evaluation") auto

lemma build_expression_correct_witness:
  "case (build_expression (\<lambda>_. CHR 0x00) (galloc bump_mmap 0x10000) None
      (Lst [tok ''with'', tok ''k'', Lst [tok ''jump'', tok ''k'', Lst [tok ''storage'', tok ''x'']]])
      \<lparr>nodes = \<lambda>_. zero_node, augs = \<lambda>_. undefined, sigs = Var, region_state = mem_state demo_world\<rparr>
       :: (unit, expr \<times> u64 gstate world) evaluation) of
      Ret (e, w') \<Rightarrow> denotes (Lst [tok ''with'', tok ''k'', Lst [tok ''jump'', tok ''k'', Lst [tok ''storage'', tok ''x'']]]) e
    | Throw err \<Rightarrow> (\<nexists>e. denotes (Lst [tok ''with'', tok ''k'', Lst [tok ''jump'', tok ''k'', Lst [tok ''storage'', tok ''x'']]]) e) \<and>
        (\<exists>d s. err = special_form_error d s \<and>
           d \<in> parts (Lst [tok ''with'', tok ''k'', Lst [tok ''jump'', tok ''k'', Lst [tok ''storage'', tok ''x'']]]))
    | Undef \<Rightarrow> False
    | NoFuel \<Rightarrow> False"
proof (rule build_expression_correct)
  show "printable (Lst [tok ''with'', tok ''k'', Lst [tok ''jump'', tok ''k'', Lst [tok ''storage'', tok ''x'']]])"
    by code_simp
qed (simp add: aligned_def)

text \<open>C21. The value of a literal of 64 binary digits is the number that they write; any
other character is refused.\<close>

lemma literal_value_exact:
  assumes "length str = WORD_BIN_LEN"
  shows "case literal_loop str 0 of
      None \<Rightarrow> \<not> binary str
    | Some v \<Rightarrow> binary str \<and> unat v = binary_value str"
  using assms binary_literal_exact [of str] by (simp add: literal_loop_value WORD_BIN_LEN_def)

lemma literal_value_exact_witness:
  "case literal_loop (replicate 60 (CHR ''0'') @ ''1010'') 0 of
      None \<Rightarrow> \<not> binary (replicate 60 (CHR ''0'') @ ''1010'')
    | Some v \<Rightarrow> binary (replicate 60 (CHR ''0'') @ ''1010'') \<and> unat v = binary_value (replicate 60 (CHR ''0'') @ ''1010'')"
  by (rule literal_value_exact) (simp add: WORD_BIN_LEN_def)

text \<open>The control characters that are not white space.\<close>

definition controls :: string where
  "controls =
    [CHR 0x00, CHR 0x01, CHR 0x02, CHR 0x03, CHR 0x04, CHR 0x05, CHR 0x06, CHR 0x07, CHR 0x08, CHR 0x0E,
     CHR 0x0F, CHR 0x10, CHR 0x11, CHR 0x12, CHR 0x13, CHR 0x14, CHR 0x15, CHR 0x16, CHR 0x17, CHR 0x18,
     CHR 0x19, CHR 0x1A, CHR 0x1B, CHR 0x1C, CHR 0x1D, CHR 0x1E, CHR 0x1F, CHR 0x7F]"

lemma control_entry:
  assumes "c \<in> set controls"
  shows "char_entry c = Some (Ch (CHR 0x00)) \<and> \<not> ends_token c"
proof -
  have "list_all (\<lambda>c. char_entry c = Some (Ch (CHR 0x00)) \<and> \<not> ends_token c) controls" by code_simp
  then show ?thesis using assms unfolding list_all_iff by (rule bspec)
qed

lemma read_token_loop_chars:
  "char_entry c \<noteq> None \<Longrightarrow> list_all (\<lambda>d. \<not> ends_token d \<and> char_entry d \<noteq> None) t \<Longrightarrow>
   read_token_loop (pre @ t) c (length pre) l = Ret (Lst (l @ map (the \<circ> char_entry) (c # t)), length (pre @ t))"
proof (induction t arbitrary: pre c l)
  case Nil
  then show ?case by (auto simp: read_token_loop.simps)
next
  case (Cons d t)
  from Cons.IH [of d "pre @ [d]" "l @ [the (char_entry c)]"] Cons.prems show ?case
    by (subst read_token_loop.simps) (auto simp: nth_append)
qed

lemma read_parts_loop_end:
  "read_parts_loop (Suc n) rf s sep [x] (length s) = Ret (x, length s)"
  by (simp add: read_whitespace.simps)

lemma read_source_chars:
  assumes "t \<noteq> []" "list_all (\<lambda>d. \<not> ends_token d \<and> char_entry d \<noteq> None) t"
  shows "read_source t 0 = (Ret (Lst (map (the \<circ> char_entry) t), length t) :: ('x, frag \<times> nat) evaluation)"
proof -
  obtain c u where t: "t = c # u" using assms(1) by (cases t) auto
  have "read_token t 0 = (Ret (Lst (map (the \<circ> char_entry) t), length t) :: ('x, frag \<times> nat) evaluation)"
    using read_token_loop_chars [of c u "[c]" "[]"] assms(2) by (simp add: read_token_def t)
  moreover have "\<not> opens_list c" using assms(2) ends_token_cases by (auto simp: t)
  ultimately have 1: "read_fragment1 (length t) rf t 0 =
      (Ret (Lst (map (the \<circ> char_entry) t), length t) :: ('x, frag \<times> nat) evaluation)" for rf
    by (simp add: read_fragment1_def t del: list.map)
  have n: "length t = Suc (length u)" by (simp add: t)
  note e = read_parts_loop_end [of "length u", where s = t, unfolded n [symmetric]]
  have 2: "read_fragment2 (length t) rf t 0 =
      (Ret (Lst (map (the \<circ> char_entry) t), length t) :: ('x, frag \<times> nat) evaluation)" for rf
    unfolding read_fragment2_def 1 by (simp add: e del: list.map)
  show ?thesis unfolding read_source_def read_fragment.simps 2 by (simp add: e del: list.map)
qed

text \<open>C23. For every token with a control character behind characters that the table
keeps, the reader returns the whole token, but \<open>to_string\<close> gives only what stands
before the control character, for example a keyword.\<close>

lemma control_character_truncates:
  assumes t: "list_all kept_char t" and c: "c \<in> set controls"
    and u: "list_all (\<lambda>d. \<not> ends_token d \<and> char_entry d \<noteq> None) u"
  shows "\<exists>f. read_source (t @ c # u) 0 = (Ret (f, length (t @ c # u)) :: ('x, frag \<times> nat) evaluation) \<and>
    f \<noteq> tok t \<and> to_string lb f = Some t"
proof (intro exI conjI)
  let ?f = "Lst (map (the \<circ> char_entry) (t @ c # u))"
  have "\<not> ends_token d \<and> char_entry d \<noteq> None" if "kept_char d" for d
    using that kept_not_ends [OF that] by (simp add: kept_char_def)
  then have "list_all (\<lambda>d. \<not> ends_token d \<and> char_entry d \<noteq> None) (t @ c # u)"
    using t u control_entry [OF c] unfolding list_all_iff set_append list.set by blast
  from read_source_chars [OF _ this]
  show "read_source (t @ c # u) 0 = (Ret (?f, length (t @ c # u)) :: ('x, frag \<times> nat) evaluation)" by simp
  show "?f \<noteq> tok t"
  proof
    assume "?f = tok t"
    then have "length (map (the \<circ> char_entry) (t @ c # u)) = length t" unfolding tok_def by (metis frag.inject(2) length_map)
    then show False by simp
  qed
  have "map (\<lambda>x. element_char lb (the (char_entry x))) t = t"
    using t by (intro map_idI) (simp add: list_all_iff kept_char_def)
  then have m: "map (element_char lb) (map (the \<circ> char_entry) (t @ c # u)) =
      t @ CHR 0x00 # map (element_char lb) (map (the \<circ> char_entry) u)"
    using control_entry [OF c] by (simp add: comp_def)
  have "takeWhile (\<lambda>c. c \<noteq> CHR 0x00) (t @ CHR 0x00 # v) = t" for v
    using t by (subst takeWhile_append2) (auto simp: list_all_iff dest: kept_char_not_nul)
  then show "to_string lb ?f = Some t" unfolding to_string.simps m by simp
qed

lemma control_character_truncates_witness:
  "\<exists>f. read_source (''with'' @ CHR 0x01 # ''x'') 0 = (Ret (f, 6) :: (unit, frag \<times> nat) evaluation) \<and>
    f \<noteq> tok ''with'' \<and> to_string (\<lambda>_. CHR 0x00) f = Some ''with''"
proof -
  have "list_all kept_char ''with''" "CHR 0x01 \<in> set controls"
    "list_all (\<lambda>d. \<not> ends_token d \<and> char_entry d \<noteq> None) ''x''" by code_simp+
  from control_character_truncates [OF this, of "\<lambda>_. CHR 0x00", where ?'x = unit] show ?thesis by (simp add: eval_nat_numeral)
qed

end
