(* ===== verification/Opcodes.thy ===== *)
theory Opcodes
  imports Expressions
begin

text \<open>
  The register numbers and opcodes that \<open>bootstrap/x86_64_generator.c\<close> declares for the assembly
  expressions it makes, and that \<open>bootstrap/x86_64_assembler.c\<close> takes apart. They are integer
  constants in the code and take the width of the place that uses them.
\<close>

definition RAX :: "'a::len word" where "RAX = 0"
definition RCX :: "'a::len word" where "RCX = 1"
definition RDX :: "'a::len word" where "RDX = 2"
definition RBX :: "'a::len word" where "RBX = 3"
definition RSP :: "'a::len word" where "RSP = 4"
definition RBP :: "'a::len word" where "RBP = 5"
definition RSI :: "'a::len word" where "RSI = 6"
definition RDI :: "'a::len word" where "RDI = 7"
definition R8 :: "'a::len word" where "R8 = 8"
definition R9 :: "'a::len word" where "R9 = 9"
definition R10 :: "'a::len word" where "R10 = 10"
definition R11 :: "'a::len word" where "R11 = 11"
definition R12 :: "'a::len word" where "R12 = 12"
definition R13 :: "'a::len word" where "R13 = 13"
definition R14 :: "'a::len word" where "R14 = 14"
definition R15 :: "'a::len word" where "R15 = 15"
definition RIP :: "'a::len word" where "RIP = 16"

definition LEAQ_MDB_TO_REG :: "'a::len word" where "LEAQ_MDB_TO_REG = 17"
definition MOVQ_REG_TO_MDB :: "'a::len word" where "MOVQ_REG_TO_MDB = 18"
definition JMP_REL :: "'a::len word" where "JMP_REL = 19"
definition MOVQ_MDB_TO_REG :: "'a::len word" where "MOVQ_MDB_TO_REG = 20"
definition PUSHQ_REG :: "'a::len word" where "PUSHQ_REG = 21"
definition MOVQ_REG_TO_REG :: "'a::len word" where "MOVQ_REG_TO_REG = 22"
definition SUBQ_IMM_TO_REG :: "'a::len word" where "SUBQ_IMM_TO_REG = 23"
definition ADDQ_IMM_TO_REG :: "'a::len word" where "ADDQ_IMM_TO_REG = 24"
definition POPQ_REG :: "'a::len word" where "POPQ_REG = 25"
definition LEAVE :: "'a::len word" where "LEAVE = 26"
definition RET :: "'a::len word" where "RET = 27"
definition JMP_TO_REG :: "'a::len word" where "JMP_TO_REG = 28"
definition JE_REL :: "'a::len word" where "JE_REL = 29"
definition ORQ_REG_TO_REG :: "'a::len word" where "ORQ_REG_TO_REG = 30"
definition MOVQ_IMM_TO_REG :: "'a::len word" where "MOVQ_IMM_TO_REG = 31"
definition CALL_REG :: "'a::len word" where "CALL_REG = 32"
definition LABEL :: "'a::len word" where "LABEL = 33"
definition LNKR_ADD_OFF_TO_REF :: "'a::len word" where "LNKR_ADD_OFF_TO_REF = 34"
definition LNKR_SUB_RIP_TO_REF :: "'a::len word" where "LNKR_SUB_RIP_TO_REF = 35"

lemmas register_defs = RAX_def RCX_def RDX_def RBX_def RSP_def RBP_def RSI_def RDI_def
  R8_def R9_def R10_def R11_def R12_def R13_def R14_def R15_def RIP_def

lemmas opcode_defs = LEAQ_MDB_TO_REG_def MOVQ_REG_TO_MDB_def JMP_REL_def MOVQ_MDB_TO_REG_def
  PUSHQ_REG_def MOVQ_REG_TO_REG_def SUBQ_IMM_TO_REG_def ADDQ_IMM_TO_REG_def POPQ_REG_def LEAVE_def
  RET_def JMP_TO_REG_def JE_REL_def ORQ_REG_TO_REG_def MOVQ_IMM_TO_REG_def CALL_REG_def LABEL_def
  LNKR_ADD_OFF_TO_REF_def LNKR_SUB_RIP_TO_REF_def

text \<open>Opcodes and registers are told apart in the width in which a node keeps them.\<close>


end
