(* ===== verification/Elf.thy ===== *)
theory Elf
  imports L2_Prelude
begin

text \<open>
  The data of \<open>bootstrap/elf.c\<close>: the records of the ELF-64 object file format, their bytes in
  the memory of a little-endian machine, the macros that pack two numbers into one field, and
  the constants that the writer and the loader of object files use. Every record is a fixed-width
  codec; the interface \<open>codec\<close> gives the laws of tables of records once for all of them.
\<close>

unbundle bit_operations_syntax

section \<open>Little-endian numbers\<close>

primrec le_bytes :: "nat \<Rightarrow> 'a::len word \<Rightarrow> byte list" where
  "le_bytes 0 w = []"
| "le_bytes (Suc n) w = ucast w # le_bytes n (drop_bit 8 w)"

primrec of_le :: "byte list \<Rightarrow> 'a::len word" where
  "of_le [] = 0"
| "of_le (b # bs) = ucast b OR push_bit 8 (of_le bs)"

lemma length_le_bytes [simp]: "length (le_bytes n w) = n"
  by (induction n arbitrary: w) auto

lemma of_le_bytes: "of_le (le_bytes n w) = take_bit (8 * n) w" for w :: "'a::len word"
proof (induction n arbitrary: w)
  case (Suc n)
  show ?case
    unfolding le_bytes.simps of_le.simps Suc.IH
    by (rule bit_word_eqI) (auto simp: bit_simps)
qed simp

lemma of_le_bytes_full: "LENGTH('a) \<le> 8 * n \<Longrightarrow> of_le (le_bytes n w) = w" for w :: "'a::len word"
  unfolding of_le_bytes by (rule bit_word_eqI) (auto simp: bit_simps)

lemma le_bytes_take_bit: "8 * n \<le> m \<Longrightarrow> le_bytes n (take_bit m w) = le_bytes n w" for w :: "'a::len word"
proof (induction n arbitrary: m w)
  case (Suc n)
  have "(ucast (take_bit m w) :: byte) = ucast w"
    using Suc.prems by (intro bit_word_eqI) (auto simp: bit_simps)
  moreover have "drop_bit 8 (take_bit m w) = take_bit (m - 8) (drop_bit 8 w)"
    using Suc.prems by (intro bit_word_eqI) (auto simp: bit_simps)
  ultimately show ?case using Suc.prems by (simp add: Suc.IH)
qed simp

lemma le_bytes_of_le:
  "8 * length bs \<le> LENGTH('a) \<Longrightarrow> le_bytes (length bs) (of_le bs :: 'a::len word) = bs"
proof (induction bs)
  case (Cons b bs)
  let ?v = "of_le bs :: 'a word"
  have "ucast (ucast b OR push_bit 8 ?v) = b"
    using Cons.prems by (intro bit_word_eqI) (auto simp: bit_simps)
  moreover have "drop_bit 8 (ucast b OR push_bit 8 ?v) = take_bit (LENGTH('a) - 8) ?v"
    by (rule bit_word_eqI) (auto simp: bit_simps dest: bit_imp_le_length)
  ultimately show ?case using Cons by (simp add: le_bytes_take_bit)
qed simp

section \<open>Data representation\<close>

type_synonym Elf64_Addr = "64 word"
type_synonym Elf64_Off = "64 word"
type_synonym Elf64_Half = "16 word"
type_synonym Elf64_Word = "32 word"
type_synonym Elf64_Xword = "64 word"
type_synonym Elf64_Sxword = "64 word"

record Elf64_Ehdr =
  e_ident :: "byte list"
  e_type :: Elf64_Half
  e_machine :: Elf64_Half
  e_version :: Elf64_Word
  e_entry :: Elf64_Addr
  e_phoff :: Elf64_Off
  e_shoff :: Elf64_Off
  e_flags :: Elf64_Word
  e_ehsize :: Elf64_Half
  e_phentsize :: Elf64_Half
  e_phnum :: Elf64_Half
  e_shentsize :: Elf64_Half
  e_shnum :: Elf64_Half
  e_shstrndx :: Elf64_Half

record Elf64_Shdr =
  sh_name :: Elf64_Word
  sh_type :: Elf64_Word
  sh_flags :: Elf64_Xword
  sh_addr :: Elf64_Addr
  sh_offset :: Elf64_Off
  sh_size :: Elf64_Xword
  sh_link :: Elf64_Word
  sh_info :: Elf64_Word
  sh_addralign :: Elf64_Xword
  sh_entsize :: Elf64_Xword

record Elf64_Sym =
  st_name :: Elf64_Word
  st_info :: byte
  st_other :: byte
  st_shndx :: Elf64_Half
  st_value :: Elf64_Addr
  st_size :: Elf64_Xword

record Elf64_Rel =
  rel_offset :: Elf64_Addr
  rel_info :: Elf64_Xword

record Elf64_Rela =
  r_offset :: Elf64_Addr
  r_info :: Elf64_Xword
  r_addend :: Elf64_Sxword

text \<open>The sizes of the records, which \<open>sizeof\<close> gives as well: no record has padding.\<close>

definition EI_NIDENT :: nat where "EI_NIDENT = 16"
definition ELF64_EHDR :: nat where "ELF64_EHDR = 64"
definition ELF64_SHDR :: nat where "ELF64_SHDR = 64"
definition ELF64_SYM :: nat where "ELF64_SYM = 24"
definition ELF64_REL :: nat where "ELF64_REL = 16"
definition ELF64_RELA :: nat where "ELF64_RELA = 24"

lemmas elf_sizes = EI_NIDENT_def ELF64_EHDR_def ELF64_SHDR_def ELF64_SYM_def ELF64_REL_def ELF64_RELA_def

section \<open>Records as bytes\<close>

definition ehdr_bytes :: "Elf64_Ehdr \<Rightarrow> byte list" where
  "ehdr_bytes h = e_ident h @ le_bytes 2 (e_type h) @ le_bytes 2 (e_machine h) @
     le_bytes 4 (e_version h) @ le_bytes 8 (e_entry h) @ le_bytes 8 (e_phoff h) @
     le_bytes 8 (e_shoff h) @ le_bytes 4 (e_flags h) @ le_bytes 2 (e_ehsize h) @
     le_bytes 2 (e_phentsize h) @ le_bytes 2 (e_phnum h) @ le_bytes 2 (e_shentsize h) @
     le_bytes 2 (e_shnum h) @ le_bytes 2 (e_shstrndx h)"

definition shdr_bytes :: "Elf64_Shdr \<Rightarrow> byte list" where
  "shdr_bytes h = le_bytes 4 (sh_name h) @ le_bytes 4 (sh_type h) @ le_bytes 8 (sh_flags h) @
     le_bytes 8 (sh_addr h) @ le_bytes 8 (sh_offset h) @ le_bytes 8 (sh_size h) @
     le_bytes 4 (sh_link h) @ le_bytes 4 (sh_info h) @ le_bytes 8 (sh_addralign h) @
     le_bytes 8 (sh_entsize h)"

definition sym_bytes :: "Elf64_Sym \<Rightarrow> byte list" where
  "sym_bytes s = le_bytes 4 (st_name s) @ [st_info s, st_other s] @
     le_bytes 2 (st_shndx s) @ le_bytes 8 (st_value s) @ le_bytes 8 (st_size s)"

definition rel_bytes :: "Elf64_Rel \<Rightarrow> byte list" where
  "rel_bytes r = le_bytes 8 (rel_offset r) @ le_bytes 8 (rel_info r)"

definition rela_bytes :: "Elf64_Rela \<Rightarrow> byte list" where
  "rela_bytes r = le_bytes 8 (r_offset r) @ le_bytes 8 (r_info r) @ le_bytes 8 (r_addend r)"

text \<open>A field of \<open>n\<close> bytes at an offset of a record.\<close>

definition field :: "nat \<Rightarrow> nat \<Rightarrow> byte list \<Rightarrow> 'a::len word" where
  "field i n bs = of_le (take n (drop i bs))"

definition ehdr_of :: "byte list \<Rightarrow> Elf64_Ehdr" where
  "ehdr_of bs = \<lparr>e_ident = take 16 bs, e_type = field 16 2 bs, e_machine = field 18 2 bs,
     e_version = field 20 4 bs, e_entry = field 24 8 bs, e_phoff = field 32 8 bs,
     e_shoff = field 40 8 bs, e_flags = field 48 4 bs, e_ehsize = field 52 2 bs,
     e_phentsize = field 54 2 bs, e_phnum = field 56 2 bs, e_shentsize = field 58 2 bs,
     e_shnum = field 60 2 bs, e_shstrndx = field 62 2 bs\<rparr>"

definition shdr_of :: "byte list \<Rightarrow> Elf64_Shdr" where
  "shdr_of bs = \<lparr>sh_name = field 0 4 bs, sh_type = field 4 4 bs, sh_flags = field 8 8 bs,
     sh_addr = field 16 8 bs, sh_offset = field 24 8 bs, sh_size = field 32 8 bs,
     sh_link = field 40 4 bs, sh_info = field 44 4 bs, sh_addralign = field 48 8 bs,
     sh_entsize = field 56 8 bs\<rparr>"

definition sym_of :: "byte list \<Rightarrow> Elf64_Sym" where
  "sym_of bs = \<lparr>st_name = field 0 4 bs, st_info = bs ! 4, st_other = bs ! 5,
     st_shndx = field 6 2 bs, st_value = field 8 8 bs, st_size = field 16 8 bs\<rparr>"

definition rel_of :: "byte list \<Rightarrow> Elf64_Rel" where
  "rel_of bs = \<lparr>rel_offset = field 0 8 bs, rel_info = field 8 8 bs\<rparr>"

definition rela_of :: "byte list \<Rightarrow> Elf64_Rela" where
  "rela_of bs = \<lparr>r_offset = field 0 8 bs, r_info = field 8 8 bs, r_addend = field 16 8 bs\<rparr>"

section \<open>Codecs\<close>

locale codec =
  fixes enc :: "'a \<Rightarrow> byte list" and dec :: "byte list \<Rightarrow> 'a" and width :: nat and valid :: "'a \<Rightarrow> bool"
  assumes enc_length: "valid x \<Longrightarrow> length (enc x) = width"
    and dec_enc: "valid x \<Longrightarrow> dec (enc x @ rest) = x"
    and dec_valid: "length bs = width \<Longrightarrow> valid (dec bs)"
    and enc_dec: "length bs = width \<Longrightarrow> enc (dec bs) = bs"
begin

lemma dec_enc_exact: "valid x \<Longrightarrow> dec (enc x) = x"
  using dec_enc [of x "[]"] by simp

lemma table_length: "list_all valid xs \<Longrightarrow> length (concat (map enc xs)) = width * length xs"
  by (induction xs) (auto simp: enc_length)

lemma table_drop:
  "list_all valid xs \<Longrightarrow> i \<le> length xs \<Longrightarrow>
   drop (width * i) (concat (map enc xs) @ rest) = concat (map enc (drop i xs)) @ rest"
proof (induction xs arbitrary: i)
  case (Cons x xs)
  then show ?case by (cases i) (auto simp: enc_length)
qed simp

lemma table_nth:
  "list_all valid xs \<Longrightarrow> i < length xs \<Longrightarrow> dec (drop (width * i) (concat (map enc xs) @ rest)) = xs ! i"
  by (simp add: table_drop Cons_nth_drop_Suc [symmetric] dec_enc list_all_length del: drop_append)

lemma table_slice:
  "list_all valid xs \<Longrightarrow> i < length xs \<Longrightarrow>
   take width (drop (width * i) (concat (map enc xs) @ rest)) = enc (xs ! i)"
  by (simp add: table_drop Cons_nth_drop_Suc [symmetric] enc_length list_all_length del: drop_append)

lemma enc_inject: "valid x \<Longrightarrow> valid y \<Longrightarrow> enc x = enc y \<longleftrightarrow> x = y"
  by (metis dec_enc_exact)

end

lemma field_append:
  "i + n \<le> length bs \<Longrightarrow> field i n (bs @ rest) = field i n bs"
  by (simp add: field_def)

lemma le_bytes_field:
  "i + n \<le> length bs \<Longrightarrow> 8 * n \<le> LENGTH('a) \<Longrightarrow>
   le_bytes n (field i n bs :: 'a::len word) = take n (drop i bs)"
  using le_bytes_of_le [of "take n (drop i bs)", where ?'a = 'a] by (simp add: field_def)


lemma slice_join: "i + n = j \<Longrightarrow> take n (drop i bs) @ drop j bs = drop i bs"
  by (metis add.commute append_take_drop_id drop_drop)

lemma slice_last: "length bs = i + n \<Longrightarrow> take n (drop i bs) = drop i bs"
  by simp

lemmas record_codec_simps = field_def of_le_bytes_full le_bytes_field slice_join

abbreviation ehdr_ok :: "Elf64_Ehdr \<Rightarrow> bool" where
  "ehdr_ok h \<equiv> length (e_ident h) = EI_NIDENT"

interpretation ehdr: codec ehdr_bytes ehdr_of ELF64_EHDR ehdr_ok
proof unfold_locales
  fix h :: Elf64_Ehdr and rest bs :: "byte list"
  show "ehdr_ok h \<Longrightarrow> length (ehdr_bytes h) = ELF64_EHDR"
    by (simp add: ehdr_bytes_def elf_sizes)
  show "ehdr_ok h \<Longrightarrow> ehdr_of (ehdr_bytes h @ rest) = h"
    by (cases h) (simp add: ehdr_of_def ehdr_bytes_def field_def of_le_bytes_full elf_sizes)
  show "length bs = ELF64_EHDR \<Longrightarrow> ehdr_ok (ehdr_of bs)"
    by (simp add: ehdr_of_def elf_sizes)
  show "length bs = ELF64_EHDR \<Longrightarrow> ehdr_bytes (ehdr_of bs) = bs"
    by (simp add: ehdr_of_def ehdr_bytes_def le_bytes_field elf_sizes slice_join)
qed

interpretation shdr: codec shdr_bytes shdr_of ELF64_SHDR "\<lambda>h. True"
proof unfold_locales
  fix h :: Elf64_Shdr and rest bs :: "byte list"
  show "True \<Longrightarrow> length (shdr_bytes h) = ELF64_SHDR"
    by (simp add: shdr_bytes_def elf_sizes)
  show "True \<Longrightarrow> shdr_of (shdr_bytes h @ rest) = h"
    by (cases h) (simp add: shdr_of_def shdr_bytes_def field_def of_le_bytes_full)
  show "length bs = ELF64_SHDR \<Longrightarrow> shdr_bytes (shdr_of bs) = bs"
    by (simp add: shdr_of_def shdr_bytes_def le_bytes_field elf_sizes slice_join)
qed simp

interpretation elf_sym: codec sym_bytes sym_of ELF64_SYM "\<lambda>s. True"
proof unfold_locales
  fix s :: Elf64_Sym and rest bs :: "byte list"
  show "True \<Longrightarrow> length (sym_bytes s) = ELF64_SYM"
    by (simp add: sym_bytes_def elf_sizes)
  show "True \<Longrightarrow> sym_of (sym_bytes s @ rest) = s"
    by (cases s) (simp add: sym_of_def sym_bytes_def field_def of_le_bytes_full nth_append)
  show "length bs = ELF64_SYM \<Longrightarrow> sym_bytes (sym_of bs) = bs"
    using Cons_nth_drop_Suc [of 4 bs] Cons_nth_drop_Suc [of 5 bs]
    by (simp add: sym_of_def sym_bytes_def le_bytes_field elf_sizes slice_join)
qed simp

interpretation rel: codec rel_bytes rel_of ELF64_REL "\<lambda>r. True"
proof unfold_locales
  fix r :: Elf64_Rel and rest bs :: "byte list"
  show "True \<Longrightarrow> length (rel_bytes r) = ELF64_REL"
    by (simp add: rel_bytes_def elf_sizes)
  show "True \<Longrightarrow> rel_of (rel_bytes r @ rest) = r"
    by (cases r) (simp add: rel_of_def rel_bytes_def field_def of_le_bytes_full)
  show "length bs = ELF64_REL \<Longrightarrow> rel_bytes (rel_of bs) = bs"
    by (simp add: rel_of_def rel_bytes_def le_bytes_field elf_sizes slice_join)
qed simp

interpretation rela: codec rela_bytes rela_of ELF64_RELA "\<lambda>r. True"
proof unfold_locales
  fix r :: Elf64_Rela and rest bs :: "byte list"
  show "True \<Longrightarrow> length (rela_bytes r) = ELF64_RELA"
    by (simp add: rela_bytes_def elf_sizes)
  show "True \<Longrightarrow> rela_of (rela_bytes r @ rest) = r"
    by (cases r) (simp add: rela_of_def rela_bytes_def field_def of_le_bytes_full)
  show "length bs = ELF64_RELA \<Longrightarrow> rela_bytes (rela_of bs) = bs"
    by (simp add: rela_of_def rela_bytes_def le_bytes_field elf_sizes slice_join)
qed simp

section \<open>Packed fields\<close>

definition ELF64_ST_BIND :: "byte \<Rightarrow> byte" where "ELF64_ST_BIND i = drop_bit 4 i"
definition ELF64_ST_TYPE :: "byte \<Rightarrow> byte" where "ELF64_ST_TYPE i = i AND 0xf"
definition ELF64_ST_INFO :: "byte \<Rightarrow> byte \<Rightarrow> byte" where
  "ELF64_ST_INFO b t = push_bit 4 b + (t AND 0xf)"

definition ELF64_R_SYM :: "u64 \<Rightarrow> u64" where "ELF64_R_SYM i = drop_bit 32 i"
definition ELF64_R_TYPE :: "u64 \<Rightarrow> u64" where "ELF64_R_TYPE i = i AND 0xffffffff"
definition ELF64_R_INFO :: "u64 \<Rightarrow> u64 \<Rightarrow> u64" where
  "ELF64_R_INFO s t = push_bit 32 s + (t AND 0xffffffff)"

text \<open>The macros add where the parts cannot carry into each other, so they pack bits.\<close>

lemma mask_32: "(0xffffffff :: u64) = mask 32" and mask_4: "(0xf :: byte) = mask 4"
  by (simp_all add: mask_eq_exp_minus_1)

lemma R_INFO_or: "ELF64_R_INFO s t = push_bit 32 s OR take_bit 32 t"
  unfolding ELF64_R_INFO_def mask_32 take_bit_eq_mask [symmetric]
  by (rule disjunctive_add_eq_or) (rule bit_word_eqI, auto simp: bit_simps)

lemma ST_INFO_or: "ELF64_ST_INFO b t = push_bit 4 b OR take_bit 4 t"
  unfolding ELF64_ST_INFO_def mask_4 take_bit_eq_mask [symmetric]
  by (rule disjunctive_add_eq_or) (rule bit_word_eqI, auto simp: bit_simps)

lemma R_SYM_INFO [codec_simps]: "ELF64_R_SYM (ELF64_R_INFO s t) = take_bit 32 s"
  unfolding R_INFO_or ELF64_R_SYM_def by (rule bit_word_eqI) (auto simp: bit_simps)

lemma R_TYPE_INFO [codec_simps]: "ELF64_R_TYPE (ELF64_R_INFO s t) = take_bit 32 t"
  unfolding R_INFO_or ELF64_R_TYPE_def mask_32 take_bit_eq_mask [symmetric]
  by (rule bit_word_eqI) (auto simp: bit_simps)

lemma R_INFO_SYM_TYPE [codec_simps]: "ELF64_R_INFO (ELF64_R_SYM i) (ELF64_R_TYPE i) = i"
  unfolding R_INFO_or ELF64_R_TYPE_def ELF64_R_SYM_def mask_32 take_bit_eq_mask [symmetric]
  by (rule bit_word_eqI) (auto simp: bit_simps)

lemma ST_BIND_INFO [codec_simps]: "ELF64_ST_BIND (ELF64_ST_INFO b t) = take_bit 4 b"
  unfolding ST_INFO_or ELF64_ST_BIND_def by (rule bit_word_eqI) (auto simp: bit_simps)

lemma ST_TYPE_INFO [codec_simps]: "ELF64_ST_TYPE (ELF64_ST_INFO b t) = take_bit 4 t"
  unfolding ST_INFO_or ELF64_ST_TYPE_def mask_4 take_bit_eq_mask [symmetric]
  by (rule bit_word_eqI) (auto simp: bit_simps)

lemma ST_INFO_BIND_TYPE [codec_simps]: "ELF64_ST_INFO (ELF64_ST_BIND i) (ELF64_ST_TYPE i) = i"
  unfolding ST_INFO_or ELF64_ST_TYPE_def ELF64_ST_BIND_def mask_4 take_bit_eq_mask [symmetric]
  by (rule bit_word_eqI) (auto simp: bit_simps)



section \<open>Constants\<close>

definition EI_MAG0 :: nat where "EI_MAG0 = 0"
definition EI_MAG1 :: nat where "EI_MAG1 = 1"
definition EI_MAG2 :: nat where "EI_MAG2 = 2"
definition EI_MAG3 :: nat where "EI_MAG3 = 3"
definition EI_CLASS :: nat where "EI_CLASS = 4"
definition EI_DATA :: nat where "EI_DATA = 5"
definition EI_VERSION :: nat where "EI_VERSION = 6"
definition EI_OSABI :: nat where "EI_OSABI = 7"
definition EI_ABIVERSION :: nat where "EI_ABIVERSION = 8"

definition ELFMAG0 :: byte where "ELFMAG0 = 0x7f"
definition ELFMAG1 :: byte where "ELFMAG1 = 0x45"
definition ELFMAG2 :: byte where "ELFMAG2 = 0x4c"
definition ELFMAG3 :: byte where "ELFMAG3 = 0x46"
definition ELFCLASS64 :: byte where "ELFCLASS64 = 2"
definition ELFDATA2LSB :: byte where "ELFDATA2LSB = 1"
definition ELFOSABI_SYSV :: byte where "ELFOSABI_SYSV = 0"

definition ET_REL :: Elf64_Half where "ET_REL = 1"
definition EM_X86_64 :: Elf64_Half where "EM_X86_64 = 62"
definition SHN_UNDEF :: Elf64_Half where "SHN_UNDEF = 0"
definition SHN_ABS :: Elf64_Half where "SHN_ABS = 0xfff1"
definition SHN_COMMON :: Elf64_Half where "SHN_COMMON = 0xfff2"

definition SHT_NULL :: Elf64_Word where "SHT_NULL = 0"
definition SHT_PROGBITS :: Elf64_Word where "SHT_PROGBITS = 1"
definition SHT_SYMTAB :: Elf64_Word where "SHT_SYMTAB = 2"
definition SHT_STRTAB :: Elf64_Word where "SHT_STRTAB = 3"
definition SHT_RELA :: Elf64_Word where "SHT_RELA = 4"
definition SHT_NOBITS :: Elf64_Word where "SHT_NOBITS = 8"
definition SHT_REL :: Elf64_Word where "SHT_REL = 9"

definition SHF_WRITE :: Elf64_Xword where "SHF_WRITE = 0x1"
definition SHF_ALLOC :: Elf64_Xword where "SHF_ALLOC = 0x2"
definition SHF_EXECINSTR :: Elf64_Xword where "SHF_EXECINSTR = 0x4"

definition STB_LOCAL :: byte where "STB_LOCAL = 0"
definition STB_GLOBAL :: byte where "STB_GLOBAL = 1"
definition STB_WEAK :: byte where "STB_WEAK = 2"
definition STT_NOTYPE :: byte where "STT_NOTYPE = 0"

definition R_X86_64_NONE :: u64 where "R_X86_64_NONE = 0"
definition R_X86_64_64 :: u64 where "R_X86_64_64 = 1"
definition R_X86_64_PC32 :: u64 where "R_X86_64_PC32 = 2"
definition R_X86_64_GLOB_DAT :: u64 where "R_X86_64_GLOB_DAT = 6"
definition R_X86_64_JUMP_SLOT :: u64 where "R_X86_64_JUMP_SLOT = 7"
definition R_X86_64_32 :: u64 where "R_X86_64_32 = 10"
definition R_X86_64_32S :: u64 where "R_X86_64_32S = 11"
definition R_X86_64_16 :: u64 where "R_X86_64_16 = 12"
definition R_X86_64_PC16 :: u64 where "R_X86_64_PC16 = 13"
definition R_X86_64_8 :: u64 where "R_X86_64_8 = 14"
definition R_X86_64_PC8 :: u64 where "R_X86_64_PC8 = 15"
definition R_X86_64_SIZE32 :: u64 where "R_X86_64_SIZE32 = 32"
definition R_X86_64_SIZE64 :: u64 where "R_X86_64_SIZE64 = 33"

lemmas elf_ident_constants =
  EI_MAG0_def EI_MAG1_def EI_MAG2_def EI_MAG3_def EI_CLASS_def EI_DATA_def EI_VERSION_def
  EI_OSABI_def EI_ABIVERSION_def ELFMAG0_def ELFMAG1_def ELFMAG2_def ELFMAG3_def ELFCLASS64_def
  ELFDATA2LSB_def ELFOSABI_SYSV_def

lemmas elf_constants =
  ET_REL_def EM_X86_64_def SHN_UNDEF_def SHN_ABS_def SHN_COMMON_def SHT_NULL_def
  SHT_PROGBITS_def SHT_SYMTAB_def SHT_STRTAB_def SHT_RELA_def SHT_NOBITS_def SHT_REL_def
  SHF_WRITE_def SHF_ALLOC_def SHF_EXECINSTR_def STB_LOCAL_def STB_GLOBAL_def STB_WEAK_def
  STT_NOTYPE_def

lemmas relocation_types =
  R_X86_64_NONE_def R_X86_64_64_def R_X86_64_PC32_def R_X86_64_GLOB_DAT_def
  R_X86_64_JUMP_SLOT_def R_X86_64_32_def R_X86_64_32S_def R_X86_64_16_def R_X86_64_PC16_def
  R_X86_64_8_def R_X86_64_PC8_def R_X86_64_SIZE32_def R_X86_64_SIZE64_def

end
