(* ===== verification/Assembler.thy ===== *)
theory Assembler
  imports Opcodes Elf
begin

text \<open>
  The encoder of \<open>bootstrap/x86_64_assembler.c\<close>: the functions that write instructions into the
  text buffer and relocations into their buffer, and \<open>assemble\<close>, which runs over the generated
  assembly expressions. Theory \<open>Assembler_Correct\<close> shows what they promise.
\<close>

section \<open>Writing into buffers\<close>

definition MOD :: nat where "MOD = 6"
definition REG :: nat where "REG = 3"
definition RM :: nat where "RM = 0"
definition BASE :: nat where "BASE = 0"
definition INDEX :: nat where "INDEX = 3"
definition SS :: nat where "SS = 6"
definition REX_W :: nat where "REX_W = 3"
definition REX_R :: nat where "REX_R = 2"
definition REX_X :: nat where "REX_X = 1"
definition REX_B :: nat where "REX_B = 0"
definition MAX_INSTR_LEN :: nat where "MAX_INSTR_LEN = 15"
definition MAX_INSTR_FIELDS :: nat where "MAX_INSTR_FIELDS = 2"

lemmas encoding_defs = MOD_def REG_def RM_def BASE_def INDEX_def SS_def REX_W_def REX_R_def
  REX_X_def REX_B_def

text \<open>A write outside of the buffer is undefined.\<close>

fun mem_write :: "byte list \<Rightarrow> nat \<Rightarrow> byte list \<Rightarrow> ('e, byte list \<times> nat) outcome" where
  "mem_write mem idx [] = Ret (mem, idx)"
| "mem_write mem idx (b # bytes) =
     (if idx < length mem then mem_write (mem[idx := b]) (idx + 1) bytes else Undef)"

text \<open>
  The state of \<open>assemble\<close>: the text buffer with the position behind the last byte written, and
  the buffer of relocations with the number of them written.
\<close>

record asm_state =
  bin :: "byte list"
  pos :: nat
  relas :: "Elf64_Rela list"
  rela_ptr :: nat

definition emit :: "byte list \<Rightarrow> asm_state \<Rightarrow> ('e, asm_state) outcome" where
  "emit bytes st =
     bindO (mem_write (bin st) (pos st) bytes) (\<lambda>(b, p). Ret (st\<lparr>bin := b, pos := p\<rparr>))"

definition put_rela :: "Elf64_Rela \<Rightarrow> asm_state \<Rightarrow> ('e, asm_state) outcome" where
  "put_rela r st =
     (if rela_ptr st < length (relas st)
      then Ret (st\<lparr>relas := (relas st)[rela_ptr st := r], rela_ptr := rela_ptr st + 1\<rparr>)
      else Undef)"

section \<open>Encoding\<close>

definition write_mr_instr ::
  "byte \<Rightarrow> 32 word \<Rightarrow> 32 word \<Rightarrow> bool \<Rightarrow> bool \<Rightarrow> asm_state \<Rightarrow> ('e, asm_state) outcome" where
  "write_mr_instr opc reg rm m rexw st =
     (let md = (if m then 2 else 3) :: 32 word;
          modrm = ucast (push_bit MOD md OR push_bit REG (reg AND 0x7) OR push_bit RM (rm AND 0x7)) :: byte;
          has_SIB = m \<and> (rm = RSP \<or> rm = R12);
          SIB = ucast (push_bit INDEX (4 :: 32 word) OR push_bit BASE (rm AND 0x7) OR push_bit SS 0) :: byte;
          REX = push_bit 4 4 :: byte;
          REX = (if rexw then REX OR push_bit REX_W 1 else REX);
          REX = (if reg AND 0x8 \<noteq> 0 then REX OR push_bit REX_R 1 else REX);
          REX = REX OR push_bit REX_X 0;
          REX = (if rm AND 0x8 \<noteq> 0 then REX OR push_bit REX_B 1 else REX)
      in bindO (emit [REX] st) (\<lambda>st.
         bindO (emit [opc] st) (\<lambda>st.
         bindO (emit [modrm] st) (\<lambda>st.
         if has_SIB then emit [SIB] st else Ret st))))"

text \<open>
  The index of the symbol table entry of a reference, \<open>binding_aug->context - symtab\<close>: the map
  \<open>context\<close> gives the entry that \<open>write_elf\<close> keeps in the field \<open>context\<close> of a binding.
\<close>

definition binding_of :: "'s world \<Rightarrow> expr \<Rightarrow> ('e, addr) outcome" where
  "binding_of w e = (case e of
      Symbol a n \<Rightarrow> (case symbol_aug (nodes w a) of None \<Rightarrow> Undef | Some b \<Rightarrow> Ret b)
    | _ \<Rightarrow> Undef)"

definition symbol_index :: "'s world \<Rightarrow> (addr \<Rightarrow> nat option) \<Rightarrow> expr \<Rightarrow> ('e, nat) outcome" where
  "symbol_index w context e =
     bindO (binding_of w e) (\<lambda>b. case context b of None \<Rightarrow> Undef | Some i \<Rightarrow> Ret i)"

definition nth_arg :: "nat \<Rightarrow> expr \<Rightarrow> ('e, expr) outcome" where
  "nth_arg i n = (case n of
      Assembly a oc as \<Rightarrow> if i < length as then Ret (as ! i) else Undef
    | _ \<Rightarrow> Undef)"

definition write_static_value ::
  "'s world \<Rightarrow> (addr \<Rightarrow> nat option) \<Rightarrow> expr \<Rightarrow> nat \<Rightarrow> asm_state \<Rightarrow> ('e, asm_state) outcome" where
  "write_static_value w context e bytes st = (case e of
      Literal a v \<Rightarrow> emit (le_bytes bytes v) st
    | Symbol a n \<Rightarrow>
        if bytes = 8 then
          bindO (symbol_index w context e) (\<lambda>i.
          bindO (put_rela \<lparr>r_offset = of_nat (pos st), r_info = ELF64_R_INFO (of_nat i) R_X86_64_64,
                           r_addend = 0\<rparr> st) (\<lambda>st. emit (le_bytes bytes (0 :: u64)) st))
        else emit (le_bytes bytes (0 :: u64)) st
    | Assembly a oc as \<Rightarrow>
        if oc = LNKR_ADD_OFF_TO_REF \<and> bytes = 8 then
          bindO (nth_arg 0 e) (\<lambda>ref. bindO (nth_arg 1 e) (\<lambda>offset.
          bindO (symbol_index w context ref) (\<lambda>i.
          (case offset of Literal a' v \<Rightarrow>
             bindO (put_rela \<lparr>r_offset = of_nat (pos st), r_info = ELF64_R_INFO (of_nat i) R_X86_64_64,
                              r_addend = v\<rparr> st) (\<lambda>st. emit (le_bytes bytes (0 :: u64)) st)
           | _ \<Rightarrow> Undef))))
        else if oc = LNKR_SUB_RIP_TO_REF \<and> bytes = 4 then
          bindO (nth_arg 0 e) (\<lambda>ref. bindO (symbol_index w context ref) (\<lambda>i.
          bindO (put_rela \<lparr>r_offset = of_nat (pos st), r_info = ELF64_R_INFO (of_nat i) R_X86_64_PC32,
                           r_addend = - of_nat bytes\<rparr> st) (\<lambda>st. emit (le_bytes bytes (0 :: u64)) st)))
        else emit (le_bytes bytes (0 :: u64)) st
    | _ \<Rightarrow> emit (le_bytes bytes (0 :: u64)) st)"

definition write_o_instr :: "byte \<Rightarrow> 32 word \<Rightarrow> asm_state \<Rightarrow> ('e, asm_state) outcome" where
  "write_o_instr opc reg st =
     (let rd = ucast (0x7 AND reg) :: byte;
          opcoderd = opc + rd;
          REX = push_bit 4 4 :: byte;
          REX = REX OR push_bit REX_W 0;
          REX = REX OR push_bit REX_R 0;
          REX = REX OR push_bit REX_X 0
      in bindO (if reg AND 0x8 \<noteq> 0 then emit [REX OR push_bit REX_B 1] st else Ret st) (\<lambda>st.
         emit [opcoderd] st))"

text \<open>A register operand, \<open>((union expression *) e)->assembly.opcode\<close> as an \<open>int\<close>.\<close>

definition operand :: "nat \<Rightarrow> expr \<Rightarrow> ('e, 32 word) outcome" where
  "operand i n = bindO (nth_arg i n) (\<lambda>e. case e of Assembly a oc as \<Rightarrow> Ret (ucast oc) | _ \<Rightarrow> Undef)"

text \<open>The four low bytes of \<open>literal.value\<close>.\<close>

definition immediate32 :: "nat \<Rightarrow> expr \<Rightarrow> ('e, byte list) outcome" where
  "immediate32 i n = bindO (nth_arg i n) (\<lambda>e. case e of Literal a v \<Rightarrow> Ret (le_bytes 4 v) | _ \<Rightarrow> Undef)"

text \<open>An instruction with a memory operand: a register, a base and a displacement.\<close>

definition write_mdb ::
  "'s world \<Rightarrow> (addr \<Rightarrow> nat option) \<Rightarrow> byte \<Rightarrow> nat \<Rightarrow> nat \<Rightarrow> nat \<Rightarrow> expr \<Rightarrow> asm_state \<Rightarrow> ('e, asm_state) outcome" where
  "write_mdb w context opc reg_arg rm_arg disp_arg n st =
     bindO (operand reg_arg n) (\<lambda>reg. bindO (operand rm_arg n) (\<lambda>rm.
     bindO (write_mr_instr opc reg rm True True st) (\<lambda>st.
     bindO (nth_arg disp_arg n) (\<lambda>d. write_static_value w context d 4 st))))"

text \<open>The cases of the \<open>switch\<close> of \<open>assemble\<close> that write code.\<close>

definition assemble_code ::
  "'s world \<Rightarrow> (addr \<Rightarrow> nat option) \<Rightarrow> expr \<Rightarrow> asm_state \<Rightarrow> ('e, asm_state) outcome" where
  "assemble_code w context n st = (case n of Assembly a oc as \<Rightarrow>
     if oc = LEAQ_MDB_TO_REG then write_mdb w context 0x8D 2 1 0 n st
     else if oc = MOVQ_REG_TO_MDB then write_mdb w context 0x89 0 2 1 n st
     else if oc = JMP_REL then
       bindO (emit [0xE9] st) (\<lambda>st. bindO (nth_arg 0 n) (\<lambda>d. write_static_value w context d 4 st))
     else if oc = MOVQ_MDB_TO_REG then write_mdb w context 0x8B 2 1 0 n st
     else if oc = PUSHQ_REG then bindO (operand 0 n) (\<lambda>reg. write_o_instr 0x50 reg st)
     else if oc = MOVQ_REG_TO_REG then
       bindO (operand 1 n) (\<lambda>reg. bindO (operand 0 n) (\<lambda>rm. write_mr_instr 0x8B reg rm False True st))
     else if oc = SUBQ_IMM_TO_REG then
       bindO (operand 1 n) (\<lambda>rm. bindO (write_mr_instr 0x81 5 rm False True st) (\<lambda>st.
       bindO (immediate32 0 n) (\<lambda>v. emit v st)))
     else if oc = ADDQ_IMM_TO_REG then
       bindO (operand 1 n) (\<lambda>rm. bindO (write_mr_instr 0x81 0 rm False True st) (\<lambda>st.
       bindO (immediate32 0 n) (\<lambda>v. emit v st)))
     else if oc = POPQ_REG then bindO (operand 0 n) (\<lambda>reg. write_o_instr 0x58 reg st)
     else if oc = LEAVE then emit [0xC9] st
     else if oc = RET then emit [0xC3] st
     else if oc = JMP_TO_REG then
       bindO (operand 0 n) (\<lambda>rm. write_mr_instr 0xFF 4 rm False False st)
     else if oc = JE_REL then
       bindO (emit [0x0F] st) (\<lambda>st. bindO (emit [0x84] st) (\<lambda>st.
       bindO (nth_arg 0 n) (\<lambda>d. write_static_value w context d 4 st)))
     else if oc = ORQ_REG_TO_REG then
       bindO (operand 1 n) (\<lambda>reg. bindO (operand 0 n) (\<lambda>rm. write_mr_instr 0x0B reg rm False True st))
     else if oc = MOVQ_IMM_TO_REG then
       bindO (nth_arg 0 n) (\<lambda>imm_expr. bindO (operand 1 n) (\<lambda>reg.
       (let rd = ucast (0x7 AND reg) :: byte;
            opcoderd = 0xB8 + rd;
            REX = push_bit 4 4 :: byte;
            REX = REX OR push_bit REX_W 1;
            REX = REX OR push_bit REX_R 0;
            REX = REX OR push_bit REX_X 0;
            REX = (if reg AND 0x8 \<noteq> 0 then REX OR push_bit REX_B 1 else REX)
        in bindO (emit [REX] st) (\<lambda>st. bindO (emit [opcoderd] st) (\<lambda>st.
           write_static_value w context imm_expr 8 st)))))
     else if oc = CALL_REG then
       bindO (operand 0 n) (\<lambda>rm. write_mr_instr 0xFF 2 rm False False st)
     else Ret st
   | _ \<Rightarrow> Undef)"

text \<open>A label gives its binding and its symbol table entry the position.\<close>

definition assemble_label ::
  "(addr \<Rightarrow> nat option) \<Rightarrow> nat \<Rightarrow> expr \<Rightarrow> 's world \<times> Elf64_Sym list \<Rightarrow> ('e, 's world \<times> Elf64_Sym list) outcome" where
  "assemble_label context p n = (\<lambda>(w, symtab).
     bindO (nth_arg 0 n) (\<lambda>label_ref. bindO (binding_of w label_ref) (\<lambda>b.
     (case context b of None \<Rightarrow> Undef
      | Some i \<Rightarrow>
          if i < length symtab
          then Ret (w\<lparr>augs := (augs w)(b := (augs w b)\<lparr>offset := of_nat p\<rparr>)\<rparr>,
                    symtab[i := (symtab ! i)\<lparr>st_value := of_nat p\<rparr>])
          else Undef))))"

fun assemble_loop ::
  "(addr \<Rightarrow> nat option) \<Rightarrow> expr list \<Rightarrow> 's world \<Rightarrow> Elf64_Sym list \<Rightarrow> asm_state \<Rightarrow>
   ('e, 's world \<times> Elf64_Sym list \<times> asm_state) outcome" where
  "assemble_loop context [] w symtab st = Ret (w, symtab, st)"
| "assemble_loop context (n # ns) w symtab st =
     (case n of Assembly a oc as \<Rightarrow>
        if oc = LABEL then
          bindO (assemble_label context (pos st) n (w, symtab)) (\<lambda>(w, symtab).
          assemble_loop context ns w symtab st)
        else bindO (assemble_code w context n st) (\<lambda>st. assemble_loop context ns w symtab st)
      | _ \<Rightarrow> Undef)"

definition assemble ::
  "(addr \<Rightarrow> nat option) \<Rightarrow> expr list \<Rightarrow> byte list \<Rightarrow> Elf64_Rela list \<Rightarrow> 's world \<Rightarrow> Elf64_Sym list \<Rightarrow>
   ('e, 's world \<times> Elf64_Sym list \<times> asm_state) outcome" where
  "assemble context ns text_buf rela_buf w symtab =
     assemble_loop context ns w symtab \<lparr>bin = text_buf, pos = 0, relas = rela_buf, rela_ptr = 0\<rparr>"

end
