(* ===== verification/Elf_Writer.thy ===== *)
theory Elf_Writer
  imports Assembler
begin

text \<open>
  The second half of \<open>bootstrap/x86_64_assembler.c\<close>: the sizes of the tables, and \<open>write_elf\<close>, which
  fills the symbol and string tables, assembles the code and writes the object file. Sizes and
  positions are natural numbers; the arrays on the stack start with arbitrary contents, which
  the parameters \<open>junk\<close> and \<open>junk_sym\<close> give.
\<close>

section \<open>Measuring\<close>

definition name_size :: "string option \<Rightarrow> nat" where
  "name_size name = (case name of None \<Rightarrow> 0 | Some nm \<Rightarrow> length nm + 1)"

definition is_label :: "expr \<Rightarrow> bool" where
  "is_label e = (case e of Assembly a oc as \<Rightarrow> oc = LABEL | _ \<Rightarrow> False)"

text \<open>\<open>((union expression *) e->assembly.arguments->fst)\<close> of a label.\<close>

definition label_ref :: "expr \<Rightarrow> expr" where
  "label_ref e = hd (arguments e)"

definition label_name :: "expr \<Rightarrow> string option" where
  "label_name e = symbol_name (label_ref e)"

definition measure_strtab :: "'s world \<Rightarrow> expr list \<Rightarrow> addr list \<Rightarrow> addr list \<Rightarrow> nat" where
  "measure_strtab w generated_expressions undefined_bindings static_bindings =
     1 + sum_list (map (\<lambda>b. name_size (aug_name (augs w b))) undefined_bindings)
       + sum_list (map (\<lambda>b. name_size (aug_name (augs w b))) static_bindings)
       + sum_list (map (\<lambda>e. name_size (label_name e)) (filter is_label generated_expressions))"

definition measure_symtab :: "expr list \<Rightarrow> addr list \<Rightarrow> addr list \<Rightarrow> nat" where
  "measure_symtab generated_expressions undefined_bindings static_bindings =
     1 + (length undefined_bindings + length static_bindings) + length (filter is_label generated_expressions)"

definition SHSTRTAB :: string where
  "SHSTRTAB = [CHR 0x00] @ ''.shstrtab'' @ [CHR 0x00] @ ''.text'' @ [CHR 0x00] @ ''.strtab'' @ [CHR 0x00] @
     ''.symtab'' @ [CHR 0x00] @ ''.bss'' @ [CHR 0x00] @ ''.rela.text'' @ [CHR 0x00]"

definition SH_COUNT :: nat where "SH_COUNT = 7"

definition pad :: "nat \<Rightarrow> nat" where
  "pad n = unat (pad_size (of_nat n) ALIGNMENT)"

definition max_elf_size :: "'s world \<Rightarrow> expr list \<Rightarrow> addr list \<Rightarrow> addr list \<Rightarrow> nat" where
  "max_elf_size w generated_expressions undefined_bindings static_bindings =
     ELF64_EHDR + ELF64_SHDR * SH_COUNT + pad (length SHSTRTAB) +
     pad (MAX_INSTR_LEN * length generated_expressions) +
     pad (measure_strtab w generated_expressions undefined_bindings static_bindings) +
     ELF64_SYM * measure_symtab generated_expressions undefined_bindings static_bindings +
     ELF64_RELA * MAX_INSTR_FIELDS * length generated_expressions"

section \<open>Symbols\<close>

text \<open>The tables while they are filled; \<open>context\<close> is the field of the bindings.\<close>

record elf_state =
  syms :: "Elf64_Sym list"
  sym_ptr :: nat
  strtab :: "byte list"
  strtab_ptr :: nat
  bss_ptr :: u64
  contexts :: "addr \<Rightarrow> nat option"

text \<open>A name is copied with its terminator; a symbol without a name has the empty name at 0.\<close>

definition put_name :: "string option \<Rightarrow> elf_state \<Rightarrow> ('e, Elf64_Word \<times> elf_state) outcome" where
  "put_name name st = (case name of
      None \<Rightarrow> Ret (0, st)
    | Some nm \<Rightarrow> bindO (mem_write (strtab st) (strtab_ptr st) (map byte_of nm @ [0])) (\<lambda>(s, p).
        Ret (of_nat (strtab_ptr st), st\<lparr>strtab := s, strtab_ptr := strtab_ptr st + (length nm + 1)\<rparr>)))"

definition put_symbol ::
  "string option \<Rightarrow> u64 \<Rightarrow> u64 \<Rightarrow> byte \<Rightarrow> Elf64_Half \<Rightarrow> addr \<Rightarrow> elf_state \<Rightarrow> ('e, elf_state) outcome" where
  "put_symbol name value sz bind shndx b st =
     bindO (put_name name st) (\<lambda>(nm, st).
     if sym_ptr st < length (syms st)
     then Ret (st\<lparr>syms := (syms st)[sym_ptr st := \<lparr>st_name = nm, st_info = ELF64_ST_INFO bind STT_NOTYPE,
                    st_other = 0, st_shndx = shndx, st_value = value, st_size = sz\<rparr>],
                  contexts := (contexts st)(b := Some (sym_ptr st)), sym_ptr := sym_ptr st + 1\<rparr>)
     else Undef)"

text \<open>The loops over the static bindings: each gets its place in the zero-initialised section.\<close>

fun static_symbols ::
  "(binding_aug \<Rightarrow> bool) \<Rightarrow> byte \<Rightarrow> addr list \<Rightarrow> 's world \<Rightarrow> elf_state \<Rightarrow> ('e, 's world \<times> elf_state) outcome" where
  "static_symbols sel bind [] w st = Ret (w, st)"
| "static_symbols sel bind (b # bs) w st =
     (let g = augs w b
      in if sel g then
           bindO (put_symbol (aug_name g) (bss_ptr st) (aug_size g) bind 5 b st) (\<lambda>st.
           static_symbols sel bind bs (w\<lparr>augs := (augs w)(b := g\<lparr>offset := bss_ptr st\<rparr>)\<rparr>)
             (st\<lparr>bss_ptr := bss_ptr st + pad_size (aug_size g) WORD_SIZE\<rparr>))
         else static_symbols sel bind bs w st)"

fun undefined_symbols :: "addr list \<Rightarrow> 's world \<Rightarrow> elf_state \<Rightarrow> ('e, elf_state) outcome" where
  "undefined_symbols [] w st = Ret st"
| "undefined_symbols (b # bs) w st =
     (let g = augs w b
      in if scope g = global_scope \<and> state g = undefined_state
         then bindO (put_symbol (aug_name g) 0 0 STB_GLOBAL SHN_UNDEF b st) (undefined_symbols bs w)
         else undefined_symbols bs w st)"

fun label_symbols ::
  "binding_aug_scope \<Rightarrow> byte \<Rightarrow> expr list \<Rightarrow> 's world \<Rightarrow> elf_state \<Rightarrow> ('e, elf_state) outcome" where
  "label_symbols scp bind [] w st = Ret st"
| "label_symbols scp bind (e # es) w st =
     (if is_label e then
        bindO (nth_arg 0 e) (\<lambda>ref. bindO (binding_of w ref) (\<lambda>b.
        if scope (augs w b) = scp
        then bindO (put_symbol (symbol_name ref) 0 0 bind 2 b st) (label_symbols scp bind es w)
        else label_symbols scp bind es w st))
      else label_symbols scp bind es w st)"

definition null_symbol :: Elf64_Sym where
  "null_symbol = \<lparr>st_name = 0, st_info = 0, st_other = 0, st_shndx = SHN_UNDEF, st_value = 0, st_size = 0\<rparr>"

text \<open>
  The tables before the loops: the undefined symbol first, and the empty name. Writing the first
  entry is within the arrays, which have at least one element.
\<close>

definition initial_tables :: "(nat \<Rightarrow> Elf64_Sym) \<Rightarrow> (nat \<Rightarrow> byte) \<Rightarrow> nat \<Rightarrow> nat \<Rightarrow> elf_state" where
  "initial_tables junk_sym junk sym_count strtab_len =
     \<lparr>syms = (map junk_sym [0..<sym_count])[0 := null_symbol], sym_ptr = 1,
      strtab = (map junk [0..<pad strtab_len])[0 := 0], strtab_ptr = 1,
      bss_ptr = 0, contexts = (\<lambda>b. None)\<rparr>"

text \<open>The five loops in their order, with the number of local symbols between them.\<close>

definition fill_tables ::
  "expr list \<Rightarrow> addr list \<Rightarrow> addr list \<Rightarrow> 's world \<Rightarrow> elf_state \<Rightarrow> ('e, 's world \<times> nat \<times> elf_state) outcome" where
  "fill_tables generated_expressions undefined_bindings static_bindings w st =
     bindO (static_symbols (\<lambda>g. scope g = local_scope) STB_LOCAL static_bindings w st) (\<lambda>(w, st).
     bindO (label_symbols local_scope STB_LOCAL generated_expressions w st) (\<lambda>st.
     let local_symbol_count = sym_ptr st
     in bindO (static_symbols (\<lambda>g. scope g = global_scope \<and> state g = defined_state) STB_GLOBAL
          static_bindings w st) (\<lambda>(w, st).
        bindO (undefined_symbols undefined_bindings w st) (\<lambda>st.
        bindO (label_symbols global_scope STB_GLOBAL generated_expressions w st) (\<lambda>st.
        Ret (w, local_symbol_count, st))))))"

section \<open>Headers\<close>

definition ident_bytes :: "byte list" where
  "ident_bytes = fold (\<lambda>i e_ident. e_ident[i := 0]) [7..<EI_NIDENT]
     ((replicate EI_NIDENT 0)[EI_MAG0 := ELFMAG0, EI_MAG1 := ELFMAG1, EI_MAG2 := ELFMAG2, EI_MAG3 := ELFMAG3,
       EI_CLASS := ELFCLASS64, EI_DATA := ELFDATA2LSB, EI_VERSION := 1, EI_OSABI := ELFOSABI_SYSV,
       EI_ABIVERSION := 0])"

definition file_header :: Elf64_Ehdr where
  "file_header = \<lparr>e_ident = ident_bytes, e_type = ET_REL, e_machine = EM_X86_64, e_version = 1, e_entry = 0,
     e_phoff = 0, e_shoff = of_nat ELF64_EHDR, e_flags = 0, e_ehsize = of_nat ELF64_EHDR, e_phentsize = 0,
     e_phnum = 0, e_shentsize = of_nat ELF64_SHDR, e_shnum = of_nat SH_COUNT, e_shstrndx = 1\<rparr>"

definition undef_shdr :: Elf64_Shdr where
  "undef_shdr = \<lparr>sh_name = 0, sh_type = SHT_NULL, sh_flags = 0, sh_addr = 0, sh_offset = 0, sh_size = 0,
     sh_link = ucast SHN_UNDEF, sh_info = 0, sh_addralign = 0, sh_entsize = 0\<rparr>"

definition shstrtab_shdr :: Elf64_Shdr where
  "shstrtab_shdr = \<lparr>sh_name = 1, sh_type = SHT_STRTAB, sh_flags = 0, sh_addr = 0,
     sh_offset = of_nat (ELF64_EHDR + SH_COUNT * ELF64_SHDR), sh_size = of_nat (length SHSTRTAB),
     sh_link = ucast SHN_UNDEF, sh_info = 0, sh_addralign = 0, sh_entsize = 0\<rparr>"

definition text_shdr :: "nat \<Rightarrow> Elf64_Shdr" where
  "text_shdr text_len = \<lparr>sh_name = sh_name shstrtab_shdr + of_nat (length ''.shstrtab'') + 1,
     sh_type = SHT_PROGBITS, sh_flags = SHF_ALLOC OR SHF_EXECINSTR, sh_addr = 0,
     sh_offset = sh_offset shstrtab_shdr + of_nat (pad (length SHSTRTAB)), sh_size = of_nat text_len,
     sh_link = ucast SHN_UNDEF, sh_info = 0, sh_addralign = 1, sh_entsize = 0\<rparr>"

definition strtab_shdr :: "nat \<Rightarrow> nat \<Rightarrow> nat \<Rightarrow> Elf64_Shdr" where
  "strtab_shdr text_len max_text_sec_len strtab_len =
     \<lparr>sh_name = sh_name (text_shdr text_len) + of_nat (length ''.text'') + 1,
      sh_type = SHT_STRTAB, sh_flags = 0, sh_addr = 0,
      sh_offset = sh_offset (text_shdr text_len) + of_nat max_text_sec_len, sh_size = of_nat strtab_len,
      sh_link = ucast SHN_UNDEF, sh_info = 0, sh_addralign = 0, sh_entsize = 0\<rparr>"

definition symtab_shdr :: "Elf64_Shdr \<Rightarrow> nat \<Rightarrow> nat \<Rightarrow> nat \<Rightarrow> Elf64_Shdr" where
  "symtab_shdr strtab_hdr strtab_len sym_count local_symbol_count =
     \<lparr>sh_name = sh_name strtab_hdr + of_nat (length ''.strtab'') + 1,
      sh_type = SHT_SYMTAB, sh_flags = 0, sh_addr = 0,
      sh_offset = sh_offset strtab_hdr + of_nat (pad strtab_len), sh_size = of_nat (ELF64_SYM * sym_count),
      sh_link = 3, sh_info = of_nat local_symbol_count, sh_addralign = 0, sh_entsize = of_nat ELF64_SYM\<rparr>"

definition bss_shdr :: "Elf64_Shdr \<Rightarrow> u64 \<Rightarrow> Elf64_Shdr" where
  "bss_shdr symtab_hdr bss_size =
     \<lparr>sh_name = sh_name symtab_hdr + of_nat (length ''.symtab'') + 1,
      sh_type = SHT_NOBITS, sh_flags = SHF_WRITE OR SHF_ALLOC, sh_addr = 0,
      sh_offset = sh_offset symtab_hdr + sh_size symtab_hdr, sh_size = bss_size,
      sh_link = ucast SHN_UNDEF, sh_info = 0, sh_addralign = WORD_SIZE, sh_entsize = 0\<rparr>"

definition rela_shdr :: "Elf64_Shdr \<Rightarrow> nat \<Rightarrow> Elf64_Shdr" where
  "rela_shdr bss_hdr rela_count =
     \<lparr>sh_name = sh_name bss_hdr + of_nat (length ''.bss'') + 1,
      sh_type = SHT_RELA, sh_flags = 0, sh_addr = 0, sh_offset = sh_offset bss_hdr + 0,
      sh_size = of_nat (rela_count * ELF64_RELA), sh_link = 4, sh_info = 2, sh_addralign = 0,
      sh_entsize = of_nat ELF64_RELA\<rparr>"

section \<open>The object file\<close>

definition section_headers :: "nat \<Rightarrow> nat \<Rightarrow> nat \<Rightarrow> nat \<Rightarrow> nat \<Rightarrow> u64 \<Rightarrow> nat \<Rightarrow> Elf64_Shdr list" where
  "section_headers text_len max_text_sec_len strtab_len sym_count local_symbol_count bss_size rela_count =
     (let st = strtab_shdr text_len max_text_sec_len strtab_len;
          sy = symtab_shdr st strtab_len sym_count local_symbol_count;
          bs = bss_shdr sy bss_size
      in [undef_shdr, shstrtab_shdr, text_shdr text_len, st, sy, bs, rela_shdr bs rela_count])"

text \<open>The calls of \<open>mem_write\<close> one after the other.\<close>

fun write_all :: "byte list list \<Rightarrow> byte list \<Rightarrow> nat \<Rightarrow> ('e, byte list \<times> nat) outcome" where
  "write_all [] mem p = Ret (mem, p)"
| "write_all (bs # bss) mem p = bindO (mem_write mem p bs) (\<lambda>(mem, p). write_all bss mem p)"

text \<open>The result is the file, its size and the world with the offsets of bindings and labels.\<close>

definition write_elf ::
  "(nat \<Rightarrow> Elf64_Sym) \<Rightarrow> (nat \<Rightarrow> byte) \<Rightarrow> (nat \<Rightarrow> byte) \<Rightarrow> expr list \<Rightarrow> addr list \<Rightarrow> addr list \<Rightarrow> 's world \<Rightarrow>
   ('e, byte list \<times> nat \<times> 's world) outcome" where
  "write_elf junk_sym junk junk' generated_expressions undefined_bindings static_bindings w =
     (let n = length generated_expressions;
          file = replicate (max_elf_size w generated_expressions undefined_bindings static_bindings) 0;
          strtab_len = measure_strtab w generated_expressions undefined_bindings static_bindings;
          sym_count = measure_symtab generated_expressions undefined_bindings static_bindings;
          max_text_sec_len = pad (MAX_INSTR_LEN * n)
      in bindO (fill_tables generated_expressions undefined_bindings static_bindings w
           (initial_tables junk_sym junk sym_count strtab_len)) (\<lambda>(w, local_symbol_count, st).
         bindO (assemble (contexts st) generated_expressions (replicate max_text_sec_len 0)
           (replicate (MAX_INSTR_FIELDS * n) \<lparr>r_offset = 0, r_info = 0, r_addend = 0\<rparr>) w (syms st))
           (\<lambda>(w, symtab, asm).
         let rela_bytes_list = map rela_bytes (take (rela_ptr asm) (relas asm));
             shstrtab_padded = map byte_of SHSTRTAB @ map junk' [length SHSTRTAB..<pad (length SHSTRTAB)]
         in bindO (write_all ([ehdr_bytes file_header] @
              map shdr_bytes (section_headers (pos asm) max_text_sec_len strtab_len sym_count local_symbol_count
                (bss_ptr st) (rela_ptr asm)) @
              [shstrtab_padded, bin asm, strtab st, concat (map sym_bytes symtab), concat rela_bytes_list])
              file 0) (\<lambda>(file, p). Ret (file, p, w)))))"

end
