(* ===== verification/Machine_Code.thy ===== *)
theory Machine_Code
  imports Elf
begin

text \<open>
  The machine language that \<open>bootstrap/x86_64_assembler.c\<close> writes, as the specification of the
  encoder: the instructions, their encoding, and a decoder that follows the rules of the
  processor for prefixes, operand bytes and displacements. Decoding inverts encoding.
\<close>

section \<open>Machine instructions\<close>

text \<open>The instructions of the processor that the compiler uses; a register is four bits.\<close>

type_synonym xreg = "4 word"

datatype insn =
    Lea xreg xreg "32 word"
  | Load xreg xreg "32 word"
  | Store xreg xreg "32 word"
  | Mov xreg xreg
  | Or xreg xreg
  | Sub_imm xreg "32 word"
  | Add_imm xreg "32 word"
  | Mov_imm xreg "64 word"
  | Push xreg
  | Pop xreg
  | Leave
  | Ret_near
  | Jmp "32 word"
  | Je "32 word"
  | Jmp_reg xreg
  | Call_reg xreg

definition rex_byte :: "bool \<Rightarrow> bool \<Rightarrow> bool \<Rightarrow> byte" where
  "rex_byte w r b = 0x40 OR (if w then 8 else 0) OR (if r then 4 else 0) OR (if b then 1 else 0)"

definition modrm_byte :: "byte \<Rightarrow> xreg \<Rightarrow> xreg \<Rightarrow> byte" where
  "modrm_byte md reg rm = push_bit 6 md OR push_bit 3 (ucast (take_bit 3 reg)) OR ucast (take_bit 3 rm)"

definition direct :: "byte \<Rightarrow> bool \<Rightarrow> xreg \<Rightarrow> xreg \<Rightarrow> byte list" where
  "direct opc w reg rm = [rex_byte w (bit reg 3) (bit rm 3), opc, modrm_byte 3 reg rm]"

definition indirect :: "byte \<Rightarrow> xreg \<Rightarrow> xreg \<Rightarrow> 32 word \<Rightarrow> byte list" where
  "indirect opc reg base disp =
     [rex_byte True (bit reg 3) (bit base 3), opc, modrm_byte 2 reg base] @
     (if take_bit 3 base = 4 then [0x24] else []) @ le_bytes 4 disp"

definition short_form :: "byte \<Rightarrow> xreg \<Rightarrow> byte list" where
  "short_form opc reg = (if bit reg 3 then [0x41] else []) @ [opc OR ucast (take_bit 3 reg)]"

fun encode :: "insn \<Rightarrow> byte list" where
  "encode (Lea d b disp) = indirect 0x8D d b disp"
| "encode (Load d b disp) = indirect 0x8B d b disp"
| "encode (Store s b disp) = indirect 0x89 s b disp"
| "encode (Mov d s) = direct 0x8B True d s"
| "encode (Or d s) = direct 0x0B True d s"
| "encode (Sub_imm d v) = direct 0x81 True 5 d @ le_bytes 4 v"
| "encode (Add_imm d v) = direct 0x81 True 0 d @ le_bytes 4 v"
| "encode (Mov_imm d v) = [rex_byte True False (bit d 3), 0xB8 OR ucast (take_bit 3 d)] @ le_bytes 8 v"
| "encode (Push r) = short_form 0x50 r"
| "encode (Pop r) = short_form 0x58 r"
| "encode Leave = [0xC9]"
| "encode Ret_near = [0xC3]"
| "encode (Jmp disp) = 0xE9 # le_bytes 4 disp"
| "encode (Je disp) = 0x0F # 0x84 # le_bytes 4 disp"
| "encode (Jmp_reg r) = direct 0xFF False 4 r"
| "encode (Call_reg r) = direct 0xFF False 2 r"

text \<open>Decoding: an optional prefix, the opcode, and the operands that the opcode asks for.\<close>

datatype rm_operand = Direct xreg | Indirect xreg "32 word"

definition reg_no :: "bool \<Rightarrow> byte \<Rightarrow> xreg" where
  "reg_no hi b = (if hi then 8 else 0) OR ucast (take_bit 3 b)"

fun take_le :: "nat \<Rightarrow> byte list \<Rightarrow> ('a::len word \<times> byte list) option" where
  "take_le n bs = (if n \<le> length bs then Some (of_le (take n bs), drop n bs) else None)"

declare take_le.simps [simp del]

definition decode_modrm :: "byte \<Rightarrow> byte list \<Rightarrow> (byte \<times> rm_operand \<times> byte list) option" where
  "decode_modrm rex bs = (case bs of [] \<Rightarrow> None | m # bs \<Rightarrow>
     if drop_bit 6 m = 3 then Some (drop_bit 3 m, Direct (reg_no (bit rex 0) m), bs)
     else if drop_bit 6 m = 2 then
       if take_bit 3 m = 4 then
         (case bs of [] \<Rightarrow> None | sib # bs \<Rightarrow>
            if take_bit 3 (drop_bit 3 sib) = 4 \<and> \<not> bit rex 1
            then map_option (\<lambda>(d, bs). (drop_bit 3 m, Indirect (reg_no (bit rex 0) sib) d, bs)) (take_le 4 bs)
            else None)
       else map_option (\<lambda>(d, bs). (drop_bit 3 m, Indirect (reg_no (bit rex 0) m) d, bs)) (take_le 4 bs)
     else None)"

definition split_rex :: "byte list \<Rightarrow> byte \<times> byte list" where
  "split_rex bs = (case bs of [] \<Rightarrow> (0, [])
     | b # rest \<Rightarrow> if b AND 0xF0 = 0x40 then (b, rest) else (0, bs))"

definition decode_op :: "byte \<Rightarrow> byte \<Rightarrow> byte list \<Rightarrow> (insn \<times> byte list) option" where
  "decode_op rex opc bs =
     (if opc = 0x8D \<and> bit rex 3 then
        (case decode_modrm rex bs of
           Some (r, Indirect b d, bs) \<Rightarrow> Some (Lea (reg_no (bit rex 2) r) b d, bs) | _ \<Rightarrow> None)
      else if opc = 0x8B \<and> bit rex 3 then
        (case decode_modrm rex bs of
           Some (r, Indirect b d, bs) \<Rightarrow> Some (Load (reg_no (bit rex 2) r) b d, bs)
         | Some (r, Direct s, bs) \<Rightarrow> Some (Mov (reg_no (bit rex 2) r) s, bs) | _ \<Rightarrow> None)
      else if opc = 0x89 \<and> bit rex 3 then
        (case decode_modrm rex bs of
           Some (r, Indirect b d, bs) \<Rightarrow> Some (Store (reg_no (bit rex 2) r) b d, bs) | _ \<Rightarrow> None)
      else if opc = 0x0B \<and> bit rex 3 then
        (case decode_modrm rex bs of
           Some (r, Direct s, bs) \<Rightarrow> Some (Or (reg_no (bit rex 2) r) s, bs) | _ \<Rightarrow> None)
      else if opc = 0x81 \<and> bit rex 3 then
        (case decode_modrm rex bs of
           Some (r, Direct d, bs) \<Rightarrow>
             map_option (\<lambda>(v, bs). (if take_bit 3 r = 5 then Sub_imm d v else Add_imm d v, bs))
               (if take_bit 3 r \<in> {0, 5} then take_le 4 bs else None)
         | _ \<Rightarrow> None)
      else if opc AND 0xF8 = 0xB8 \<and> bit rex 3 then
        map_option (\<lambda>(v, bs). (Mov_imm (reg_no (bit rex 0) opc) v, bs)) (take_le 8 bs)
      else if opc AND 0xF8 = 0x50 then Some (Push (reg_no (bit rex 0) opc), bs)
      else if opc AND 0xF8 = 0x58 then Some (Pop (reg_no (bit rex 0) opc), bs)
      else if opc = 0xC9 then Some (Leave, bs)
      else if opc = 0xC3 then Some (Ret_near, bs)
      else if opc = 0xE9 then map_option (\<lambda>(d, bs). (Jmp d, bs)) (take_le 4 bs)
      else if opc = 0x0F then
        (case bs of b # bs \<Rightarrow> if b = 0x84 then map_option (\<lambda>(d, bs). (Je d, bs)) (take_le 4 bs) else None
         | [] \<Rightarrow> None)
      else if opc = 0xFF then
        (case decode_modrm rex bs of
           Some (r, Direct d, bs) \<Rightarrow>
             if take_bit 3 r = 4 then Some (Jmp_reg d, bs)
             else if take_bit 3 r = 2 then Some (Call_reg d, bs) else None
         | _ \<Rightarrow> None)
      else None)"

definition decode :: "byte list \<Rightarrow> (insn \<times> byte list) option" where
  "decode bs = (case split_rex bs of (rex, bs) \<Rightarrow>
     (case bs of [] \<Rightarrow> None | opc # bs \<Rightarrow> decode_op rex opc bs))"

section \<open>Decoding what was encoded\<close>

lemma take_le_bytes: "LENGTH('a) \<le> 8 * n \<Longrightarrow> take_le n (le_bytes n v @ bs) = Some (v :: 'a::len word, bs)"
  by (simp add: take_le.simps of_le_bytes_full)

lemma reg_no_modrm_rm [simp]: "reg_no (bit rm 3) (modrm_byte md reg rm) = rm"
proof (rule bit_word_eqI)
  fix n assume "n < LENGTH(4)"
  then have "n = 0 \<or> n = 1 \<or> n = 2 \<or> n = 3" by auto
  then show "bit (reg_no (bit rm 3) (modrm_byte md reg rm)) n = bit rm n"
    by (elim disjE) (auto simp: reg_no_def modrm_byte_def bit_simps)
qed

lemma reg_no_modrm_reg [simp]: "reg_no (bit reg 3) (drop_bit 3 (modrm_byte md reg rm)) = reg"
proof (rule bit_word_eqI)
  fix n assume "n < LENGTH(4)"
  then have "n = 0 \<or> n = 1 \<or> n = 2 \<or> n = 3" by auto
  then show "bit (reg_no (bit reg 3) (drop_bit 3 (modrm_byte md reg rm))) n = bit reg n"
    by (elim disjE) (auto simp: reg_no_def modrm_byte_def bit_simps)
qed

lemma modrm_mod: "drop_bit 6 (modrm_byte md reg rm) = take_bit 2 md"
  unfolding modrm_byte_def by (rule bit_word_eqI) (auto simp: bit_simps)

lemma modrm_mods [simp]: "drop_bit 6 (modrm_byte 2 reg rm) = 2" "drop_bit 6 (modrm_byte 3 reg rm) = 3"
  by (simp_all add: modrm_mod)

lemma modrm_rm [simp]: "take_bit 3 (modrm_byte md reg rm) = ucast (take_bit 3 rm)"
  unfolding modrm_byte_def by (rule bit_word_eqI) (auto simp: bit_simps)

lemma modrm_reg [simp]: "take_bit 3 (drop_bit 3 (modrm_byte md reg rm)) = ucast (take_bit 3 reg)"
  unfolding modrm_byte_def by (rule bit_word_eqI) (auto simp: bit_simps)

lemma ucast_xreg_eq [simp]: "(ucast (r :: xreg) :: byte) = ucast s \<longleftrightarrow> r = s"
proof
  assume eq: "(ucast r :: byte) = ucast s"
  have "bit r n = bit s n" if "n < LENGTH(4)" for n
    using arg_cong [OF eq, of "\<lambda>w. bit w n"] that by (simp add: bit_simps)
  then show "r = s" by (rule bit_word_eqI)
qed simp

lemma rex_bits [simp]:
  "bit (rex_byte w r b) 3 = w" "bit (rex_byte w r b) 2 = r"
  "\<not> bit (rex_byte w r b) (Suc 0)" "bit (rex_byte w r b) 0 = b"
  by (cases w; cases r; cases b; simp add: rex_byte_def)+

lemma rex_prefix [simp]: "rex_byte w r b AND 0xF0 = 0x40"
  by (cases w; cases r; cases b; simp add: rex_byte_def)

lemma split_rex_simps [simp]:
  "split_rex (rex_byte w r b # bs) = (rex_byte w r b, bs)"
  "c AND 0xF0 \<noteq> 0x40 \<Longrightarrow> split_rex (c # bs) = (0, c # bs)"
  by (simp_all add: split_rex_def)

lemma low_and_high [simp]:
  "ucast (take_bit 3 (r :: xreg)) AND (0xF8 :: byte) = 0"
  "ucast (take_bit 3 (r :: xreg)) AND (0xF0 :: byte) = 0"
proof -
  have 1: "(0xF8 :: byte) = NOT (mask 3)" and 2: "(0xF0 :: byte) = NOT (mask 4)"
    by (simp_all add: mask_eq_exp_minus_1)
  show "ucast (take_bit 3 r) AND (0xF8 :: byte) = 0"
    unfolding 1 by (rule bit_word_eqI) (auto simp: bit_simps)
  show "ucast (take_bit 3 r) AND (0xF0 :: byte) = 0"
    unfolding 2 by (rule bit_word_eqI) (auto simp: bit_simps)
qed

lemma op_high:
  "(c OR ucast (take_bit 3 (r :: xreg))) AND (0xF8 :: byte) = c AND 0xF8"
  "(c OR ucast (take_bit 3 (r :: xreg))) AND (0xF0 :: byte) = c AND 0xF0"
  by (simp_all add: bit.conj_disj_distrib2)

lemma op_differs: "c AND 0xF8 \<noteq> d AND 0xF8 \<Longrightarrow> c OR ucast (take_bit 3 (r :: xreg)) \<noteq> (d :: byte)"
  using op_high(1) [of c r] by auto

lemma reg_no_op:
  "c AND 7 = 0 \<Longrightarrow> reg_no (bit r 3) (c OR ucast (take_bit 3 r)) = r"
proof -
  assume "c AND 7 = 0"
  then have c: "\<not> bit c i" if "i < 3" for i
  proof -
    have "(7 :: byte) = mask 3" by (simp add: mask_eq_exp_minus_1)
    then have "take_bit 3 c = 0" using \<open>c AND 7 = 0\<close> by (simp add: take_bit_eq_mask)
    then have "\<not> bit (take_bit 3 c) i" by simp
    then show ?thesis using that by (simp add: bit_take_bit_iff)
  qed
  show ?thesis
  proof (rule bit_word_eqI)
    fix n assume "n < LENGTH(4)"
    then have "n = 0 \<or> n = 1 \<or> n = 2 \<or> n = 3" by auto
    then show "bit (reg_no (bit r 3) (c OR ucast (take_bit 3 r))) n = bit r n"
      using c [of n] by (elim disjE) (auto simp: reg_no_def bit_simps)
  qed
qed

lemma decode_direct:
  "decode_modrm (rex_byte w r (bit rm 3)) (modrm_byte 3 reg rm # bs) =
     Some (drop_bit 3 (modrm_byte 3 reg rm), Direct rm, bs)"
  by (simp add: decode_modrm_def)

text \<open>The byte after the operands of the registers 4 and 12, which have no short form as a base.\<close>

lemma reg_no_sib: "take_bit 3 r = 4 \<Longrightarrow> reg_no (bit r 3) 0x24 = (r :: xreg)"
proof -
  assume r: "take_bit 3 r = 4"
  have low: "bit r n = bit (4 :: xreg) n" if "n < 3" for n
    using arg_cong [OF r, of "\<lambda>w. bit w n"] that by (simp add: bit_take_bit_iff)
  show ?thesis
  proof (rule bit_word_eqI)
    fix n assume "n < LENGTH(4)"
    then have "n = 0 \<or> n = 1 \<or> n = 2 \<or> n = 3" by auto
    then show "bit (reg_no (bit r 3) 0x24) n = bit r n"
      using low [of n] by (elim disjE) (auto simp: reg_no_def bit_simps)
  qed
qed

lemma decode_indirect:
  "indirect opc reg base disp @ bs =
     rex_byte True (bit reg 3) (bit base 3) # opc # modrm_byte 2 reg base #
       (if take_bit 3 base = 4 then [0x24] else []) @ le_bytes 4 disp @ bs"
  "decode_modrm (rex_byte w (bit reg 3) (bit base 3))
     (modrm_byte 2 reg base # (if take_bit 3 base = 4 then [0x24] else []) @ le_bytes 4 disp @ bs) =
     Some (drop_bit 3 (modrm_byte 2 reg base), Indirect base disp, bs)"
proof -
  show "decode_modrm (rex_byte w (bit reg 3) (bit base 3))
     (modrm_byte 2 reg base # (if take_bit 3 base = 4 then [0x24] else []) @ le_bytes 4 disp @ bs) =
     Some (drop_bit 3 (modrm_byte 2 reg base), Indirect base disp, bs)"
  proof (cases "take_bit 3 base = 4")
    case True
    then have "ucast (take_bit 3 base) = (4 :: byte)" by simp
    then show ?thesis using True
      by (simp add: decode_modrm_def take_le_bytes reg_no_sib)
  next
    case False
    then have "ucast (take_bit 3 base) \<noteq> (4 :: byte)"
      using ucast_xreg_eq [of "take_bit 3 base" 4] by simp
    then show ?thesis using False by (simp add: decode_modrm_def take_le_bytes)
  qed
qed (simp add: indirect_def)

lemma decode_short:
  "decode (short_form 0x50 r @ bs) = Some (Push r, bs)" "decode (short_form 0x58 r @ bs) = Some (Pop r, bs)"
  using reg_no_op [of "0x50" r] reg_no_op [of "0x58" r]
  by (cases "bit r 3"; simp add: decode_def short_form_def split_rex_def op_high decode_op_def op_differs)+

theorem decode_encode: "decode (encode i @ bs) = Some (i, bs)"
proof (cases i)
  case (Push r) then show ?thesis by (simp add: decode_short)
next
  case (Pop r) then show ?thesis by (simp add: decode_short)
qed (simp_all add: decode_def direct_def decode_indirect decode_direct decode_op_def
        op_high op_differs reg_no_op take_le_bytes)

lemma length_encode: "length (encode i) \<le> 10"
  by (cases i) (simp_all add: direct_def indirect_def short_form_def)

end
