(* ===== verification/Assembler_Correct.thy ===== *)
theory Assembler_Correct
  imports Assembler Machine_Code
begin

text \<open>
  What \<open>assemble\<close> of \<open>bootstrap/x86_64_assembler.c\<close> promises: on well-formed assembly expressions it
  stays within the buffers of \<open>write_elf\<close>, the bytes that it writes decode to the instructions, its
  relocations patch zero fields of these bytes, and labels get the positions of the code behind
  them.
\<close>

section \<open>Writing is appending\<close>

definition overwrite :: "'a list \<Rightarrow> nat \<Rightarrow> 'a list \<Rightarrow> 'a list" where
  "overwrite xs i ys = take i xs @ ys @ drop (i + length ys) xs"

lemma length_overwrite [simp]: "i + length ys \<le> length xs \<Longrightarrow> length (overwrite xs i ys) = length xs"
  by (simp add: overwrite_def)

lemma overwrite_Nil [simp]: "overwrite xs i [] = xs"
  by (simp add: overwrite_def)

lemma overwrite_Cons: "i < length xs \<Longrightarrow> overwrite (xs[i := y]) (Suc i) ys = overwrite xs i (y # ys)"
  by (simp add: overwrite_def take_Suc_conv_app_nth)

lemma overwrite_single: "i < length xs \<Longrightarrow> xs[i := y] = overwrite xs i [y]"
  by (simp add: overwrite_def upd_conv_take_nth_drop)

lemma overwrite_append:
  "i + length ys + length zs \<le> length xs \<Longrightarrow>
   overwrite (overwrite xs i ys) (i + length ys) zs = overwrite xs i (ys @ zs)"
  by (cases ys) (auto simp: overwrite_def min_def ac_simps)

lemma mem_write_room:
  "i + length bs \<le> length mem \<Longrightarrow> mem_write mem i bs = Ret (overwrite mem i bs, i + length bs)"
  by (induction mem i bs rule: mem_write.induct) (auto simp: overwrite_Cons)

lemma mem_write_append:
  "mem_write mem i (bs @ cs) = bindO (mem_write mem i bs) (\<lambda>(m, j). mem_write m j cs)"
  by (induction mem i bs rule: mem_write.induct) auto

lemma mem_write_outside: "length mem < i + length bs \<Longrightarrow> i \<le> length mem \<Longrightarrow> mem_write mem i bs = Undef"
  by (induction mem i bs rule: mem_write.induct) auto

lemma emit_Nil [simp]: "emit [] st = Ret st"
  by (simp add: emit_def)

lemma emit_append [simp]:
  "bindO (emit bs st) (emit cs) = (emit (bs @ cs) st :: ('e, asm_state) outcome)"
  by (cases "mem_write (bin st) (pos st) bs :: ('e, byte list \<times> nat) outcome")
     (auto simp: emit_def mem_write_append)

lemma emit_append_then [simp]:
  "bindO (emit bs st) (\<lambda>st. bindO (emit cs st) k) = bindO (emit (bs @ cs) st) k"
  by (simp flip: emit_append add: bindO_assoc)

definition has_room :: "nat \<Rightarrow> nat \<Rightarrow> asm_state \<Rightarrow> bool" where
  "has_room n r st \<longleftrightarrow> pos st + n \<le> length (bin st) \<and> rela_ptr st + r \<le> length (relas st)"

definition wrote :: "byte list \<Rightarrow> Elf64_Rela list \<Rightarrow> asm_state \<Rightarrow> asm_state" where
  "wrote bs rs st = st\<lparr>bin := overwrite (bin st) (pos st) bs, pos := pos st + length bs,
     relas := overwrite (relas st) (rela_ptr st) rs, rela_ptr := rela_ptr st + length rs\<rparr>"

lemma emit_room: "has_room (length bs) 0 st \<Longrightarrow> emit bs st = Ret (wrote bs [] st)"
  by (simp add: emit_def has_room_def mem_write_room wrote_def)

lemma put_rela_room: "has_room 0 1 st \<Longrightarrow> put_rela r st = Ret (wrote [] [r] st)"
  by (simp add: put_rela_def has_room_def wrote_def overwrite_single)

lemma wrote_wrote:
  "has_room (length bs + length cs) (length rs + length ss) st \<Longrightarrow>
   wrote cs ss (wrote bs rs st) = wrote (bs @ cs) (rs @ ss) st"
  by (simp add: wrote_def has_room_def overwrite_append add.assoc)

lemma has_room_wrote:
  "has_room (length bs + n) (length rs + r) st \<Longrightarrow> has_room n r (wrote bs rs st)"
  by (simp add: has_room_def wrote_def)

lemma has_room_mono: "has_room n r st \<Longrightarrow> m \<le> n \<Longrightarrow> s \<le> r \<Longrightarrow> has_room m s st"
  by (simp add: has_room_def)

lemma pos_wrote [simp]: "pos (wrote bs rs st) = pos st + length bs"
  by (simp add: wrote_def)

section \<open>The encoder writes the encodings\<close>

lemma ucast_bits:
  "(reg :: 32 word) AND 8 \<noteq> 0 \<longleftrightarrow> bit (ucast reg :: xreg) 3"
  "(reg :: 32 word) AND 7 = take_bit 3 reg" "(7 :: 32 word) AND reg = take_bit 3 reg"
proof -
  have 7: "(7 :: 32 word) = mask 3" by (simp add: mask_eq_exp_minus_1)
  show "reg AND 7 = take_bit 3 reg" unfolding 7 by (simp add: take_bit_eq_mask)
  then show "7 AND reg = take_bit 3 reg" by (simp add: and.commute)
  show "reg AND 8 \<noteq> 0 \<longleftrightarrow> bit (ucast reg :: xreg) 3"
    using and_exp_eq_0_iff_not_bit [of reg 3] by (simp add: bit_simps)
qed

lemma register_cases:
  assumes "(r :: 32 word) < 16"
  shows "r \<in> {0, 1, 2, 3, 4, 5, 6, 7, 8, 9, 10, 11, 12, 13, 14, 15}"
proof -
  have "unat r < 16" using assms by (simp add: word_less_nat_alt)
  then have "unat r \<in> {0, 1, 2, 3, 4, 5, 6, 7, 8, 9, 10, 11, 12, 13, 14, 15}"
    by (simp only: insert_iff empty_iff) presburger
  then have "(word_of_nat (unat r) :: 32 word) \<in> word_of_nat ` {0, 1, 2, 3, 4, 5, 6, 7, 8, 9, 10, 11, 12, 13, 14, 15}"
    by (rule imageI)
  then show ?thesis by simp
qed

lemma needs_sib:
  assumes "(r :: 32 word) < 16"
  shows "r = RSP \<or> r = R12 \<longleftrightarrow> take_bit 3 (ucast r :: xreg) = 4"
  using register_cases [OF assms] by (elim insertE) (simp_all add: register_defs)

lemma modrm_byte_int:
  "ucast (push_bit 6 md OR push_bit 3 (take_bit 3 reg) OR take_bit 3 rm :: 32 word) =
   modrm_byte (ucast md) (ucast reg) (ucast rm)"
  unfolding modrm_byte_def by (rule bit_word_eqI) (auto simp: bit_simps)

lemma write_mr_instr_emit:
  assumes "reg < 16" "rm < 16"
  shows "write_mr_instr opc reg rm m rexw st =
    emit ([rex_byte rexw (bit (ucast reg :: xreg) 3) (bit (ucast rm :: xreg) 3), opc,
           modrm_byte (if m then 2 else 3) (ucast reg) (ucast rm)] @
          (if m \<and> take_bit 3 (ucast rm :: xreg) = 4 then [0x24] else [])) st"
proof -
  have sib: "ucast (push_bit 3 (4 :: 32 word) OR push_bit 0 (take_bit 3 rm) OR push_bit 6 0) = (0x24 :: byte)"
    if "rm = RSP \<or> rm = R12"
    using that by (auto simp: register_defs)
  have mod_m: "ucast (if m then 2 else 3 :: 32 word) = (if m then 2 else 3 :: byte)" by simp
  have modrm: "ucast (push_bit 6 (if m then 2 else 3) OR push_bit 3 (take_bit 3 reg) OR take_bit 3 rm :: 32 word) =
     modrm_byte (if m then 2 else 3) (ucast reg) (ucast rm)"
    by (simp only: modrm_byte_int mod_m)
  show ?thesis
    unfolding write_mr_instr_def Let_def encoding_defs ucast_bits push_bit_0_id id_apply modrm
      needs_sib [OF assms(2), symmetric]
    using sib by (simp add: rex_byte_def)
qed

lemma opcode_plus_register:
  assumes "opc AND 7 = 0"
  shows "opc + ucast (take_bit 3 reg) = opc OR (ucast (take_bit 3 (ucast (reg :: 32 word) :: xreg)) :: byte)"
proof -
  let ?x = "ucast (take_bit 3 reg) :: byte"
  have 7: "(7 :: byte) = mask 3" by (simp add: mask_eq_exp_minus_1)
  have "?x = ?x AND 7" unfolding 7 by (rule bit_word_eqI) (auto simp: bit_simps)
  then have "opc AND ?x = (opc AND 7) AND ?x" by (metis and.assoc and.commute)
  then have "opc + ?x = opc OR ?x" using assms by (simp add: disjunctive_add_eq_or)
  moreover have "?x = ucast (take_bit 3 (ucast reg :: xreg))"
    by (rule bit_word_eqI) (auto simp: bit_simps)
  ultimately show ?thesis by simp
qed

lemma write_o_instr_emit:
  "opc AND 7 = 0 \<Longrightarrow> write_o_instr opc reg st = emit (short_form opc (ucast reg)) st"
  by (simp add: write_o_instr_def Let_def encoding_defs ucast_bits short_form_def opcode_plus_register)

section \<open>Well-formed assembly expressions\<close>

text \<open>
  What the code reads an operand as, and the operands of each opcode. A displacement has four
  bytes and an address eight; either may be left to a relocation. The predicate \<open>P\<close> holds for the
  bindings that have an entry in the symbol table.
\<close>

datatype operand_kind = Register | Immediate | Displacement | Address | Label_name

definition reference_ok :: "(addr \<Rightarrow> bool) \<Rightarrow> 's world \<Rightarrow> expr \<Rightarrow> bool" where
  "reference_ok P w e = (case e of
      Symbol a n \<Rightarrow> (case symbol_aug (nodes w a) of None \<Rightarrow> False | Some b \<Rightarrow> P b) | _ \<Rightarrow> False)"

fun operand_ok :: "(addr \<Rightarrow> bool) \<Rightarrow> 's world \<Rightarrow> operand_kind \<Rightarrow> expr \<Rightarrow> bool" where
  "operand_ok P w Register e = (case e of Assembly a oc as \<Rightarrow> oc < 16 | _ \<Rightarrow> False)"
| "operand_ok P w Immediate e = (case e of Literal a v \<Rightarrow> True | _ \<Rightarrow> False)"
| "operand_ok P w Displacement e = (case e of
      Literal a v \<Rightarrow> True
    | Assembly a oc as \<Rightarrow> oc = LNKR_SUB_RIP_TO_REF \<and> (case as of [r] \<Rightarrow> reference_ok P w r | _ \<Rightarrow> False)
    | _ \<Rightarrow> False)"
| "operand_ok P w Address e = (case e of
      Literal a v \<Rightarrow> True
    | Symbol a n \<Rightarrow> reference_ok P w e
    | Assembly a oc as \<Rightarrow> oc = LNKR_ADD_OFF_TO_REF \<and>
        (case as of [r, Literal b v] \<Rightarrow> reference_ok P w r | _ \<Rightarrow> False)
    | _ \<Rightarrow> False)"
| "operand_ok P w Label_name e = reference_ok P w e"

definition operand_kinds :: "(u64 \<times> operand_kind list) list" where
  "operand_kinds =
     [(LEAQ_MDB_TO_REG, [Displacement, Register, Register]),
      (MOVQ_REG_TO_MDB, [Register, Displacement, Register]),
      (JMP_REL, [Displacement]),
      (MOVQ_MDB_TO_REG, [Displacement, Register, Register]),
      (PUSHQ_REG, [Register]),
      (MOVQ_REG_TO_REG, [Register, Register]),
      (SUBQ_IMM_TO_REG, [Immediate, Register]),
      (ADDQ_IMM_TO_REG, [Immediate, Register]),
      (POPQ_REG, [Register]),
      (LEAVE, []), (RET, []),
      (JMP_TO_REG, [Register]),
      (JE_REL, [Displacement]),
      (ORQ_REG_TO_REG, [Register, Register]),
      (MOVQ_IMM_TO_REG, [Address, Register]),
      (CALL_REG, [Register]),
      (LABEL, [Label_name])]"

definition instruction_ok :: "(addr \<Rightarrow> bool) \<Rightarrow> 's world \<Rightarrow> expr \<Rightarrow> bool" where
  "instruction_ok P w n = (case n of
      Assembly a oc as \<Rightarrow>
        (case map_of operand_kinds oc of None \<Rightarrow> False | Some ks \<Rightarrow> list_all2 (operand_ok P w) ks as)
    | _ \<Rightarrow> False)"

definition reg_of :: "expr \<Rightarrow> xreg" where
  "reg_of e = (case e of Assembly a oc as \<Rightarrow> ucast oc | _ \<Rightarrow> 0)"

definition static_of :: "expr \<Rightarrow> u64" where
  "static_of e = (case e of Literal a v \<Rightarrow> v | _ \<Rightarrow> 0)"

text \<open>The instruction that an assembly expression stands for, before relocation.\<close>

definition insn_of :: "expr \<Rightarrow> insn option" where
  "insn_of n = (case n of Assembly a oc as \<Rightarrow>
     (if oc = LEAQ_MDB_TO_REG then Some (Lea (reg_of (as ! 2)) (reg_of (as ! 1)) (ucast (static_of (as ! 0))))
      else if oc = MOVQ_REG_TO_MDB then Some (Store (reg_of (as ! 0)) (reg_of (as ! 2)) (ucast (static_of (as ! 1))))
      else if oc = JMP_REL then Some (Jmp (ucast (static_of (as ! 0))))
      else if oc = MOVQ_MDB_TO_REG then Some (Load (reg_of (as ! 2)) (reg_of (as ! 1)) (ucast (static_of (as ! 0))))
      else if oc = PUSHQ_REG then Some (Push (reg_of (as ! 0)))
      else if oc = MOVQ_REG_TO_REG then Some (Mov (reg_of (as ! 1)) (reg_of (as ! 0)))
      else if oc = SUBQ_IMM_TO_REG then Some (Sub_imm (reg_of (as ! 1)) (ucast (static_of (as ! 0))))
      else if oc = ADDQ_IMM_TO_REG then Some (Add_imm (reg_of (as ! 1)) (ucast (static_of (as ! 0))))
      else if oc = POPQ_REG then Some (Pop (reg_of (as ! 0)))
      else if oc = LEAVE then Some Leave
      else if oc = RET then Some Ret_near
      else if oc = JMP_TO_REG then Some (Jmp_reg (reg_of (as ! 0)))
      else if oc = JE_REL then Some (Je (ucast (static_of (as ! 0))))
      else if oc = ORQ_REG_TO_REG then Some (Or (reg_of (as ! 1)) (reg_of (as ! 0)))
      else if oc = MOVQ_IMM_TO_REG then Some (Mov_imm (reg_of (as ! 1)) (static_of (as ! 0)))
      else if oc = CALL_REG then Some (Call_reg (reg_of (as ! 0)))
      else None)
   | _ \<Rightarrow> None)"

definition code_of :: "expr \<Rightarrow> byte list" where
  "code_of n = (case insn_of n of None \<Rightarrow> [] | Some i \<Rightarrow> encode i)"

text \<open>The relocation that a static operand at the end of an instruction needs.\<close>

definition index_of :: "'s world \<Rightarrow> (addr \<Rightarrow> nat option) \<Rightarrow> expr \<Rightarrow> u64" where
  "index_of w context e = (case e of Symbol a n \<Rightarrow>
     (case symbol_aug (nodes w a) of None \<Rightarrow> 0 | Some b \<Rightarrow>
        (case context b of None \<Rightarrow> 0 | Some i \<Rightarrow> of_nat i)) | _ \<Rightarrow> 0)"

definition operand_relas ::
  "'s world \<Rightarrow> (addr \<Rightarrow> nat option) \<Rightarrow> nat \<Rightarrow> expr \<Rightarrow> Elf64_Rela list" where
  "operand_relas w context p e = (case e of
      Symbol a n \<Rightarrow> [\<lparr>r_offset = of_nat p, r_info = ELF64_R_INFO (index_of w context e) R_X86_64_64, r_addend = 0\<rparr>]
    | Assembly a oc as \<Rightarrow>
        (case as of
           [r] \<Rightarrow> [\<lparr>r_offset = of_nat p, r_info = ELF64_R_INFO (index_of w context r) R_X86_64_PC32, r_addend = - 4\<rparr>]
         | [r, l] \<Rightarrow> [\<lparr>r_offset = of_nat p, r_info = ELF64_R_INFO (index_of w context r) R_X86_64_64, r_addend = static_of l\<rparr>]
         | _ \<Rightarrow> [])
    | _ \<Rightarrow> [])"

definition relas_of :: "'s world \<Rightarrow> (addr \<Rightarrow> nat option) \<Rightarrow> nat \<Rightarrow> expr \<Rightarrow> Elf64_Rela list" where
  "relas_of w context p n = (case n of Assembly a oc as \<Rightarrow>
     (if oc = LEAQ_MDB_TO_REG \<or> oc = MOVQ_MDB_TO_REG \<or> oc = JMP_REL \<or> oc = JE_REL
      then operand_relas w context (p + length (code_of n) - 4) (as ! 0)
      else if oc = MOVQ_REG_TO_MDB then operand_relas w context (p + length (code_of n) - 4) (as ! 1)
      else if oc = MOVQ_IMM_TO_REG then operand_relas w context (p + length (code_of n) - 8) (as ! 0)
      else [])
   | _ \<Rightarrow> [])"

lemma le_bytes_ucast: "8 * n \<le> LENGTH('b) \<Longrightarrow> le_bytes n (ucast w :: 'b::len word) = le_bytes n (w :: 'a::len word)"
proof (induction n arbitrary: w)
  case (Suc n)
  have "drop_bit 8 (ucast w :: 'b word) = take_bit (LENGTH('b) - 8) (ucast (drop_bit 8 w))"
    by (rule bit_word_eqI) (auto simp: bit_simps dest: bit_imp_le_length)
  moreover have "(ucast (ucast w :: 'b word) :: byte) = ucast w"
    using Suc.prems by (intro bit_word_eqI) (auto simp: bit_simps)
  ultimately show ?case using Suc by (simp add: le_bytes_take_bit)
qed simp

text \<open>The bindings that have an entry in the symbol table.\<close>

abbreviation entered :: "(addr \<Rightarrow> nat option) \<Rightarrow> addr \<Rightarrow> bool" where
  "entered context b \<equiv> context b \<noteq> None"

lemma reference_index:
  assumes "reference_ok (entered context) w e"
  obtains a nm b i where "e = Symbol a nm" "symbol_aug (nodes w a) = Some b" "context b = Some i"
  using assms by (fastforce simp: reference_ok_def split: expr.splits option.splits)

lemmas reference_simps = symbol_index_def binding_of_def index_of_def

lemma static_simps [simp]:
  "static_of (Literal a v) = v" "static_of (Symbol a nm) = 0" "static_of (Assembly a oc as) = 0"
  by (simp_all add: static_of_def)

text \<open>A relocation followed by the zero bytes that it patches.\<close>

lemma put_then_emit:
  assumes "has_room (length bs) 1 st"
  shows "bindO (put_rela r st) (emit bs) = Ret (wrote bs [r] st)"
proof -
  have "has_room 0 1 st" using assms by (rule has_room_mono) simp_all
  moreover have "has_room (length bs) 0 (wrote [] [r] st)"
    using assms by (intro has_room_wrote) (simp add: has_room_mono)
  ultimately show ?thesis using assms by (simp add: put_rela_room emit_room wrote_wrote)
qed

lemma emit_room': "has_room (length bs) 1 st \<Longrightarrow> emit bs st = Ret (wrote bs [] st)"
  by (rule emit_room) (erule has_room_mono; simp)

lemma le_bytes_0: "le_bytes n (0 :: u64) = replicate n 0"
  by (induction n) simp_all

lemma write_displacement:
  assumes e: "operand_ok (entered context) w Displacement e" and room: "has_room 4 1 st"
  shows "write_static_value w context e 4 st =
    Ret (wrote (le_bytes 4 (static_of e)) (operand_relas w context (pos st) e) st)"
proof (cases e)
  case (Assembly a oc as)
  with e obtain r where as: "as = [r]" "oc = LNKR_SUB_RIP_TO_REF" "reference_ok (entered context) w r"
    by (auto split: list.splits)
  from as(3) obtain c nm d i
    where i: "r = Symbol c nm" "symbol_aug (nodes w c) = Some d" "context d = Some i"
    by (rule reference_index)
  show ?thesis
    using Assembly as i room
    by (simp add: write_static_value_def nth_arg_def operand_relas_def put_then_emit opcode_defs
        reference_simps)
qed (use e room in \<open>auto simp: write_static_value_def operand_relas_def emit_room'\<close>)

lemma write_address:
  assumes e: "operand_ok (entered context) w Address e" and room: "has_room 8 1 st"
  shows "write_static_value w context e 8 st =
    Ret (wrote (le_bytes 8 (static_of e)) (operand_relas w context (pos st) e) st)"
proof (cases e)
  case (Assembly a oc as)
  with e obtain r b v where as: "as = [r, Literal b v]" "oc = LNKR_ADD_OFF_TO_REF" "reference_ok (entered context) w r"
    by (auto split: list.splits expr.splits)
  from as(3) obtain c nm d i
    where i: "r = Symbol c nm" "symbol_aug (nodes w c) = Some d" "context d = Some i"
    by (rule reference_index)
  show ?thesis
    using Assembly as i room
    by (simp add: write_static_value_def nth_arg_def operand_relas_def put_then_emit opcode_defs
        reference_simps)
next
  case (Symbol a nm)
  with e have "reference_ok (entered context) w e" by simp
  then obtain c nm' d i
    where i: "e = Symbol c nm'" "symbol_aug (nodes w c) = Some d" "context d = Some i"
    by (rule reference_index)
  show ?thesis
    using Symbol i room
    by (simp add: write_static_value_def operand_relas_def put_then_emit reference_simps)
qed (use e room in \<open>auto simp: write_static_value_def operand_relas_def emit_room'\<close>)

section \<open>Every instruction is assembled to its encoding\<close>

definition reg32 :: "expr \<Rightarrow> 32 word" where
  "reg32 e = (case e of Assembly a oc as \<Rightarrow> ucast oc | _ \<Rightarrow> 0)"

lemma operand_register:
  "operand_ok P w Register e \<Longrightarrow> as ! i = e \<Longrightarrow> i < length as \<Longrightarrow> operand i (Assembly a oc as) = Ret (reg32 e)"
  by (auto simp: operand_def nth_arg_def reg32_def split: expr.splits)

lemma register_word:
  assumes "operand_ok P w Register e"
  shows "reg32 e < 16" "ucast (reg32 e) = reg_of e"
proof -
  obtain b r as where e: "e = Assembly b r as" "r < 16" using assms by (auto split: expr.splits)
  have "unat r < 16" using e(2) by (simp add: word_less_nat_alt)
  then have "unat (ucast r :: 32 word) < 16" by (simp add: unsigned_ucast_eq take_bit_eq_mod)
  then show "reg32 e < 16" by (simp add: word_less_nat_alt e reg32_def)
  show "ucast (reg32 e) = reg_of e"
    unfolding e reg32_def reg_of_def expr.case by (rule bit_word_eqI) (auto simp: bit_simps)
qed

declare operand_ok.simps [simp del]

lemma operand_relas_length: "length (operand_relas w context p e) \<le> Suc 0"
  by (simp add: operand_relas_def split: expr.splits list.splits)

lemma emit_then_wrote:
  assumes room: "has_room (length bs + length cs) 1 st" and rs: "length rs \<le> Suc 0"
    and f: "has_room (length cs) 1 (wrote bs [] st) \<Longrightarrow> f (wrote bs [] st) = Ret (wrote cs rs (wrote bs [] st))"
  shows "bindO (emit bs st) f = Ret (wrote (bs @ cs) rs st)"
proof -
  have "has_room (length bs) 0 st" using room by (rule has_room_mono) simp_all
  moreover have "has_room (length cs) 1 (wrote bs [] st)"
    using room by (intro has_room_wrote) (simp add: has_room_mono)
  moreover have "has_room (length bs + length cs) (length ([] :: Elf64_Rela list) + length rs) st"
    using room by (rule has_room_mono) (simp_all add: rs)
  ultimately show ?thesis by (simp add: emit_room f wrote_wrote)
qed

lemma emit_displacement:
  assumes "operand_ok (entered context) w Displacement e" "has_room (length bs + 4) 1 st"
  shows "bindO (emit bs st) (write_static_value w context e 4) =
    Ret (wrote (bs @ le_bytes 4 (static_of e)) (operand_relas w context (pos st + length bs) e) st)"
  using assms by (intro emit_then_wrote) (simp_all add: operand_relas_length write_displacement)

lemma emit_address:
  assumes "operand_ok (entered context) w Address e" "has_room (length bs + 8) 1 st"
  shows "bindO (emit bs st) (write_static_value w context e 8) =
    Ret (wrote (bs @ le_bytes 8 (static_of e)) (operand_relas w context (pos st + length bs) e) st)"
  using assms by (intro emit_then_wrote) (simp_all add: operand_relas_length write_address)

lemma write_mdb_encodes:
  assumes regs: "operand reg_arg n = (Ret reg :: ('e, 32 word) outcome)" "reg < 16"
      "operand rm_arg n = (Ret rm :: ('e, 32 word) outcome)" "rm < 16"
    and d: "nth_arg disp_arg n = (Ret d :: ('e, expr) outcome)" "operand_ok (entered context) w Displacement d"
    and room: "has_room 15 1 st"
  shows "write_mdb w context opc reg_arg rm_arg disp_arg n st =
    (Ret (wrote (indirect opc (ucast reg) (ucast rm) (ucast (static_of d)))
      (operand_relas w context
        (pos st + length (indirect opc (ucast reg) (ucast rm) (ucast (static_of d))) - 4) d) st)
     :: ('e, asm_state) outcome)"
proof -
  let ?pre = "[rex_byte True (bit (ucast reg :: xreg) 3) (bit (ucast rm :: xreg) 3), opc,
    modrm_byte 2 (ucast reg) (ucast rm)] @ (if take_bit 3 (ucast rm :: xreg) = 4 then [0x24] else [])"
  have bytes: "indirect opc (ucast reg) (ucast rm) (ucast (static_of d)) = ?pre @ le_bytes 4 (static_of d)"
    by (simp add: indirect_def le_bytes_ucast)
  have pos: "pos st + length (?pre @ le_bytes 4 (static_of d)) - 4 = pos st + length ?pre"
    by simp
  have "write_mdb w context opc reg_arg rm_arg disp_arg n st =
      bindO (emit ?pre st) (write_static_value w context d 4 :: _ \<Rightarrow> ('e, asm_state) outcome)"
    unfolding write_mdb_def regs(1,3) d(1) bindO.simps write_mr_instr_emit [OF regs(2,4)] if_True simp_thms ..
  also have "\<dots> = Ret (wrote (?pre @ le_bytes 4 (static_of d)) (operand_relas w context (pos st + length ?pre) d) st)"
    by (rule emit_displacement [OF d(2)]) (rule has_room_mono [OF room], simp_all)
  finally show ?thesis unfolding bytes pos .
qed

lemma emit_short: "has_room 15 1 st \<Longrightarrow> length bs \<le> 15 \<Longrightarrow> emit bs st = Ret (wrote bs [] st)"
  by (rule emit_room) (erule has_room_mono; simp)


lemma instruction_okE [consumes 1]:
  assumes "instruction_ok P w n"
  obtains (Lea) a x y z where "n = Assembly a LEAQ_MDB_TO_REG [x, y, z]"
        "operand_ok P w Displacement x"
        "operand_ok P w Register y"
        "operand_ok P w Register z"
    | (Store) a x y z where "n = Assembly a MOVQ_REG_TO_MDB [x, y, z]"
        "operand_ok P w Register x"
        "operand_ok P w Displacement y"
        "operand_ok P w Register z"
    | (Jmp) a x where "n = Assembly a JMP_REL [x]"
        "operand_ok P w Displacement x"
    | (Load) a x y z where "n = Assembly a MOVQ_MDB_TO_REG [x, y, z]"
        "operand_ok P w Displacement x"
        "operand_ok P w Register y"
        "operand_ok P w Register z"
    | (Push) a x where "n = Assembly a PUSHQ_REG [x]"
        "operand_ok P w Register x"
    | (Mov) a x y where "n = Assembly a MOVQ_REG_TO_REG [x, y]"
        "operand_ok P w Register x"
        "operand_ok P w Register y"
    | (Sub) a x y where "n = Assembly a SUBQ_IMM_TO_REG [x, y]"
        "operand_ok P w Immediate x"
        "operand_ok P w Register y"
    | (Add) a x y where "n = Assembly a ADDQ_IMM_TO_REG [x, y]"
        "operand_ok P w Immediate x"
        "operand_ok P w Register y"
    | (Pop) a x where "n = Assembly a POPQ_REG [x]"
        "operand_ok P w Register x"
    | (Leave) a  where "n = Assembly a LEAVE []"
    | (Ret) a  where "n = Assembly a RET []"
    | (Jmp_reg) a x where "n = Assembly a JMP_TO_REG [x]"
        "operand_ok P w Register x"
    | (Je) a x where "n = Assembly a JE_REL [x]"
        "operand_ok P w Displacement x"
    | (Or) a x y where "n = Assembly a ORQ_REG_TO_REG [x, y]"
        "operand_ok P w Register x"
        "operand_ok P w Register y"
    | (Mov_imm) a x y where "n = Assembly a MOVQ_IMM_TO_REG [x, y]"
        "operand_ok P w Address x"
        "operand_ok P w Register y"
    | (Call_reg) a x where "n = Assembly a CALL_REG [x]"
        "operand_ok P w Register x"
    | (Label) a x where "n = Assembly a LABEL [x]"
        "operand_ok P w Label_name x"
proof -
  from assms obtain a oc as ks where n: "n = Assembly a oc as"
      and "map_of operand_kinds oc = Some ks" and args: "list_all2 (operand_ok P w) ks as"
    by (auto simp: instruction_ok_def split: expr.splits option.splits)
  from this(2) have "(oc, ks) \<in> set operand_kinds" by (rule map_of_SomeD)
  then show thesis
    using args n
    by (simp only: operand_kinds_def list.set insert_iff empty_iff prod.inject)
       (elim disjE conjE FalseE; auto simp: list_all2_Cons1 intro: that)
qed

lemma nth_arg_simp [simp]: "i < length as \<Longrightarrow> nth_arg i (Assembly a oc as) = Ret (as ! i)"
  by (simp add: nth_arg_def)

lemma immediate_operand:
  "operand_ok P w Immediate e \<Longrightarrow> as ! i = e \<Longrightarrow> i < length as \<Longrightarrow>
   immediate32 i (Assembly a oc as) = Ret (le_bytes 4 (static_of e))"
  by (auto simp: immediate32_def operand_ok.simps split: expr.splits)

lemma write_mdb_assembly:
  assumes "operand_ok (entered context) w Register (as ! i)" "operand_ok (entered context) w Register (as ! j)"
    "operand_ok (entered context) w Displacement (as ! k)" "i < length as" "j < length as" "k < length as"
    "has_room 15 1 st"
  shows "write_mdb w context opc i j k (Assembly a oc as) st =
    Ret (let bs = indirect opc (reg_of (as ! i)) (reg_of (as ! j)) (ucast (static_of (as ! k)))
         in wrote bs (operand_relas w context (pos st + length bs - 4) (as ! k)) st)"
  using assms(4-6)
    write_mdb_encodes [OF operand_register [OF assms(1) refl assms(4)] register_word(1) [OF assms(1)]
      operand_register [OF assms(2) refl assms(5)] register_word(1) [OF assms(2)] nth_arg_simp [OF assms(6)]
      assms(3,7)]
  by (simp add: register_word [OF assms(1)] register_word [OF assms(2)] Let_def)

lemmas assemble_simps = assemble_code_def code_of_def insn_of_def relas_of_def opcode_defs
  operand_register immediate_operand register_word write_mr_instr_emit write_o_instr_emit direct_def
  short_form_def le_bytes_ucast

lemma assemble_code_encodes:
  assumes ok: "instruction_ok (entered context) w n" and room: "has_room 15 1 st"
    and n: "n = Assembly a oc as" "oc \<noteq> LABEL"
  shows "assemble_code w context n st = Ret (wrote (code_of n) (relas_of w context (pos st) n) st)"
  using ok
proof (cases rule: instruction_okE)
  case (Lea b x y z)
  then show ?thesis using room by (simp add: assemble_simps write_mdb_assembly Let_def)
next
  case (Store b x y z)
  then show ?thesis using room by (simp add: assemble_simps write_mdb_assembly Let_def)
next
  case (Load b x y z)
  then show ?thesis using room by (simp add: assemble_simps write_mdb_assembly Let_def)
next
  case (Jmp b x)
  then show ?thesis using room by (simp add: assemble_simps emit_displacement has_room_mono [OF room]) 
next
  case (Je b x)
  then show ?thesis using room by (simp add: assemble_simps emit_displacement has_room_mono [OF room]) 
next
  case (Mov_imm b x y)
  then show ?thesis using room
    by (simp add: assemble_simps emit_address has_room_mono [OF room] Let_def encoding_defs ucast_bits
        opcode_plus_register rex_byte_def) 
next
  case (Sub b x y)
  then show ?thesis by (simp add: assemble_simps) (simp add: emit_short [OF room])
next
  case (Add b x y)
  then show ?thesis by (simp add: assemble_simps) (simp add: emit_short [OF room])
qed (insert n room, simp_all add: assemble_simps emit_short)

section \<open>Programs\<close>

fun program_relas :: "'s world \<Rightarrow> (addr \<Rightarrow> nat option) \<Rightarrow> nat \<Rightarrow> expr list \<Rightarrow> Elf64_Rela list" where
  "program_relas w context p [] = []"
| "program_relas w context p (n # ns) =
     relas_of w context p n @ program_relas w context (p + length (code_of n)) ns"

definition program_code :: "expr list \<Rightarrow> byte list" where
  "program_code ns = concat (map code_of ns)"

text \<open>The instructions of a program, without its labels, and as many decoded from bytes.\<close>

definition program_insns :: "expr list \<Rightarrow> insn list" where
  "program_insns ns = concat (map (\<lambda>n. case insn_of n of None \<Rightarrow> [] | Some i \<Rightarrow> [i]) ns)"

primrec decode_many :: "nat \<Rightarrow> byte list \<Rightarrow> (insn list \<times> byte list) option" where
  "decode_many 0 bs = Some ([], bs)"
| "decode_many (Suc k) bs = (case decode bs of None \<Rightarrow> None
     | Some (i, bs) \<Rightarrow> map_option (apfst (Cons i)) (decode_many k bs))"

lemma decode_many_encode: "decode_many (length is) (concat (map encode is) @ bs) = Some (is, bs)"
  by (induction "is") (simp_all add: decode_encode)

lemma program_code_insns: "program_code ns = concat (map encode (program_insns ns))"
  by (induction ns) (auto simp: program_code_def program_insns_def code_of_def split: option.splits)

lemma length_code_of: "length (code_of n) \<le> 10"
  using length_encode by (auto simp: code_of_def split: option.splits)

lemma length_relas_of: "length (relas_of w context p n) \<le> 1"
  using operand_relas_length by (auto simp: relas_of_def split: expr.splits)

lemma program_code_Cons [simp]: "program_code (n # ns) = code_of n @ program_code ns"
  by (simp add: program_code_def)

lemma length_program_code: "length (program_code ns) \<le> 10 * length ns"
  using length_code_of by (induction ns) (auto simp: program_code_def, meson add_mono)

text \<open>Labels: the binding and the symbol of each get the length of the code before it.\<close>

definition label_binding :: "'s world \<Rightarrow> expr \<Rightarrow> addr option" where
  "label_binding w n = (case n of
      Assembly a oc as \<Rightarrow> if oc = LABEL then (case as of Symbol c nm # _ \<Rightarrow> symbol_aug (nodes w c) | _ \<Rightarrow> None) else None
    | _ \<Rightarrow> None)"

fun place_labels ::
  "(addr \<Rightarrow> nat option) \<Rightarrow> nat \<Rightarrow> expr list \<Rightarrow> 's world \<times> Elf64_Sym list \<Rightarrow> 's world \<times> Elf64_Sym list" where
  "place_labels context p [] (w, symtab) = (w, symtab)"
| "place_labels context p (n # ns) (w, symtab) =
     place_labels context (p + length (code_of n)) ns
       (case label_binding w n of None \<Rightarrow> (w, symtab)
        | Some b \<Rightarrow> (w\<lparr>augs := (augs w)(b := (augs w b)\<lparr>offset := of_nat p\<rparr>)\<rparr>,
            (case context b of None \<Rightarrow> symtab
             | Some i \<Rightarrow> symtab[i := (symtab ! i)\<lparr>st_value := of_nat p\<rparr>])))"

lemma nodes_irrelevant:
  "nodes w = nodes w' \<Longrightarrow> relas_of w context p n = relas_of w' context p n"
  "nodes w = nodes w' \<Longrightarrow> program_relas w context p ns = program_relas w' context p ns"
  "nodes w = nodes w' \<Longrightarrow> instruction_ok P w n = instruction_ok P w' n"
  "nodes w = nodes w' \<Longrightarrow> label_binding w n = label_binding w' n"
proof -
  assume w: "nodes w = nodes w'"
  have idx: "index_of w = index_of w'" unfolding fun_eq_iff index_of_def w by simp
  have o: "operand_relas w = operand_relas w'" unfolding fun_eq_iff operand_relas_def idx by simp
  show r: "relas_of w context p n = relas_of w' context p n" unfolding relas_of_def o ..
  have r': "relas_of w = relas_of w'" unfolding fun_eq_iff relas_of_def o by simp
  show "program_relas w context p ns = program_relas w' context p ns"
    by (induction ns arbitrary: p) (simp_all add: r')
  have ref: "reference_ok P w = reference_ok P w'" unfolding fun_eq_iff reference_ok_def w by simp
  have op: "operand_ok P w = operand_ok P w'"
  proof (intro ext)
    fix k e
    show "operand_ok P w k e = operand_ok P w' k e" by (cases k; simp only: operand_ok.simps ref)
  qed
  show "instruction_ok P w n = instruction_ok P w' n" unfolding instruction_ok_def op ..
  show "label_binding w n = label_binding w' n" unfolding label_binding_def w ..
qed

lemma label_code [simp]: "code_of (Assembly a LABEL as) = []" "relas_of w context p (Assembly a LABEL as) = []"
  by (simp_all add: code_of_def insn_of_def relas_of_def opcode_defs)

lemma length_program_relas: "length (program_relas w context p ns) \<le> length ns"
proof (induction ns arbitrary: p)
  case (Cons n ns)
  show ?case using Cons.IH [of "p + length (code_of n)"] length_relas_of [of w "context" p n] by simp
qed simp

lemma assemble_loop_result:
  assumes "\<And>n. n \<in> set ns \<Longrightarrow> instruction_ok (entered context) w n"
    and ctx: "\<And>b i. context b = Some i \<Longrightarrow> i < length symtab"
    and "has_room (15 * length ns) (length ns) st"
  shows "(assemble_loop context ns w symtab st :: ('e, 's world \<times> Elf64_Sym list \<times> asm_state) outcome) =
    (case place_labels context (pos st) ns (w, symtab) of (w', symtab') \<Rightarrow>
       Ret (w', symtab', wrote (program_code ns) (program_relas w context (pos st) ns) st))"
  using assms
proof (induction ns arbitrary: w symtab st)
  case Nil
  then show ?case by (simp add: program_code_def wrote_def)
next
  case (Cons n ns)
  have ok: "instruction_ok (entered context) w n" using Cons.prems(1) by simp
  have room: "has_room 15 1 st" "has_room (15 * length ns) (length ns) st"
    using Cons.prems(3) by (auto elim: has_room_mono)
  obtain a oc as where n: "n = Assembly a oc as"
    using ok by (auto simp: instruction_ok_def split: expr.splits)
  show ?case
  proof (cases "oc = LABEL")
    case True
    obtain c nm b i where l: "as = [Symbol c nm]" "symbol_aug (nodes w c) = Some b" "context b = Some i"
      using ok by (cases rule: instruction_okE)
        (use True n in \<open>auto simp: opcode_defs operand_ok.simps reference_ok_def split: expr.splits option.splits\<close>)
    let ?w = "w\<lparr>augs := (augs w)(b := (augs w b)\<lparr>offset := of_nat (pos st)\<rparr>)\<rparr>"
    let ?s = "symtab[i := (symtab ! i)\<lparr>st_value := of_nat (pos st)\<rparr>]"
    have "(assemble_loop context (n # ns) w symtab st :: ('e, 's world \<times> Elf64_Sym list \<times> asm_state) outcome) =
        assemble_loop context ns ?w ?s st"
      using n True l Cons.prems(2) [of b i] by (simp add: assemble_label_def binding_of_def)
    also have "\<dots> = (case place_labels context (pos st) ns (?w, ?s) of (w', symtab') \<Rightarrow>
       Ret (w', symtab', wrote (program_code ns) (program_relas ?w context (pos st) ns) st))"
      by (rule Cons.IH) (use Cons.prems(1,2) room(2) in \<open>auto simp: nodes_irrelevant(3) [of ?w w]\<close>)
    finally show ?thesis
      using n True l by (simp add: label_binding_def nodes_irrelevant(2) [of ?w w])
  next
    case False
    then have nl: "label_binding w n = None" by (simp add: n label_binding_def)
    let ?st = "wrote (code_of n) (relas_of w context (pos st) n) st"
    have len: "length (code_of n) \<le> 15" "length (relas_of w context (pos st) n) \<le> 1"
      using length_code_of [of n] length_relas_of [of w "context" "pos st" n] by simp_all
    have r1: "has_room (length (code_of n) + 15 * length ns) (length (relas_of w context (pos st) n) + length ns) st"
      using Cons.prems(3) len by (auto elim!: has_room_mono)
    have "(assemble_loop context (n # ns) w symtab st :: ('e, 's world \<times> Elf64_Sym list \<times> asm_state) outcome) =
        assemble_loop context ns w symtab ?st"
      by (simp add: n False assemble_code_encodes [OF ok room(1) n False, unfolded n])
    also have "\<dots> = (case place_labels context (pos ?st) ns (w, symtab) of (w', symtab') \<Rightarrow>
       Ret (w', symtab', wrote (program_code ns) (program_relas w context (pos ?st) ns) ?st))"
      by (rule Cons.IH) (use Cons.prems(1,2) has_room_wrote [OF r1] in auto)
    also have "wrote (program_code ns) (program_relas w context (pos ?st) ns) ?st =
        wrote (program_code (n # ns)) (program_relas w context (pos st) (n # ns)) st"
      using length_program_code [of ns] length_program_relas [of w "context" "pos ?st" ns]
      by (subst wrote_wrote) (rule has_room_mono [OF r1], simp_all)
    finally show ?thesis using nl by simp
  qed
qed

text \<open>The place that a relocation patches: a field of zero bytes at the end of its instruction.\<close>

definition field_width :: "Elf64_Rela \<Rightarrow> nat" where
  "field_width r = (if ELF64_R_TYPE (r_info r) = R_X86_64_64 then 8 else 4)"

lemma displacement_okE:
  assumes "operand_ok P w Displacement e"
  obtains (literal) a v where "e = Literal a v"
    | (linker) a r where "e = Assembly a LNKR_SUB_RIP_TO_REF [r]" "reference_ok P w r"
  using assms by (auto simp: operand_ok.simps split: expr.splits list.splits)

lemma address_okE:
  assumes "operand_ok P w Address e"
  obtains (literal) a v where "e = Literal a v"
    | (symbol) a nm where "e = Symbol a nm" "reference_ok P w e"
    | (linker) a r b v where "e = Assembly a LNKR_ADD_OFF_TO_REF [r, Literal b v]" "reference_ok P w r"
proof (cases e)
  case (Assembly a oc as)
  with assms have "oc = LNKR_ADD_OFF_TO_REF"
    and as: "case as of [r, Literal b v] \<Rightarrow> reference_ok P w r | _ \<Rightarrow> False" by (auto simp: operand_ok.simps)
  moreover from as obtain r b v where "as = [r, Literal b v]" "reference_ok P w r"
    by (auto split: list.splits expr.splits)
  ultimately show thesis using Assembly by (auto intro: linker)
qed (use assms literal symbol in \<open>auto simp: operand_ok.simps\<close>)

lemma operand_relas_width:
  assumes "operand_ok P w k e" "r \<in> set (operand_relas w context p e)" "k \<in> {Displacement, Address}"
  shows "r_offset r = of_nat p \<and> static_of e = 0 \<and> field_width r = (if k = Address then 8 else 4)"
proof (cases "k = Address")
  case True
  then have "operand_ok P w Address e" using assms(1) by simp
  then show ?thesis using assms(2) True
    by (cases rule: address_okE) (auto simp: operand_relas_def field_width_def codec_simps relocation_types)
next
  case False
  then have "operand_ok P w Displacement e" using assms(1,3) by simp
  then show ?thesis using assms(2) False
    by (cases rule: displacement_okE) (auto simp: operand_relas_def field_width_def codec_simps relocation_types)
qed

lemma site_at_end:
  assumes "operand_ok P w k e" "k \<in> {Displacement, Address}" "m = (if k = Address then 8 else 4)"
    and "code_of n = bs @ le_bytes m (static_of e)"
    and "r \<in> set (operand_relas w context (p + length (code_of n) - m) e)"
  shows "\<exists>bs. code_of n = bs @ replicate (field_width r) 0 \<and> r_offset r = of_nat (p + length bs)"
  using operand_relas_width [OF assms(1,5,2)] assms(3,4)
  by (intro exI [of _ bs]) (simp add: le_bytes_0)

lemma relas_site:
  assumes ok: "instruction_ok P w n" and r: "r \<in> set (relas_of w context p n)"
  shows "\<exists>bs. code_of n = bs @ replicate (field_width r) 0 \<and> r_offset r = of_nat (p + length bs)"
  using ok
proof (cases rule: instruction_okE)
  case (Lea a x y z)
  show ?thesis
    by (rule site_at_end [OF Lea(2)], simp, rule refl)
      (use r in \<open>auto simp: Lea relas_of_def code_of_def insn_of_def opcode_defs indirect_def le_bytes_ucast\<close>)
next
  case (Load a x y z)
  show ?thesis
    by (rule site_at_end [OF Load(2)], simp, rule refl)
      (use r in \<open>auto simp: Load relas_of_def code_of_def insn_of_def opcode_defs indirect_def le_bytes_ucast\<close>)
next
  case (Store a x y z)
  show ?thesis
    by (rule site_at_end [OF Store(3)], simp, rule refl)
      (use r in \<open>auto simp: Store relas_of_def code_of_def insn_of_def opcode_defs indirect_def le_bytes_ucast\<close>)
next
  case (Jmp a x)
  show ?thesis
    by (rule site_at_end [OF Jmp(2), of _ _ "[0xE9]"], simp, rule refl)
      (use r in \<open>auto simp: Jmp relas_of_def code_of_def insn_of_def opcode_defs le_bytes_ucast\<close>)
next
  case (Je a x)
  show ?thesis
    by (rule site_at_end [OF Je(2), of _ _ "[0x0F, 0x84]"], simp, rule refl)
      (use r in \<open>auto simp: Je relas_of_def code_of_def insn_of_def opcode_defs le_bytes_ucast\<close>)
next
  case (Mov_imm a x y)
  show ?thesis
    by (rule site_at_end [OF Mov_imm(2), of _ _ "take 2 (code_of n)"], simp, rule refl)
      (use r in \<open>auto simp: Mov_imm relas_of_def code_of_def insn_of_def opcode_defs\<close>)
qed (use r in \<open>auto simp: relas_of_def opcode_defs\<close>)

lemma program_relas_site:
  assumes "list_all (instruction_ok P w) ns" "r \<in> set (program_relas w context p ns)"
  shows "\<exists>xs ys. program_code ns = xs @ replicate (field_width r) 0 @ ys \<and> r_offset r = of_nat (p + length xs)"
  using assms
proof (induction ns arbitrary: p)
  case (Cons n ns)
  show ?case
  proof (cases "r \<in> set (relas_of w context p n)")
    case True
    with Cons.prems relas_site [of P w n r "context" p] obtain bs where
      "code_of n = bs @ replicate (field_width r) 0" "r_offset r = of_nat (p + length bs)" by auto
    then show ?thesis by (intro exI [of _ bs] exI [of _ "program_code ns"]) simp
  next
    case False
    with Cons.prems have "r \<in> set (program_relas w context (p + length (code_of n)) ns)" by simp
    with Cons.prems(1) obtain xs ys where
      "program_code ns = xs @ replicate (field_width r) 0 @ ys" "r_offset r = of_nat (p + length (code_of n) + length xs)"
      using Cons.IH [of "p + length (code_of n)"] by auto
    then show ?thesis by (intro exI [of _ "code_of n @ xs"] exI [of _ ys]) (simp add: add.assoc)
  qed
qed simp

lemma place_labels_nodes: "nodes (fst (place_labels context p ns (w, symtab))) = nodes w"
proof (induction ns arbitrary: p w symtab)
  case (Cons n ns)
  show ?case by (simp add: Cons.IH split: option.split)
qed simp

definition label_bindings :: "'s world \<Rightarrow> expr list \<Rightarrow> addr list" where
  "label_bindings w ns = concat (map (\<lambda>n. case label_binding w n of None \<Rightarrow> [] | Some b \<Rightarrow> [b]) ns)"

lemma label_bindings_simps [simp]:
  "label_bindings w [] = []"
  "label_bindings w (n # ns) = (case label_binding w n of None \<Rightarrow> [] | Some b \<Rightarrow> [b]) @ label_bindings w ns"
  by (simp_all add: label_bindings_def)

lemma label_bindings_nodes: "nodes w = nodes w' \<Longrightarrow> label_bindings w ns = label_bindings w' ns"
proof (induction ns)
  case (Cons n ns)
  then show ?case using nodes_irrelevant(4) [of w w' n] by simp
qed simp

lemma place_labels_other:
  assumes "b \<notin> set (label_bindings w ns)"
  shows "augs (fst (place_labels context p ns (w, symtab))) b = augs w b"
  using assms
proof (induction ns arbitrary: p w symtab)
  case (Cons n ns)
  show ?case
  proof (cases "label_binding w n")
    case (Some c)
    let ?w = "w\<lparr>augs := (augs w)(c := (augs w c)\<lparr>offset := of_nat p\<rparr>)\<rparr>"
    have "label_bindings ?w ns = label_bindings w ns" by (rule label_bindings_nodes) simp
    then have "b \<notin> set (label_bindings ?w ns)" using Cons.prems Some by simp
    note Cons.IH [OF this]
    then show ?thesis using Cons.prems Some by simp
  qed (use Cons in simp)
qed simp

lemma place_labels_other_symbol:
  assumes "Some i \<notin> context ` set (label_bindings w ns)"
  shows "snd (place_labels context p ns (w, symtab)) ! i = symtab ! i"
  using assms
proof (induction ns arbitrary: p w symtab)
  case (Cons n ns)
  show ?case
  proof (cases "label_binding w n")
    case (Some c)
    let ?w = "w\<lparr>augs := (augs w)(c := (augs w c)\<lparr>offset := of_nat p\<rparr>)\<rparr>"
    have w: "label_bindings ?w ns = label_bindings w ns" by (rule label_bindings_nodes) simp
    have "Some i \<notin> context ` set (label_bindings ?w ns)"
      using Cons.prems Some unfolding w by auto
    note Cons.IH [OF this]
    moreover have "context c \<noteq> Some i" using Cons.prems Some by auto
    ultimately show ?thesis using Some by (auto split: option.split)
  qed (use Cons in simp)
qed simp

lemma place_labels_length: "length (snd (place_labels context p ns (w, symtab))) = length symtab"
proof (induction ns arbitrary: p w symtab)
  case (Cons n ns)
  show ?case by (auto simp: Cons.IH split: option.split)
qed simp

lemma place_labels_at:
  assumes "k < length ns" "label_binding w (ns ! k) = Some b" "context b = Some i" "i < length symtab"
    and "distinct (label_bindings w ns)" "inj_on context (set (label_bindings w ns))"
  shows "offset (augs (fst (place_labels context p ns (w, symtab))) b) = of_nat (p + length (program_code (take k ns)))"
    and "st_value (snd (place_labels context p ns (w, symtab)) ! i) = of_nat (p + length (program_code (take k ns)))"
proof -
  let ?Q = "\<lambda>r. offset (augs (fst r) b) = of_nat (p + length (program_code (take k ns))) \<and>
    st_value (snd r ! i) = of_nat (p + length (program_code (take k ns)))"
  have "?Q (place_labels context p ns (w, symtab))"
    using assms
  proof (induction ns arbitrary: p w symtab k)
    case (Cons n ns)
    show ?case
    proof (cases k)
      case 0
      with Cons.prems have n: "label_binding w n = Some b" by simp
      let ?w = "w\<lparr>augs := (augs w)(b := (augs w b)\<lparr>offset := of_nat p\<rparr>)\<rparr>"
      have w: "label_bindings ?w ns = label_bindings w ns" by (rule label_bindings_nodes) simp
      have b: "b \<notin> set (label_bindings ?w ns)" using Cons.prems n unfolding w by simp
      have "Some i \<notin> context ` set (label_bindings ?w ns)"
        using Cons.prems(3,6) n b unfolding w by (auto simp: inj_on_def)
      from place_labels_other [OF b] place_labels_other_symbol [OF this]
      show ?thesis using 0 n Cons.prems(3,4) by (simp add: program_code_def)
    next
      case (Suc j)
      let ?r = "case label_binding w n of None \<Rightarrow> (w, symtab)
        | Some c \<Rightarrow> (w\<lparr>augs := (augs w)(c := (augs w c)\<lparr>offset := of_nat p\<rparr>)\<rparr>,
            (case context c of None \<Rightarrow> symtab | Some i \<Rightarrow> symtab[i := (symtab ! i)\<lparr>st_value := of_nat p\<rparr>]))"
      obtain w' s' where r: "?r = (w', s')" by (cases ?r)
      then have w': "nodes w' = nodes w" "length s' = length symtab" by (auto split: option.splits)
      have b: "label_bindings w' ns = label_bindings w ns" by (rule label_bindings_nodes) (rule w')
      have "offset (augs (fst (place_labels context (p + length (code_of n)) ns (w', s'))) b) =
          of_nat (p + length (code_of n) + length (program_code (take j ns))) \<and>
        st_value (snd (place_labels context (p + length (code_of n)) ns (w', s')) ! i) =
          of_nat (p + length (code_of n) + length (program_code (take j ns)))"
        using Cons.prems Suc w' b
        by (intro Cons.IH) (auto simp: nodes_irrelevant(4) [OF w'(1)] intro: inj_on_subset)
      then show ?thesis using Suc r by (simp add: add.assoc)
    qed
  qed simp
  then show "offset (augs (fst (place_labels context p ns (w, symtab))) b) = of_nat (p + length (program_code (take k ns)))"
    "st_value (snd (place_labels context p ns (w, symtab)) ! i) = of_nat (p + length (program_code (take k ns)))"
    by simp_all
qed

section \<open>The assembled program\<close>

text \<open>The precondition of \<open>assemble\<close>, which \<open>write_elf\<close> establishes with the sizes of its buffers.\<close>

definition can_assemble ::
  "(addr \<Rightarrow> nat option) \<Rightarrow> expr list \<Rightarrow> byte list \<Rightarrow> Elf64_Rela list \<Rightarrow> 's world \<Rightarrow> Elf64_Sym list \<Rightarrow> bool" where
  "can_assemble context ns text_buf rela_buf w symtab \<longleftrightarrow>
     list_all (instruction_ok (entered context) w) ns \<and> ran context \<subseteq> {..<length symtab} \<and>
     MAX_INSTR_LEN * length ns \<le> length text_buf \<and> MAX_INSTR_FIELDS * length ns \<le> length rela_buf"

lemma assemble_result:
  assumes "can_assemble context ns text_buf rela_buf w symtab"
  shows "assemble context ns text_buf rela_buf w symtab =
    (case place_labels context 0 ns (w, symtab) of (w', symtab') \<Rightarrow>
       Ret (w', symtab', wrote (program_code ns) (program_relas w context 0 ns)
         \<lparr>bin = text_buf, pos = 0, relas = rela_buf, rela_ptr = 0\<rparr>))"
proof -
  have "i < length symtab" if "context b = Some i" for b i
    using that assms by (auto simp: can_assemble_def intro: ranI)
  moreover have "has_room (15 * length ns) (length ns) \<lparr>bin = text_buf, pos = 0, relas = rela_buf, rela_ptr = 0\<rparr>"
    using assms by (simp add: can_assemble_def has_room_def MAX_INSTR_LEN_def MAX_INSTR_FIELDS_def)
  ultimately show ?thesis
    using assms unfolding assemble_def
    by (subst assemble_loop_result) (auto simp: can_assemble_def list_all_iff)
qed

lemma written_program:
  assumes "can_assemble context ns text_buf rela_buf w symtab"
  defines "st \<equiv> wrote (program_code ns) (program_relas w context 0 ns)
    \<lparr>bin = text_buf, pos = 0, relas = rela_buf, rela_ptr = 0\<rparr>"
  shows "bin st = program_code ns @ drop (length (program_code ns)) text_buf"
    "pos st = length (program_code ns)" "pos st \<le> MAX_INSTR_LEN * length ns"
    "take (rela_ptr st) (relas st) = program_relas w context 0 ns" "rela_ptr st \<le> MAX_INSTR_FIELDS * length ns"
    "length (relas st) = length rela_buf"
  using assms(1) length_program_code [of ns] length_program_relas [of w "context" 0 ns]
  by (simp_all add: st_def wrote_def overwrite_def can_assemble_def MAX_INSTR_LEN_def MAX_INSTR_FIELDS_def)

text \<open>C4. For well-shaped instructions and labels with room in the buffers
\<open>assemble\<close> writes exactly the machine code of the instructions: a decoder of x86-64
reads the instruction of each expression back, in order and with nothing left over. The bounds
of the buffers hold, and the rest of the text buffer stays.\<close>

lemma assembled_code_decodes:
  assumes "can_assemble context ns text_buf rela_buf w symtab"
  shows "\<exists>w' symtab' st. (assemble context ns text_buf rela_buf w symtab :: ('e, _) outcome) = Ret (w', symtab', st) \<and>
    decode_many (length (program_insns ns)) (take (pos st) (bin st)) = Some (program_insns ns, []) \<and>
    pos st \<le> MAX_INSTR_LEN * length ns \<and> drop (pos st) (bin st) = drop (pos st) text_buf \<and>
    rela_ptr st \<le> MAX_INSTR_FIELDS * length ns"
proof -
  let ?st = "wrote (program_code ns) (program_relas w context 0 ns)
    \<lparr>bin = text_buf, pos = 0, relas = rela_buf, rela_ptr = 0\<rparr>"
  obtain w' symtab' where p: "place_labels context 0 ns (w, symtab) = (w', symtab')" by fastforce
  show ?thesis
    by (intro exI [of _ w'] exI [of _ symtab'] exI [of _ ?st])
      (use decode_many_encode [of "program_insns ns" "[]"] written_program(3) [OF assms] in
        \<open>simp add: assemble_result [OF assms] p written_program [OF assms] flip: program_code_insns\<close>)
qed

text \<open>C15. Each relocation that \<open>assemble\<close> writes patches a field that lies
within the written code and was left zero for it.\<close>

lemma relocations_patch_zeros:
  assumes "can_assemble context ns text_buf rela_buf w symtab" "MAX_INSTR_LEN * length ns < 2 ^ 31"
    and "(assemble context ns text_buf rela_buf w symtab :: ('e, _) outcome) = Ret (w', symtab', st)"
    and "r \<in> set (take (rela_ptr st) (relas st))"
  shows "unat (r_offset r) + field_width r \<le> pos st \<and>
    take (field_width r) (drop (unat (r_offset r)) (bin st)) = replicate (field_width r) 0"
proof -
  from assms(3) have st: "st = wrote (program_code ns) (program_relas w context 0 ns)
      \<lparr>bin = text_buf, pos = 0, relas = rela_buf, rela_ptr = 0\<rparr>"
    unfolding assemble_result [OF assms(1)] by (simp split: prod.splits)
  note prog = written_program [OF assms(1), folded st]
  have "r \<in> set (program_relas w context 0 ns)" using assms(4) prog(4) by simp
  then obtain xs ys where c: "program_code ns = xs @ replicate (field_width r) 0 @ ys" and r: "r_offset r = of_nat (length xs)"
    using program_relas_site [of "entered context" w ns r "context" 0] assms(1) by (auto simp: can_assemble_def)
  have "length xs < 2 ^ 64" using prog(2,3) assms(2) c by simp
  then have "unat (r_offset r) = length xs" by (simp add: r unat_of_nat)
  then show ?thesis using prog(1,2) c by simp
qed

text \<open>C16. After \<open>assemble\<close> the offset of a label and the value of its symbol
are the length of the code of the expressions before it.\<close>

lemma labels_at_positions:
  assumes "can_assemble context ns text_buf rela_buf w symtab"
    and "distinct (label_bindings w ns)" "inj_on context (set (label_bindings w ns))"
    and "(assemble context ns text_buf rela_buf w symtab :: ('e, _) outcome) = Ret (w', symtab', st)"
    and "k < length ns" "label_binding w (ns ! k) = Some b" "context b = Some i"
  shows "\<exists>p. take p (bin st) = program_code (take k ns) \<and> p \<le> pos st \<and>
    offset (augs w' b) = of_nat p \<and> st_value (symtab' ! i) = of_nat p"
proof -
  from assms(4) have st: "st = wrote (program_code ns) (program_relas w context 0 ns)
      \<lparr>bin = text_buf, pos = 0, relas = rela_buf, rela_ptr = 0\<rparr>"
    and p: "place_labels context 0 ns (w, symtab) = (w', symtab')"
    unfolding assemble_result [OF assms(1)] by (auto split: prod.splits)
  note prog = written_program [OF assms(1), folded st]
  have "program_code ns = program_code (take k ns) @ program_code (drop k ns)"
    by (simp add: program_code_def flip: concat_append map_append)
  moreover have "i < length symtab" using assms(1,7) by (auto simp: can_assemble_def intro: ranI)
  ultimately show ?thesis
    using place_labels_at [OF assms(5-7) _ assms(2,3), of symtab 0] prog(1,2) p
    by (intro exI [of _ "length (program_code (take k ns))"]) simp
qed

text \<open>A small program: a label, a jump back to it, a move and a return.\<close>

definition small_world :: "unit world" where
  "small_world = \<lparr>nodes = (\<lambda>a. zero_node\<lparr>symbol_aug := Some 100\<rparr>),
     augs = (\<lambda>a. \<lparr>aug_name = None, offset = 0, aug_size = 0, aug_type = absolute_storage,
       scope = local_scope, state = defined_state, aug_symbol = None, aug_expression = None\<rparr>),
     sigs = (\<lambda>a. Var a), region_state = ()\<rparr>"

definition small_context :: "addr \<Rightarrow> nat option" where
  "small_context b = (if b = 100 then Some 1 else None)"

definition small_program :: "expr list" where
  "small_program =
     [Assembly 1 LABEL [Symbol 2 None],
      Assembly 3 JMP_REL [Assembly 4 LNKR_SUB_RIP_TO_REF [Symbol 5 None]],
      Assembly 6 MOVQ_REG_TO_REG [Assembly 7 RSP [], Assembly 8 RBP []],
      Assembly 9 RET []]"

definition small_symbol :: Elf64_Sym where
  "small_symbol = \<lparr>st_name = 0, st_info = 0, st_other = 0, st_shndx = 2, st_value = 7, st_size = 0\<rparr>"

definition small_rela :: Elf64_Rela where
  "small_rela = \<lparr>r_offset = 0, r_info = 0, r_addend = 0\<rparr>"

lemma small_can_assemble:
  "can_assemble small_context small_program (replicate 60 0) (replicate 8 small_rela) small_world
     [small_symbol, small_symbol]"
  unfolding can_assemble_def
proof (intro conjI)
  show "list_all (instruction_ok (entered small_context) small_world) small_program"
    by (simp add: small_program_def instruction_ok_def operand_kinds_def opcode_defs operand_ok.simps
        reference_ok_def small_world_def small_context_def register_defs)
  show "ran small_context \<subseteq> {..<length [small_symbol, small_symbol]}"
    by (auto simp: small_context_def ran_def split: if_splits)
qed (simp_all add: MAX_INSTR_LEN_def MAX_INSTR_FIELDS_def small_program_def)

definition small_state :: asm_state where
  "small_state = wrote (program_code small_program) (program_relas small_world small_context 0 small_program)
     \<lparr>bin = replicate 60 0, pos = 0, relas = replicate 8 small_rela, rela_ptr = 0\<rparr>"

lemma small_insns: "program_insns small_program = [Jmp 0, Mov 5 4, Ret_near]"
  by (simp add: small_program_def program_insns_def insn_of_def opcode_defs static_of_def reg_of_def register_defs)

lemma small_relas:
  "program_relas small_world small_context 0 small_program =
     [\<lparr>r_offset = 1, r_info = ELF64_R_INFO 1 R_X86_64_PC32, r_addend = - 4\<rparr>]"
  by (simp add: small_program_def relas_of_def opcode_defs operand_relas_def code_of_def insn_of_def
      index_of_def small_world_def small_context_def)

lemma small_assembled:
  "assemble small_context small_program (replicate 60 0) (replicate 8 small_rela) small_world
     [small_symbol, small_symbol] =
   Ret (fst (place_labels small_context 0 small_program (small_world, [small_symbol, small_symbol])),
        snd (place_labels small_context 0 small_program (small_world, [small_symbol, small_symbol])),
        small_state)"
  by (simp add: assemble_result [OF small_can_assemble] small_state_def case_prod_unfold)

lemma assembled_code_decodes_witness:
  "\<exists>w' symtab' st. (assemble small_context small_program (replicate 60 0) (replicate 8 small_rela)
      small_world [small_symbol, small_symbol] :: (nat, _) outcome) = Ret (w', symtab', st) \<and>
    decode_many 3 (take (pos st) (bin st)) = Some ([Jmp 0, Mov 5 4, Ret_near], [])"
proof -
  have "length (program_insns small_program) = 3" by (simp add: small_insns)
  then show ?thesis
    using assembled_code_decodes [OF small_can_assemble, where ?'e = nat] small_insns by metis
qed

lemma relocations_patch_zeros_witness:
  "1 + 4 \<le> pos small_state \<and> take 4 (drop 1 (bin small_state)) = replicate 4 0"
proof -
  let ?r = "\<lparr>r_offset = 1, r_info = ELF64_R_INFO 1 R_X86_64_PC32, r_addend = - 4\<rparr>"
  have "?r \<in> set (take (rela_ptr small_state) (relas small_state))"
    unfolding written_program(4) [OF small_can_assemble, folded small_state_def] small_relas by simp
  moreover have "MAX_INSTR_LEN * length small_program < 2 ^ 31"
    by (simp add: MAX_INSTR_LEN_def small_program_def)
  moreover have "field_width ?r = 4" by (simp add: field_width_def codec_simps relocation_types)
  ultimately show ?thesis
    using relocations_patch_zeros [OF small_can_assemble _ small_assembled, of ?r] by simp
qed

lemma labels_at_positions_witness:
  "\<exists>p. take p (bin small_state) = [] \<and>
     st_value (snd (place_labels small_context 0 small_program (small_world, [small_symbol, small_symbol])) ! 1) = of_nat p"
proof -
  have "\<exists>p. take p (bin small_state) = program_code (take 0 small_program) \<and> p \<le> pos small_state \<and>
    offset (augs (fst (place_labels small_context 0 small_program (small_world, [small_symbol, small_symbol]))) 100) = of_nat p \<and>
    st_value (snd (place_labels small_context 0 small_program (small_world, [small_symbol, small_symbol])) ! 1) = of_nat p"
    by (rule labels_at_positions [OF small_can_assemble _ _ small_assembled])
      (simp_all add: small_program_def label_bindings_def label_binding_def opcode_defs small_world_def small_context_def)
  then show ?thesis by (auto simp: program_code_def)
qed

end
