(* ===== verification/Elf_Writer_Correct.thy ===== *)
theory Elf_Writer_Correct
  imports Elf_Writer Assembler_Correct
begin

text \<open>
  What \<open>write_elf\<close> of \<open>bootstrap/x86_64_assembler.c\<close> promises: for the bindings and the code of a
  compiled program it fills its tables exactly, stays within all of its buffers, and writes a file
  whose sections hold the tables and the code.
\<close>

section \<open>The entries of the symbol table\<close>

record entry =
  ent_binding :: addr
  ent_name :: "string option"
  ent_value :: u64
  ent_size :: u64
  ent_bind :: byte
  ent_shndx :: Elf64_Half

definition put_entry :: "entry \<Rightarrow> elf_state \<Rightarrow> ('e, elf_state) outcome" where
  "put_entry e = put_symbol (ent_name e) (ent_value e) (ent_size e) (ent_bind e) (ent_shndx e) (ent_binding e)"

fun put_all :: "entry list \<Rightarrow> elf_state \<Rightarrow> ('e, elf_state) outcome" where
  "put_all [] st = Ret st"
| "put_all (e # es) st = bindO (put_entry e st) (put_all es)"

lemma put_all_append: "put_all (es @ fs) st = bindO (put_all es st) (put_all fs)"
  by (induction es arbitrary: st) (auto simp: bindO_assoc intro!: bindO_cong)

definition name_bytes :: "string option \<Rightarrow> byte list" where
  "name_bytes name = (case name of None \<Rightarrow> [] | Some nm \<Rightarrow> map byte_of nm @ [0])"

lemma length_name_bytes [simp]: "length (name_bytes name) = name_size name"
  by (simp add: name_bytes_def name_size_def split: option.split)

definition entry_symbol :: "nat \<Rightarrow> entry \<Rightarrow> Elf64_Sym" where
  "entry_symbol p e = \<lparr>st_name = (if ent_name e = None then 0 else of_nat p),
     st_info = ELF64_ST_INFO (ent_bind e) STT_NOTYPE, st_other = 0, st_shndx = ent_shndx e,
     st_value = ent_value e, st_size = ent_size e\<rparr>"

fun entry_symbols :: "nat \<Rightarrow> entry list \<Rightarrow> Elf64_Sym list" where
  "entry_symbols p [] = []"
| "entry_symbols p (e # es) = entry_symbol p e # entry_symbols (p + name_size (ent_name e)) es"

definition entry_strings :: "entry list \<Rightarrow> byte list" where
  "entry_strings es = concat (map (\<lambda>e. name_bytes (ent_name e)) es)"

fun entry_contexts :: "nat \<Rightarrow> entry list \<Rightarrow> (addr \<Rightarrow> nat option) \<Rightarrow> addr \<Rightarrow> nat option" where
  "entry_contexts i [] c = c"
| "entry_contexts i (e # es) c = entry_contexts (i + 1) es (c(ent_binding e := Some i))"

lemma length_entry_symbols [simp]: "length (entry_symbols p es) = length es"
  by (induction es arbitrary: p) simp_all

lemma entry_strings_simps [simp]:
  "entry_strings [] = []" "entry_strings (e # es) = name_bytes (ent_name e) @ entry_strings es"
  "entry_strings (es @ fs) = entry_strings es @ entry_strings fs"
  by (simp_all add: entry_strings_def)

lemma entry_symbols_append:
  "entry_symbols p (es @ fs) = entry_symbols p es @ entry_symbols (p + length (entry_strings es)) fs"
  by (induction es arbitrary: p) (simp_all add: add.assoc)

lemma entry_contexts_append:
  "entry_contexts i (es @ fs) c = entry_contexts (i + length es) fs (entry_contexts i es c)"
  by (induction es arbitrary: i c) simp_all

text \<open>With room for them, the entries and their names are appended to the tables.\<close>

definition tables_room :: "entry list \<Rightarrow> elf_state \<Rightarrow> bool" where
  "tables_room es st \<longleftrightarrow> sym_ptr st + length es \<le> length (syms st) \<and>
     strtab_ptr st + length (entry_strings es) \<le> length (strtab st)"

definition with_entries :: "entry list \<Rightarrow> elf_state \<Rightarrow> elf_state" where
  "with_entries es st = st\<lparr>syms := overwrite (syms st) (sym_ptr st) (entry_symbols (strtab_ptr st) es),
     sym_ptr := sym_ptr st + length es,
     strtab := overwrite (strtab st) (strtab_ptr st) (entry_strings es),
     strtab_ptr := strtab_ptr st + length (entry_strings es),
     contexts := entry_contexts (sym_ptr st) es (contexts st)\<rparr>"

lemma put_name_room:
  "strtab_ptr st + name_size name \<le> length (strtab st) \<Longrightarrow>
   put_name name st = Ret (if name = None then 0 else of_nat (strtab_ptr st),
     st\<lparr>strtab := overwrite (strtab st) (strtab_ptr st) (name_bytes name), strtab_ptr := strtab_ptr st + name_size name\<rparr>)"
  by (auto simp: put_name_def name_size_def name_bytes_def mem_write_room split: option.splits)

lemma put_entry_room:
  "tables_room [e] st \<Longrightarrow> put_entry e st = Ret (with_entries [e] st)"
  by (simp add: tables_room_def put_entry_def put_symbol_def put_name_room with_entries_def entry_symbol_def
      overwrite_single)

lemma with_entries_append:
  "tables_room (es @ fs) st \<Longrightarrow> with_entries fs (with_entries es st) = with_entries (es @ fs) st"
  using overwrite_append [of "sym_ptr st" "entry_symbols (strtab_ptr st) es"]
  by (simp add: tables_room_def with_entries_def overwrite_append entry_symbols_append entry_contexts_append
      add.assoc)

lemma tables_room_Cons:
  "tables_room (e # es) st \<Longrightarrow> tables_room [e] st \<and> tables_room es (with_entries [e] st)"
  by (simp add: tables_room_def with_entries_def)

lemma put_all_room: "tables_room es st \<Longrightarrow> put_all es st = Ret (with_entries es st)"
proof (induction es arbitrary: st)
  case Nil
  then show ?case by (simp add: with_entries_def)
next
  case (Cons e es)
  from tables_room_Cons [OF Cons.prems] show ?case
    using with_entries_append [of "[e]" es st] Cons.prems by (simp add: put_entry_room Cons.IH)
qed

section \<open>The loops\<close>

text \<open>The static bindings in order with their places, the end of the section and the new offsets.\<close>

fun static_entries ::
  "(binding_aug \<Rightarrow> bool) \<Rightarrow> byte \<Rightarrow> addr list \<Rightarrow> 's world \<Rightarrow> u64 \<Rightarrow> entry list" where
  "static_entries sel bind [] w p = []"
| "static_entries sel bind (b # bs) w p =
     (if sel (augs w b)
      then \<lparr>ent_binding = b, ent_name = aug_name (augs w b), ent_value = p, ent_size = aug_size (augs w b),
             ent_bind = bind, ent_shndx = 5\<rparr> #
           static_entries sel bind bs w (p + pad_size (aug_size (augs w b)) WORD_SIZE)
      else static_entries sel bind bs w p)"

definition place_entry :: "entry \<Rightarrow> 's world \<Rightarrow> 's world" where
  "place_entry e w = w\<lparr>augs := (augs w)(ent_binding e := (augs w (ent_binding e))\<lparr>offset := ent_value e\<rparr>)\<rparr>"

definition place_entries :: "entry list \<Rightarrow> 's world \<Rightarrow> 's world" where
  "place_entries es w = fold place_entry es w"

definition entries_size :: "entry list \<Rightarrow> u64" where
  "entries_size es = sum_list (map (\<lambda>e. pad_size (ent_size e) WORD_SIZE) es)"

text \<open>Worlds that differ in the offsets of bindings only.\<close>

definition but_offsets :: "'s world \<Rightarrow> 's world \<Rightarrow> bool" where
  "but_offsets w w' \<longleftrightarrow> nodes w' = nodes w \<and> (\<forall>b. aug_name (augs w' b) = aug_name (augs w b) \<and>
     aug_size (augs w' b) = aug_size (augs w b) \<and> aug_type (augs w' b) = aug_type (augs w b) \<and>
     scope (augs w' b) = scope (augs w b) \<and> state (augs w' b) = state (augs w b) \<and>
     aug_symbol (augs w' b) = aug_symbol (augs w b) \<and> aug_expression (augs w' b) = aug_expression (augs w b))"

lemma but_offsetsD:
  assumes "but_offsets w w'"
  shows "nodes w' = nodes w" "aug_name (augs w' b) = aug_name (augs w b)"
    "aug_size (augs w' b) = aug_size (augs w b)" "scope (augs w' b) = scope (augs w b)"
    "state (augs w' b) = state (augs w b)"
  using assms by (simp_all add: but_offsets_def)

lemma but_offsets_refl [simp]: "but_offsets w w"
  by (simp add: but_offsets_def)

lemma but_offsets_trans: "but_offsets w w' \<Longrightarrow> but_offsets w' w'' \<Longrightarrow> but_offsets w w''"
  by (simp add: but_offsets_def)

lemma but_offsets_place_entry: "but_offsets w (place_entry e w)"
  by (simp add: but_offsets_def place_entry_def)

lemma but_offsets_place_entries: "but_offsets w (place_entries es w)"
proof (induction es arbitrary: w)
  case (Cons e es)
  have "but_offsets (place_entry e w) (place_entries es (place_entry e w))" by (rule Cons.IH)
  with but_offsets_place_entry show ?case by (auto simp: place_entries_def intro: but_offsets_trans)
qed (simp add: place_entries_def)

lemma static_entries_cong:
  "but_offsets w w' \<Longrightarrow> (\<And>b. sel (augs w' b) = sel (augs w b)) \<Longrightarrow>
   static_entries sel bind bs w' p = static_entries sel bind bs w p"
  by (induction bs arbitrary: p) (simp_all add: but_offsetsD)

lemma with_entries_bss: "with_entries es (st\<lparr>bss_ptr := p\<rparr>) = (with_entries es st)\<lparr>bss_ptr := p\<rparr>"
  by (simp add: with_entries_def)

lemma static_symbols_room:
  fixes w :: "'s world"
  assumes sel: "\<And>g x. sel (g\<lparr>offset := x\<rparr>) = sel g"
    and "tables_room (static_entries sel bind bs w (bss_ptr st)) st"
  shows "(static_symbols sel bind bs w st :: ('e, 's world \<times> elf_state) outcome) =
    Ret (place_entries (static_entries sel bind bs w (bss_ptr st)) w,
      (with_entries (static_entries sel bind bs w (bss_ptr st)) st)
        \<lparr>bss_ptr := bss_ptr st + entries_size (static_entries sel bind bs w (bss_ptr st))\<rparr>)"
  using assms(2)
proof (induction bs arbitrary: w st)
  case Nil
  then show ?case by (simp add: place_entries_def with_entries_def entries_size_def)
next
  case (Cons b bs)
  show ?case
  proof (cases "sel (augs w b)")
    case True
    define e where "e = \<lparr>ent_binding = b, ent_name = aug_name (augs w b), ent_value = bss_ptr st,
      ent_size = aug_size (augs w b), ent_bind = bind, ent_shndx = 5\<rparr>"
    let ?p = "bss_ptr st + pad_size (aug_size (augs w b)) WORD_SIZE"
    define es where "es = static_entries sel bind bs w ?p"
    have all: "static_entries sel bind (b # bs) w (bss_ptr st) = e # es" using True by (simp add: e_def es_def)
    with Cons.prems have room: "tables_room [e] st" "tables_room es (with_entries [e] st)"
      using tables_room_Cons by auto
    let ?w = "place_entry e w" and ?st = "(with_entries [e] st)\<lparr>bss_ptr := ?p\<rparr>"
    have same: "static_entries sel bind bs ?w ?p = es"
      unfolding es_def
      by (rule static_entries_cong [OF but_offsets_place_entry]) (simp add: place_entry_def sel)
    have "(static_symbols sel bind (b # bs) w st :: ('e, 's world \<times> elf_state) outcome) = static_symbols sel bind bs ?w ?st"
      by (simp add: Let_def place_entry_def e_def with_entries_def True
          put_entry_room [OF room(1), unfolded put_entry_def e_def with_entries_def, simplified])
    also have "\<dots> = Ret (place_entries es ?w, (with_entries es ?st)\<lparr>bss_ptr := ?p + entries_size es\<rparr>)"
      using Cons.IH [of ?w ?st] room(2) same by (simp add: tables_room_def with_entries_def)
    also have "with_entries es ?st = (with_entries (e # es) st)\<lparr>bss_ptr := ?p\<rparr>"
      using with_entries_append [of "[e]" es st] Cons.prems unfolding all by (simp add: with_entries_bss)
    finally show ?thesis
      unfolding all by (simp add: place_entries_def entries_size_def e_def add.assoc)
  next
    case False
    then show ?thesis using Cons by simp
  qed
qed

fun undefined_entries :: "addr list \<Rightarrow> 's world \<Rightarrow> entry list" where
  "undefined_entries [] w = []"
| "undefined_entries (b # bs) w =
     (if scope (augs w b) = global_scope \<and> state (augs w b) = undefined_state
      then \<lparr>ent_binding = b, ent_name = aug_name (augs w b), ent_value = 0, ent_size = 0,
             ent_bind = STB_GLOBAL, ent_shndx = SHN_UNDEF\<rparr> # undefined_entries bs w
      else undefined_entries bs w)"

lemma undefined_symbols_put: "undefined_symbols bs w st = put_all (undefined_entries bs w) st"
  by (induction bs arbitrary: st) (auto simp: Let_def put_entry_def intro!: bindO_cong)

text \<open>The labels of the code with their bindings.\<close>

fun label_entries :: "binding_aug_scope \<Rightarrow> byte \<Rightarrow> expr list \<Rightarrow> 's world \<Rightarrow> entry list" where
  "label_entries scp bind [] w = []"
| "label_entries scp bind (e # es) w =
     (case label_binding w e of
        None \<Rightarrow> label_entries scp bind es w
      | Some b \<Rightarrow>
          if scope (augs w b) = scp
          then \<lparr>ent_binding = b, ent_name = label_name e, ent_value = 0, ent_size = 0,
                 ent_bind = bind, ent_shndx = 2\<rparr> # label_entries scp bind es w
          else label_entries scp bind es w)"

lemma label_shape:
  assumes "instruction_ok P w e"
  shows "is_label e \<Longrightarrow> \<exists>a c nm b. e = Assembly a LABEL [Symbol c nm] \<and> symbol_aug (nodes w c) = Some b \<and>
      label_binding w e = Some b \<and> P b"
    and "\<not> is_label e \<Longrightarrow> label_binding w e = None"
  using assms
  by (cases rule: instruction_okE; auto simp: is_label_def label_binding_def opcode_defs operand_ok.simps
      reference_ok_def split: expr.splits option.splits)+

lemma label_symbols_put:
  fixes w :: "'s world"
  assumes "list_all (instruction_ok P w') es" "but_offsets w' w"
  shows "label_symbols scp bind es w st = put_all (label_entries scp bind es w') st"
  using assms(1)
proof (induction es arbitrary: st)
  case (Cons e es)
  then have e: "instruction_ok P w' e" by simp
  show ?case
  proof (cases "is_label e")
    case True
    with label_shape(1) [OF e] obtain a c nm b where
      "e = Assembly a LABEL [Symbol c nm]" "symbol_aug (nodes w' c) = Some b" "label_binding w' e = Some b"
      by blast
    then show ?thesis using True Cons assms(2)
      by (auto simp: binding_of_def but_offsetsD put_entry_def label_name_def label_ref_def intro!: bindO_cong)
  next
    case False
    then show ?thesis using Cons label_shape(2) [OF e] by simp
  qed
qed simp

section \<open>All entries\<close>

abbreviation is_local :: "binding_aug \<Rightarrow> bool" where
  "is_local g \<equiv> scope g = local_scope"

abbreviation is_global_defined :: "binding_aug \<Rightarrow> bool" where
  "is_global_defined g \<equiv> scope g = global_scope \<and> state g = defined_state"

definition local_statics :: "addr list \<Rightarrow> 's world \<Rightarrow> entry list" where
  "local_statics sb w = static_entries is_local STB_LOCAL sb w 0"

definition global_statics :: "addr list \<Rightarrow> 's world \<Rightarrow> entry list" where
  "global_statics sb w = static_entries is_global_defined STB_GLOBAL sb w (entries_size (local_statics sb w))"

definition local_entries :: "expr list \<Rightarrow> addr list \<Rightarrow> 's world \<Rightarrow> entry list" where
  "local_entries ns sb w = local_statics sb w @ label_entries local_scope STB_LOCAL ns w"

definition global_entries :: "expr list \<Rightarrow> addr list \<Rightarrow> addr list \<Rightarrow> 's world \<Rightarrow> entry list" where
  "global_entries ns ub sb w = global_statics sb w @ undefined_entries ub w @
     label_entries global_scope STB_GLOBAL ns w"

definition all_entries :: "expr list \<Rightarrow> addr list \<Rightarrow> addr list \<Rightarrow> 's world \<Rightarrow> entry list" where
  "all_entries ns ub sb w = local_entries ns sb w @ global_entries ns ub sb w"

definition bss_size :: "addr list \<Rightarrow> 's world \<Rightarrow> u64" where
  "bss_size sb w = entries_size (local_statics sb w) + entries_size (global_statics sb w)"

definition place_statics :: "addr list \<Rightarrow> 's world \<Rightarrow> 's world" where
  "place_statics sb w = place_entries (global_statics sb w) (place_entries (local_statics sb w) w)"

lemma but_offsets_place_statics: "but_offsets w (place_statics sb w)"
  unfolding place_statics_def by (rule but_offsets_trans [OF but_offsets_place_entries but_offsets_place_entries])

lemma place_statics_labels: "label_bindings (place_statics sb w) ns = label_bindings w ns"
  by (rule label_bindings_nodes) (rule but_offsetsD(1) [OF but_offsets_place_statics])

lemma tables_room_append:
  "tables_room (es @ fs) st \<Longrightarrow> tables_room es st \<and> tables_room fs (with_entries es st)"
  by (simp add: tables_room_def with_entries_def)

lemma tables_room_bss [simp]: "tables_room es (st\<lparr>bss_ptr := p\<rparr>) = tables_room es st"
  by (simp add: tables_room_def)

lemma bss_with_entries [simp]: "bss_ptr (with_entries es st) = bss_ptr st"
  by (simp add: with_entries_def)

lemma undefined_entries_cong: "but_offsets w w' \<Longrightarrow> undefined_entries bs w' = undefined_entries bs w"
  by (induction bs) (simp_all add: but_offsetsD)

lemma fill_tables_result:
  fixes w :: "'s world"
  assumes ok: "list_all (instruction_ok P w) ns" and room: "tables_room (all_entries ns ub sb w) st"
    and bss: "bss_ptr st = 0"
  shows "(fill_tables ns ub sb w st :: ('e, 's world \<times> nat \<times> elf_state) outcome) =
    Ret (place_statics sb w, sym_ptr st + length (local_entries ns sb w),
      (with_entries (all_entries ns ub sb w) st)\<lparr>bss_ptr := bss_size sb w\<rparr>)"
proof -
  let ?e1 = "local_statics sb w" and ?e2 = "label_entries local_scope STB_LOCAL ns w"
  let ?e3 = "global_statics sb w" and ?e4 = "undefined_entries ub w" and ?e5 = "label_entries global_scope STB_GLOBAL ns w"
  let ?w1 = "place_entries ?e1 w"
  let ?s1 = "(with_entries ?e1 st)\<lparr>bss_ptr := entries_size ?e1\<rparr>"
  let ?s2 = "with_entries ?e2 ?s1"
  let ?w3 = "place_entries ?e3 ?w1"
  let ?s3 = "(with_entries ?e3 ?s2)\<lparr>bss_ptr := entries_size ?e1 + entries_size ?e3\<rparr>"
  have r: "tables_room (?e1 @ ?e2 @ ?e3 @ ?e4 @ ?e5) st"
    using room by (simp add: all_entries_def local_entries_def global_entries_def)
  have room1: "tables_room ?e1 st" and r1: "tables_room (?e2 @ ?e3 @ ?e4 @ ?e5) ?s1"
    using tables_room_append [OF r] by simp_all
  have room2: "tables_room ?e2 ?s1" and r2: "tables_room (?e3 @ ?e4 @ ?e5) ?s2"
    using tables_room_append [OF r1] by simp_all
  have room3: "tables_room ?e3 ?s2" and r3: "tables_room (?e4 @ ?e5) ?s3"
    using tables_room_append [OF r2] by simp_all
  have room4: "tables_room ?e4 ?s3" and room5: "tables_room ?e5 (with_entries ?e4 ?s3)"
    using tables_room_append [OF r3] by simp_all
  have w1: "but_offsets w ?w1" by (rule but_offsets_place_entries)
  have w3: "but_offsets w ?w3" using but_offsets_place_statics [of w sb] by (simp add: place_statics_def)
  have e3: "static_entries is_global_defined STB_GLOBAL sb ?w1 (bss_ptr ?s2) = ?e3"
    unfolding global_statics_def by (simp add: with_entries_bss static_entries_cong [OF w1] but_offsetsD [OF w1])
  have 1: "(static_symbols is_local STB_LOCAL sb w st :: ('e, 's world \<times> elf_state) outcome) = Ret (?w1, ?s1)"
    using static_symbols_room [of is_local STB_LOCAL sb w st] room1 bss by (simp add: local_statics_def)
  have 3: "(static_symbols is_global_defined STB_GLOBAL sb ?w1 ?s2 :: ('e, 's world \<times> elf_state) outcome) = Ret (?w3, ?s3)"
    using static_symbols_room [of is_global_defined STB_GLOBAL sb ?w1 ?s2, unfolded e3] room3
    by (simp add: with_entries_bss)
  note un = undefined_symbols_put undefined_entries_cong [OF w3] put_all_room [OF room4]
  note lab = label_symbols_put [OF ok w1] label_symbols_put [OF ok w3] put_all_room [OF room2] put_all_room [OF room5]
  let ?t1 = "with_entries ?e1 st" and ?t2 = "with_entries ?e2 (with_entries ?e1 st)"
  let ?t3 = "with_entries ?e3 ?t2"
  have t: "tables_room (?e2 @ ?e3 @ ?e4 @ ?e5) ?t1" "tables_room (?e3 @ ?e4 @ ?e5) ?t2" "tables_room (?e4 @ ?e5) ?t3"
    using r1 r2 r3 by (simp_all add: with_entries_bss)
  have chain: "with_entries ?e5 (with_entries ?e4 ?t3) = with_entries (all_entries ns ub sb w) st"
    unfolding with_entries_append [OF t(3)] with_entries_append [OF t(2)] with_entries_append [OF t(1)]
      with_entries_append [OF r] by (simp add: all_entries_def local_entries_def global_entries_def)
  have final: "with_entries ?e5 (with_entries ?e4 ?s3) = (with_entries (all_entries ns ub sb w) st)\<lparr>bss_ptr := bss_size sb w\<rparr>"
    unfolding with_entries_bss chain by (simp add: bss_size_def)
  have n: "sym_ptr ?s2 = sym_ptr st + length (local_entries ns sb w)"
    by (simp add: local_entries_def with_entries_def)
  show ?thesis
    unfolding fill_tables_def 1 bindO.simps prod.case lab Let_def 3 un final n place_statics_def ..
qed

section \<open>The entries fill the tables exactly\<close>

text \<open>
  What the compiler hands over: instructions in their forms, whose references are bound by the two
  lists of bindings or by labels; static bindings that are local, or global and defined; undefined
  bindings that are global and undefined. Sizes stay below \<open>2\<^sup>3\<^sup>1\<close>, the range of \<open>int\<close>.
\<close>

definition linked_program :: "expr list \<Rightarrow> addr list \<Rightarrow> addr list \<Rightarrow> 's world \<Rightarrow> bool" where
  "linked_program ns ub sb w \<longleftrightarrow>
     list_all (instruction_ok (\<lambda>b. b \<in> set ub \<or> b \<in> set sb \<or> b \<in> set (label_bindings w ns)) w) ns \<and>
     list_all (\<lambda>b. is_local (augs w b) \<or> is_global_defined (augs w b)) sb \<and>
     list_all (\<lambda>b. scope (augs w b) = global_scope \<and> state (augs w b) = undefined_state) ub \<and>
     1024 + MAX_INSTR_LEN * length ns + measure_strtab w ns ub sb + ELF64_SYM * measure_symtab ns ub sb +
       ELF64_RELA * MAX_INSTR_FIELDS * length ns < 2 ^ 31"

lemma static_entries_partition:
  assumes "list_all (\<lambda>b. is_local (augs w b) \<or> is_global_defined (augs w b)) sb"
  shows "length (static_entries is_local bd sb w p) + length (static_entries is_global_defined bd' sb w q) = length sb"
    "length (entry_strings (static_entries is_local bd sb w p)) +
     length (entry_strings (static_entries is_global_defined bd' sb w q)) =
     sum_list (map (\<lambda>b. name_size (aug_name (augs w b))) sb)"
    "ent_binding ` set (static_entries is_local bd sb w p) \<union>
     ent_binding ` set (static_entries is_global_defined bd' sb w q) = set sb"
  using assms by (induction sb arbitrary: p q) (auto simp: add.assoc)

lemma undefined_entries_all:
  assumes "list_all (\<lambda>b. scope (augs w b) = global_scope \<and> state (augs w b) = undefined_state) ub"
  shows "length (undefined_entries ub w) = length ub"
    "length (entry_strings (undefined_entries ub w)) = sum_list (map (\<lambda>b. name_size (aug_name (augs w b))) ub)"
    "ent_binding ` set (undefined_entries ub w) = set ub"
  using assms by (induction ub) auto

lemma label_entries_partition:
  assumes "list_all (instruction_ok P w) ns"
  shows "length (label_entries local_scope bd ns w) + length (label_entries global_scope bd' ns w) =
      length (filter is_label ns)"
    "length (entry_strings (label_entries local_scope bd ns w)) +
     length (entry_strings (label_entries global_scope bd' ns w)) =
     sum_list (map (\<lambda>e. name_size (label_name e)) (filter is_label ns))"
    "ent_binding ` set (label_entries local_scope bd ns w) \<union>
     ent_binding ` set (label_entries global_scope bd' ns w) = set (label_bindings w ns)"
proof -
  have "length (label_entries local_scope bd ns w) + length (label_entries global_scope bd' ns w) =
      length (filter is_label ns) \<and>
    length (entry_strings (label_entries local_scope bd ns w)) +
     length (entry_strings (label_entries global_scope bd' ns w)) =
     sum_list (map (\<lambda>e. name_size (label_name e)) (filter is_label ns)) \<and>
    ent_binding ` set (label_entries local_scope bd ns w) \<union>
     ent_binding ` set (label_entries global_scope bd' ns w) = set (label_bindings w ns)"
    using assms
  proof (induction ns)
    case (Cons e ns)
    then have e: "instruction_ok P w e" by simp
    show ?case
    proof (cases "is_label e")
      case True
      with label_shape(1) [OF e] obtain b where "label_binding w e = Some b" by blast
      then show ?thesis using True Cons by (cases "scope (augs w b)") auto
    next
      case False
      then show ?thesis using Cons label_shape(2) [OF e] by simp
    qed
  qed simp
  then show "length (label_entries local_scope bd ns w) + length (label_entries global_scope bd' ns w) =
      length (filter is_label ns)"
    "length (entry_strings (label_entries local_scope bd ns w)) +
     length (entry_strings (label_entries global_scope bd' ns w)) =
     sum_list (map (\<lambda>e. name_size (label_name e)) (filter is_label ns))"
    "ent_binding ` set (label_entries local_scope bd ns w) \<union>
     ent_binding ` set (label_entries global_scope bd' ns w) = set (label_bindings w ns)"
    by blast+
qed

lemma all_entries_fill:
  assumes "linked_program ns ub sb w"
  shows "1 + length (all_entries ns ub sb w) = measure_symtab ns ub sb"
    "1 + length (entry_strings (all_entries ns ub sb w)) = measure_strtab w ns ub sb"
    "ent_binding ` set (all_entries ns ub sb w) = set ub \<union> set sb \<union> set (label_bindings w ns)"
proof -
  from assms have "list_all (\<lambda>b. is_local (augs w b) \<or> is_global_defined (augs w b)) sb"
    by (simp add: linked_program_def)
  note s = static_entries_partition [OF this, of STB_LOCAL 0 STB_GLOBAL "entries_size (local_statics sb w)",
      folded local_statics_def global_statics_def]
  from assms have "list_all (\<lambda>b. scope (augs w b) = global_scope \<and> state (augs w b) = undefined_state) ub"
    by (simp add: linked_program_def)
  note u = undefined_entries_all [OF this]
  from assms obtain P where "list_all (instruction_ok P w) ns" by (auto simp: linked_program_def)
  note l = label_entries_partition [OF this, of STB_LOCAL STB_GLOBAL]
  note defs = all_entries_def local_entries_def global_entries_def measure_symtab_def measure_strtab_def
  show "1 + length (all_entries ns ub sb w) = measure_symtab ns ub sb"
    using s(1) u(1) l(1) by (simp add: defs)
  show "1 + length (entry_strings (all_entries ns ub sb w)) = measure_strtab w ns ub sb"
    using s(2) u(2) l(2) by (simp add: defs)
  show "ent_binding ` set (all_entries ns ub sb w) = set ub \<union> set sb \<union> set (label_bindings w ns)"
    unfolding defs set_append image_Un u(3) s(3) [symmetric] l(3) [symmetric] by blast
qed

lemma pad_facts:
  assumes "n < 2 ^ 32"
  shows "n \<le> pad n" "pad n < n + 8" "8 dvd pad n"
proof -
  have "unat (of_nat n :: u64) = n" using assms by (simp add: unat_of_nat)
  moreover have "unat ALIGNMENT = 8" by (simp add: ALIGNMENT_def)
  ultimately have "pad n = padded n 8"
    unfolding pad_def by (subst unat_pad_size) (use assms in \<open>auto simp: ALIGNMENT_def\<close>)
  then show "n \<le> pad n" "pad n < n + 8" "8 dvd pad n"
    using padded_ge [of 8 n] padded_less [of 8 n] padded_dvd [of 8 n] by simp_all
qed

lemma dom_entry_contexts: "dom (entry_contexts i es c) = dom c \<union> ent_binding ` set es"
  by (induction es arbitrary: i c) auto

lemma ran_entry_contexts: "ran (entry_contexts i es c) \<subseteq> ran c \<union> {i..<i + length es}"
proof (induction es arbitrary: i c)
  case (Cons e es)
  have c: "ran (c(ent_binding e := Some i)) \<subseteq> insert i (ran c)" by (auto simp: ran_def)
  show ?case
    using subset_trans [OF Cons.IH [of "i + 1" "c(ent_binding e := Some i)"] Un_mono [OF c subset_refl]]
    by (simp add: subset_eq fun_upd_def) force
qed simp

lemma entry_contexts_nth:
  "distinct (map ent_binding es) \<Longrightarrow> k < length es \<Longrightarrow>
   entry_contexts i es c (ent_binding (es ! k)) = Some (i + k)"
proof (induction es arbitrary: i c k)
  case (Cons e es)
  have other: "b \<notin> ent_binding ` set es \<Longrightarrow> entry_contexts i es c b = c b" for b i c
    by (induction es arbitrary: i c) auto
  show ?case
  proof (cases k)
    case 0
    then show ?thesis using Cons.prems by (auto simp: other)
  next
    case (Suc j)
    then show ?thesis using Cons.prems Cons.IH [of j "i + 1"] by simp
  qed
qed simp

section \<open>The file\<close>

text \<open>The tables, the code and the relocations of a program, and the pieces of its file.\<close>

definition final_tables ::
  "(nat \<Rightarrow> Elf64_Sym) \<Rightarrow> (nat \<Rightarrow> byte) \<Rightarrow> expr list \<Rightarrow> addr list \<Rightarrow> addr list \<Rightarrow> 's world \<Rightarrow> elf_state" where
  "final_tables junk_sym junk ns ub sb w =
     (with_entries (all_entries ns ub sb w)
       (initial_tables junk_sym junk (measure_symtab ns ub sb) (measure_strtab w ns ub sb)))
     \<lparr>bss_ptr := bss_size sb w\<rparr>"

definition placed ::
  "(nat \<Rightarrow> Elf64_Sym) \<Rightarrow> (nat \<Rightarrow> byte) \<Rightarrow> expr list \<Rightarrow> addr list \<Rightarrow> addr list \<Rightarrow> 's world \<Rightarrow> 's world \<times> Elf64_Sym list" where
  "placed junk_sym junk ns ub sb w =
     (let st = final_tables junk_sym junk ns ub sb w
      in place_labels (contexts st) 0 ns (place_statics sb w, syms st))"

definition file_relas ::
  "(nat \<Rightarrow> Elf64_Sym) \<Rightarrow> (nat \<Rightarrow> byte) \<Rightarrow> expr list \<Rightarrow> addr list \<Rightarrow> addr list \<Rightarrow> 's world \<Rightarrow> Elf64_Rela list" where
  "file_relas junk_sym junk ns ub sb w =
     program_relas w (contexts (final_tables junk_sym junk ns ub sb w)) 0 ns"

definition file_text :: "expr list \<Rightarrow> byte list" where
  "file_text ns = program_code ns @ replicate (pad (MAX_INSTR_LEN * length ns) - length (program_code ns)) 0"

definition file_headers ::
  "(nat \<Rightarrow> Elf64_Sym) \<Rightarrow> (nat \<Rightarrow> byte) \<Rightarrow> expr list \<Rightarrow> addr list \<Rightarrow> addr list \<Rightarrow> 's world \<Rightarrow> Elf64_Shdr list" where
  "file_headers junk_sym junk ns ub sb w =
     section_headers (length (program_code ns)) (pad (MAX_INSTR_LEN * length ns)) (measure_strtab w ns ub sb)
       (measure_symtab ns ub sb) (1 + length (local_entries ns sb w)) (bss_size sb w)
       (length (file_relas junk_sym junk ns ub sb w))"

definition file_bytes ::
  "(nat \<Rightarrow> Elf64_Sym) \<Rightarrow> (nat \<Rightarrow> byte) \<Rightarrow> (nat \<Rightarrow> byte) \<Rightarrow> expr list \<Rightarrow> addr list \<Rightarrow> addr list \<Rightarrow> 's world \<Rightarrow> byte list" where
  "file_bytes junk_sym junk junk' ns ub sb w =
     ehdr_bytes file_header @
     concat (map shdr_bytes (file_headers junk_sym junk ns ub sb w)) @
     (map byte_of SHSTRTAB @ map junk' [length SHSTRTAB..<pad (length SHSTRTAB)]) @
     file_text ns @ strtab (final_tables junk_sym junk ns ub sb w) @
     concat (map sym_bytes (snd (placed junk_sym junk ns ub sb w))) @
     concat (map rela_bytes (file_relas junk_sym junk ns ub sb w))"

lemma write_all_concat: "write_all bss mem p = mem_write mem p (concat bss)"
proof (induction bss arbitrary: mem p)
  case (Cons bs bss)
  show ?case
    by (auto simp: mem_write_append Cons.IH case_prod_unfold intro!: bindO_cong)
qed simp

lemma ident_length [simp]: "length ident_bytes = EI_NIDENT"
  by (simp add: ident_bytes_def EI_NIDENT_def upt_rec)

lemma file_header_length [simp]: "length (ehdr_bytes file_header) = ELF64_EHDR"
  by (rule ehdr.enc_length) (simp add: file_header_def)

lemma section_headers_length [simp]: "length (section_headers a b c d e f g) = SH_COUNT"
  by (simp add: section_headers_def SH_COUNT_def Let_def)

lemma initial_room:
  assumes "linked_program ns ub sb w"
  shows "tables_room (all_entries ns ub sb w)
    (initial_tables junk_sym junk (measure_symtab ns ub sb) (measure_strtab w ns ub sb))"
proof -
  have "measure_strtab w ns ub sb < 2 ^ 32" using assms by (simp add: linked_program_def)
  then show ?thesis
    using all_entries_fill [OF assms] pad_facts(1) [of "measure_strtab w ns ub sb"]
    by (simp add: tables_room_def initial_tables_def)
qed

lemma final_tables_facts:
  assumes "linked_program ns ub sb w" and st_def: "st = final_tables junk_sym junk ns ub sb w"
  shows "length (syms st) = measure_symtab ns ub sb" "length (strtab st) = pad (measure_strtab w ns ub sb)"
    "syms st = null_symbol # entry_symbols 1 (all_entries ns ub sb w)"
    "take (measure_strtab w ns ub sb) (strtab st) = 0 # entry_strings (all_entries ns ub sb w)"
    "contexts st = entry_contexts 1 (all_entries ns ub sb w) (\<lambda>b. None)" "bss_ptr st = bss_size sb w"
proof -
  note fill = all_entries_fill [OF assms(1)]
  note room = initial_room [OF assms(1), of junk_sym junk]
  have pos: "measure_symtab ns ub sb > 0" "measure_strtab w ns ub sb > 0"
    by (simp_all add: measure_symtab_def measure_strtab_def)
  have small: "measure_strtab w ns ub sb < 2 ^ 32" using assms by (simp add: linked_program_def)
  have pad: "measure_strtab w ns ub sb \<le> pad (measure_strtab w ns ub sb)"
    using small by (rule pad_facts)
  show "length (syms st) = measure_symtab ns ub sb" "length (strtab st) = pad (measure_strtab w ns ub sb)"
    using room by (simp_all add: st_def final_tables_def with_entries_def tables_room_def initial_tables_def)
  have "take 1 ((map junk_sym [0..<measure_symtab ns ub sb])[0 := null_symbol]) = [null_symbol]"
    using pos by (simp add: take_Suc upt_rec)
  then show "syms st = null_symbol # entry_symbols 1 (all_entries ns ub sb w)"
    using fill by (simp add: st_def final_tables_def with_entries_def initial_tables_def overwrite_def)
  have "take 1 ((map junk [0..<pad (measure_strtab w ns ub sb)])[0 := 0]) = [0]"
    using pos pad by (simp add: take_Suc upt_rec)
  then show "take (measure_strtab w ns ub sb) (strtab st) = 0 # entry_strings (all_entries ns ub sb w)"
    by (simp add: st_def final_tables_def with_entries_def initial_tables_def overwrite_def
        fill(2) [symmetric])
  show "contexts st = entry_contexts 1 (all_entries ns ub sb w) (\<lambda>b. None)" "bss_ptr st = bss_size sb w"
    by (simp_all add: st_def final_tables_def with_entries_def initial_tables_def)
qed

lemma instruction_ok_mono:
  assumes "instruction_ok P w n" "\<And>b. P b \<Longrightarrow> Q b"
  shows "instruction_ok Q w n"
proof -
  have r: "reference_ok P w e \<Longrightarrow> reference_ok Q w e" for e
    using assms(2) by (auto simp: reference_ok_def split: expr.splits option.splits)
  have "operand_ok P w k e \<Longrightarrow> operand_ok Q w k e" for k e
    using r by (cases k) (auto simp: operand_ok.simps split: expr.splits list.splits)
  then show ?thesis
    using assms(1) by (auto simp: instruction_ok_def list_all2_conv_all_nth split: expr.splits option.splits)
qed

definition zero_relas :: "nat \<Rightarrow> Elf64_Rela list" where
  "zero_relas n = replicate n \<lparr>r_offset = 0, r_info = 0, r_addend = 0\<rparr>"

lemma contexts_of_program:
  assumes "linked_program ns ub sb w"
  defines "c \<equiv> entry_contexts 1 (all_entries ns ub sb w) (\<lambda>b. None)"
  shows "entered c b \<longleftrightarrow> b \<in> set ub \<or> b \<in> set sb \<or> b \<in> set (label_bindings w ns)"
    "ran c \<subseteq> {1..<measure_symtab ns ub sb}"
proof -
  have "entered c b \<longleftrightarrow> b \<in> dom c" by (simp add: dom_def)
  then show "entered c b \<longleftrightarrow> b \<in> set ub \<or> b \<in> set sb \<or> b \<in> set (label_bindings w ns)"
    unfolding c_def dom_entry_contexts all_entries_fill(3) [OF assms(1)] by simp
  show "ran c \<subseteq> {1..<measure_symtab ns ub sb}"
    using ran_entry_contexts [of 1 "all_entries ns ub sb w" "\<lambda>b. None"] all_entries_fill(1) [OF assms(1)]
    unfolding c_def by simp
qed

lemma program_can_assemble:
  assumes "linked_program ns ub sb w" and st: "st = final_tables junk_sym junk ns ub sb w"
  shows "can_assemble (contexts st) ns (replicate (pad (MAX_INSTR_LEN * length ns)) 0)
    (zero_relas (MAX_INSTR_FIELDS * length ns)) (place_statics sb w) (syms st)"
proof -
  note tables = final_tables_facts [OF assms]
  let ?c = "entry_contexts 1 (all_entries ns ub sb w) (\<lambda>b. None)"
  note ctx = contexts_of_program [OF assms(1)]
  have "instruction_ok (entered ?c) w n" if "n \<in> set ns" for n
    by (rule instruction_ok_mono [of "\<lambda>b. b \<in> set ub \<or> b \<in> set sb \<or> b \<in> set (label_bindings w ns)"])
      (use that assms(1) ctx(1) in \<open>auto simp: linked_program_def list_all_iff\<close>)
  then have "list_all (instruction_ok (entered ?c) w) ns" by (simp add: list_all_iff)
  moreover have "instruction_ok P (place_statics sb w) n = instruction_ok P w n" for P n
    by (rule nodes_irrelevant) (simp add: but_offsetsD(1) [OF but_offsets_place_statics])
  moreover have "MAX_INSTR_LEN * length ns \<le> pad (MAX_INSTR_LEN * length ns)"
    using assms(1) by (intro pad_facts) (simp add: linked_program_def)
  moreover have "ran ?c \<subseteq> {..<measure_symtab ns ub sb}" using ctx(2) by fastforce
  ultimately show ?thesis
    unfolding can_assemble_def tables(1,5) by (simp add: zero_relas_def list_all_iff)
qed

lemma write_elf_result:
  fixes w :: "'s world"
  assumes ok: "linked_program ns ub sb w"
  shows "(write_elf junk_sym junk junk' ns ub sb w :: ('e, byte list \<times> nat \<times> 's world) outcome) =
    (let bs = file_bytes junk_sym junk junk' ns ub sb w
     in Ret (bs @ replicate (max_elf_size w ns ub sb - length bs) 0, length bs,
             fst (placed junk_sym junk ns ub sb w)))"
    "length (file_bytes junk_sym junk junk' ns ub sb w) \<le> max_elf_size w ns ub sb"
proof -
  let ?st = "final_tables junk_sym junk ns ub sb w"
  obtain w' symtab where pl: "placed junk_sym junk ns ub sb w = (w', symtab)" by fastforce
  note can = program_can_assemble [OF ok refl, of junk_sym junk]
  note tables = final_tables_facts [OF ok refl, of junk_sym junk]
  have nodes: "nodes (place_statics sb w) = nodes w" by (rule but_offsetsD(1) [OF but_offsets_place_statics])
  have relas: "program_relas (place_statics sb w) (contexts ?st) 0 ns = file_relas junk_sym junk ns ub sb w"
    unfolding file_relas_def by (rule nodes_irrelevant(2) [OF nodes])
  let ?asm = "wrote (program_code ns) (file_relas junk_sym junk ns ub sb w)
    \<lparr>bin = replicate (pad (MAX_INSTR_LEN * length ns)) 0, pos = 0,
     relas = zero_relas (MAX_INSTR_FIELDS * length ns), rela_ptr = 0\<rparr>"
  note prog = written_program [OF can, unfolded relas]
  have asm: "assemble (contexts ?st) ns (replicate (pad (MAX_INSTR_LEN * length ns)) 0)
      (replicate (MAX_INSTR_FIELDS * length ns) \<lparr>r_offset = 0, r_info = 0, r_addend = 0\<rparr>)
      (place_statics sb w) (syms ?st) = (Ret (w', symtab, ?asm) :: ('e, _) outcome)"
    using pl unfolding zero_relas_def [symmetric] assemble_result [OF can]
    by (simp add: placed_def Let_def relas)
  have fill: "(fill_tables ns ub sb w (initial_tables junk_sym junk (measure_symtab ns ub sb) (measure_strtab w ns ub sb))
      :: ('e, 's world \<times> nat \<times> elf_state) outcome) =
    Ret (place_statics sb w, 1 + length (local_entries ns sb w), ?st)"
    using ok initial_room [OF ok, of junk_sym junk]
    by (subst fill_tables_result) (auto simp: linked_program_def final_tables_def initial_tables_def)
  have code: "bin ?asm = file_text ns" using prog(1) by (simp add: file_text_def)
  have nrelas: "rela_ptr ?asm = length (file_relas junk_sym junk ns ub sb w)" by (simp add: wrote_def)
  let ?bs = "file_bytes junk_sym junk junk' ns ub sb w"
  have len: "length ?bs = ELF64_EHDR + ELF64_SHDR * SH_COUNT + pad (length SHSTRTAB) +
      pad (MAX_INSTR_LEN * length ns) + pad (measure_strtab w ns ub sb) + ELF64_SYM * measure_symtab ns ub sb +
      ELF64_RELA * length (file_relas junk_sym junk ns ub sb w)"
  proof -
    have "length (snd (placed junk_sym junk ns ub sb w)) = measure_symtab ns ub sb"
      by (simp add: placed_def Let_def place_labels_length tables(1))
    moreover have "length (concat (map shdr_bytes (file_headers junk_sym junk ns ub sb w))) = ELF64_SHDR * SH_COUNT"
      using shdr.table_length [of "file_headers junk_sym junk ns ub sb w"]
      by (simp add: list_all_iff file_headers_def)
    moreover have "length SHSTRTAB \<le> pad (length SHSTRTAB)" by (rule pad_facts) (simp add: SHSTRTAB_def)
    moreover have "length (program_code ns) \<le> pad (MAX_INSTR_LEN * length ns)"
      using prog(2,3) pad_facts(1) [of "MAX_INSTR_LEN * length ns"] ok by (simp add: linked_program_def)
    ultimately show ?thesis
      using elf_sym.table_length [of "snd (placed junk_sym junk ns ub sb w)"]
        rela.table_length [of "file_relas junk_sym junk ns ub sb w"]
      by (simp add: file_bytes_def list_all_iff file_text_def tables(2))
  qed
  show le: "length ?bs \<le> max_elf_size w ns ub sb"
    using prog(5) unfolding nrelas len max_elf_size_def by simp
  have "write_all ([ehdr_bytes file_header] @
      map shdr_bytes (file_headers junk_sym junk ns ub sb w) @
      [map byte_of SHSTRTAB @ map junk' [length SHSTRTAB..<pad (length SHSTRTAB)], bin ?asm, strtab ?st,
       concat (map sym_bytes symtab), concat (map rela_bytes (take (rela_ptr ?asm) (relas ?asm)))])
      (replicate (max_elf_size w ns ub sb) 0) 0 =
    (Ret (?bs @ replicate (max_elf_size w ns ub sb - length ?bs) 0, length ?bs) :: ('e, _) outcome)"
    using le by (simp add: write_all_concat mem_write_room overwrite_def file_bytes_def code prog(4) pl)
  then show "(write_elf junk_sym junk junk' ns ub sb w :: ('e, byte list \<times> nat \<times> 's world) outcome) =
    (let bs = file_bytes junk_sym junk junk' ns ub sb w
     in Ret (bs @ replicate (max_elf_size w ns ub sb - length bs) 0, length bs,
             fst (placed junk_sym junk ns ub sb w)))"
    by (simp add: write_elf_def Let_def fill asm prog(2) file_headers_def tables(6) nrelas pl)
qed

text \<open>C13. For a linked program \<open>write_elf\<close> returns: none of its writes
leaves the symbol table, the string table, the text, the relocations or the file, whose size was
measured before, and the file holds the headers, tables and code one after the other.\<close>

lemma write_elf_in_bounds:
  assumes "linked_program ns ub sb w"
  shows "\<exists>file p w'. (write_elf junk_sym junk junk' ns ub sb w :: ('e, _) outcome) = Ret (file, p, w') \<and>
    length file = max_elf_size w ns ub sb \<and> p \<le> length file \<and>
    take p file = file_bytes junk_sym junk junk' ns ub sb w"
  using write_elf_result(1) [OF assms, of junk_sym junk junk', where ?'e = 'e]
    write_elf_result(2) [OF assms, of junk_sym junk junk'] by (simp add: Let_def)

section \<open>The slots of static bindings\<close>

definition slot :: "entry \<Rightarrow> block" where
  "slot e = (unat (ent_value e), unat (ent_size e))"

definition slots_size :: "entry list \<Rightarrow> nat" where
  "slots_size es = sum_list (map (\<lambda>e. padded (unat (ent_size e)) 8) es)"

lemma unat_pad_word_size:
  assumes "padded (unat x) 8 < 2 ^ 64"
  shows "unat (pad_size x WORD_SIZE) = padded (unat x) 8"
proof -
  have m: "unat (x mod 8) = unat x mod 8" by (simp add: unat_mod)
  have p: "padded (unat x) 8 = unat x + (if unat x mod 8 \<noteq> 0 then 8 - unat x mod 8 else 0)"
    by (rule padded_alt) simp
  show ?thesis
  proof (cases "unat x mod 8 = 0")
    case True
    with m have "x mod 8 = 0" by (simp add: unat_eq_zero)
    then show ?thesis using True p by (simp add: pad_size_def WORD_SIZE_def)
  next
    case False
    with m have "x mod 8 \<noteq> 0" by (metis unat_0)
    moreover have "unat (8 - x mod 8) = 8 - unat x mod 8"
      by (subst unat_sub_small) (simp_all add: m word_le_nat_alt)
    ultimately show ?thesis
      using False p assms by (simp add: pad_size_def WORD_SIZE_def Let_def unat_add_small)
  qed
qed

lemma static_slots:
  assumes "es = static_entries sel bind bs w p" "unat p + slots_size es < 2 ^ 64"
  shows "blocks_disjoint (map slot es) \<and>
    (\<forall>e \<in> set es. block_within (slot e) (unat p, slots_size es) \<and> (8 dvd unat p \<longrightarrow> 8 dvd fst (slot e))) \<and>
    unat (p + entries_size es) = unat p + slots_size es"
  using assms
proof (induction bs arbitrary: p es)
  case Nil
  then show ?case by (simp add: entries_size_def slots_size_def)
next
  case (Cons b bs)
  show ?case
  proof (cases "sel (augs w b)")
    case True
    let ?q = "p + pad_size (aug_size (augs w b)) WORD_SIZE"
    obtain e es' where es: "es = e # es'" "ent_value e = p" "ent_size e = aug_size (augs w b)"
      "es' = static_entries sel bind bs w ?q"
      using Cons.prems(1) True by simp
    have size: "slots_size es = padded (unat (ent_size e)) 8 + slots_size es'"
      by (simp add: es(1) slots_size_def)
    have pad: "unat (pad_size (ent_size e) WORD_SIZE) = padded (unat (ent_size e)) 8"
      using Cons.prems(2) size by (intro unat_pad_word_size) simp
    have q: "unat ?q = unat p + padded (unat (ent_size e)) 8"
      using Cons.prems(2) size pad es(3) by (subst unat_add_small) simp_all
    have "unat ?q + slots_size es' < 2 ^ 64" using Cons.prems(2) size q by simp
    note IH = Cons.IH [OF es(4) this]
    have le: "unat (ent_size e) \<le> padded (unat (ent_size e)) 8" by (simp add: padded_ge)
    have dvd: "8 dvd padded (unat (ent_size e)) 8" by (rule padded_dvd)
    have first: "block_disjoint (slot e) (slot d) \<and> block_within (slot d) (unat p, slots_size es) \<and>
        (8 dvd unat p \<longrightarrow> 8 dvd fst (slot d))" if "d \<in> set es'" for d
    proof -
      have "block_within (slot d) (unat ?q, slots_size es')" "8 dvd unat ?q \<longrightarrow> 8 dvd fst (slot d)"
        using IH that by blast+
      then show ?thesis using q le dvd size es(2) by (auto simp: slot_def dvd_add)
    qed
    show ?thesis
      using IH first le size q es(1,2,3)
      by (auto simp: slot_def list_all_iff entries_size_def add.assoc [symmetric])
  qed (use Cons in simp)
qed

definition all_statics :: "addr list \<Rightarrow> 's world \<Rightarrow> entry list" where
  "all_statics sb w = local_statics sb w @ global_statics sb w"

lemma blocks_disjoint_append:
  "blocks_disjoint (xs @ ys) \<longleftrightarrow>
   blocks_disjoint xs \<and> blocks_disjoint ys \<and> (\<forall>x \<in> set xs. \<forall>y \<in> set ys. block_disjoint x y)"
  by (induction xs) (auto simp: list_all_iff)

lemma slots_disjoint:
  assumes "slots_size (all_statics sb w) < 2 ^ 64"
  shows "blocks_disjoint (map slot (all_statics sb w))"
    "e \<in> set (all_statics sb w) \<Longrightarrow> block_within (slot e) (0, unat (bss_size sb w)) \<and> 8 dvd fst (slot e)"
proof -
  have sum: "slots_size (all_statics sb w) = slots_size (local_statics sb w) + slots_size (global_statics sb w)"
    by (simp add: all_statics_def slots_size_def)
  have l: "unat (0 :: u64) + slots_size (local_statics sb w) < 2 ^ 64" using assms sum by simp
  note L = static_slots [OF local_statics_def l]
  then have start: "unat (entries_size (local_statics sb w)) = slots_size (local_statics sb w)" by simp
  have g: "unat (entries_size (local_statics sb w)) + slots_size (global_statics sb w) < 2 ^ 64"
    using assms sum start by simp
  note G = static_slots [OF global_statics_def g]
  have total: "unat (bss_size sb w) = slots_size (local_statics sb w) + slots_size (global_statics sb w)"
    using G start by (simp add: bss_size_def)
  have al: "8 dvd slots_size es" for es
    by (induction es) (simp_all add: slots_size_def dvd_add padded_dvd)
  have cross: "block_disjoint (slot d) (slot e)" if "d \<in> set (local_statics sb w)" "e \<in> set (global_statics sb w)" for d e
  proof -
    have "block_within (slot d) (0, slots_size (local_statics sb w))" using L that(1) by simp
    moreover have "block_within (slot e) (slots_size (local_statics sb w), slots_size (global_statics sb w))"
      using G that(2) start by simp
    ultimately show ?thesis by (cases "slot d"; cases "slot e") auto
  qed
  then show "blocks_disjoint (map slot (all_statics sb w))"
    using L G by (auto simp: all_statics_def blocks_disjoint_append)
  assume "e \<in> set (all_statics sb w)"
  then consider "e \<in> set (local_statics sb w)" | "e \<in> set (global_statics sb w)" by (auto simp: all_statics_def)
  then show "block_within (slot e) (0, unat (bss_size sb w)) \<and> 8 dvd fst (slot e)"
  proof cases
    case 1
    then have "block_within (slot e) (0, slots_size (local_statics sb w))" "8 dvd fst (slot e)" using L by auto
    then show ?thesis using total by (cases "slot e") auto
  next
    case 2
    then have "block_within (slot e) (slots_size (local_statics sb w), slots_size (global_statics sb w))"
      "8 dvd fst (slot e)"
      using G start al by auto
    then show ?thesis using total by (cases "slot e") auto
  qed
qed

lemma static_entries_binding:
  "e \<in> set (static_entries sel bd bs w p) \<Longrightarrow> ent_size e = aug_size (augs w (ent_binding e)) \<and> ent_binding e \<in> set bs"
  by (induction bs arbitrary: p) (auto split: if_splits)

lemma static_entries_distinct:
  "distinct bs \<Longrightarrow> distinct (map ent_binding (static_entries sel bd bs w p))"
  by (induction bs arbitrary: p) (auto dest: static_entries_binding)

lemma static_entries_sel: "e \<in> set (static_entries sel bd bs w p) \<Longrightarrow> sel (augs w (ent_binding e))"
  by (induction bs arbitrary: p) (auto split: if_splits)

lemma all_statics_bindings:
  assumes "list_all (\<lambda>b. is_local (augs w b) \<or> is_global_defined (augs w b)) sb"
  shows "ent_binding ` set (all_statics sb w) = set sb"
    "e \<in> set (all_statics sb w) \<Longrightarrow> ent_size e = aug_size (augs w (ent_binding e))"
    "distinct sb \<Longrightarrow> distinct (map ent_binding (all_statics sb w))"
    "slots_size (all_statics sb w) = sum_list (map (\<lambda>b. padded (unat (aug_size (augs w b))) 8) sb)"
proof -
  show "ent_binding ` set (all_statics sb w) = set sb"
    using static_entries_partition(3) [OF assms, of STB_LOCAL 0 STB_GLOBAL "entries_size (local_statics sb w)"]
    by (simp add: all_statics_def local_statics_def global_statics_def image_Un)
  show "e \<in> set (all_statics sb w) \<Longrightarrow> ent_size e = aug_size (augs w (ent_binding e))"
    by (auto simp: all_statics_def local_statics_def global_statics_def dest: static_entries_binding)
  show "distinct sb \<Longrightarrow> distinct (map ent_binding (all_statics sb w))"
    unfolding all_statics_def local_statics_def global_statics_def
    by (auto simp: static_entries_distinct dest!: static_entries_sel)
  have "slots_size (static_entries is_local bd sb w p) + slots_size (static_entries is_global_defined bd' sb w q) =
      sum_list (map (\<lambda>b. padded (unat (aug_size (augs w b))) 8) sb)" for bd bd' p q
    using assms by (induction sb arbitrary: p q) (auto simp: slots_size_def)
  then show "slots_size (all_statics sb w) = sum_list (map (\<lambda>b. padded (unat (aug_size (augs w b))) 8) sb)"
    by (simp add: all_statics_def local_statics_def global_statics_def slots_size_def)
qed

lemma place_entries_other:
  "b \<notin> ent_binding ` set es \<Longrightarrow> augs (place_entries es w) b = augs w b"
proof (induction es arbitrary: w)
  case (Cons e es)
  then have "augs (place_entries es (place_entry e w)) b = augs (place_entry e w) b" by simp
  then show ?case using Cons.prems by (simp add: place_entries_def place_entry_def)
qed (simp add: place_entries_def)

lemma place_entries_offset:
  "distinct (map ent_binding es) \<Longrightarrow> e \<in> set es \<Longrightarrow> offset (augs (place_entries es w) (ent_binding e)) = ent_value e"
proof (induction es arbitrary: w)
  case (Cons d es)
  show ?case
  proof (cases "e = d")
    case True
    then have "augs (place_entries es (place_entry d w)) (ent_binding e) = augs (place_entry d w) (ent_binding e)"
      using Cons.prems(1) by (intro place_entries_other) auto
    then show ?thesis using True by (simp add: place_entries_def place_entry_def)
  next
    case False
    then show ?thesis using Cons by (simp add: place_entries_def)
  qed
qed simp

lemma static_offset:
  assumes sel: "list_all (\<lambda>b. is_local (augs w b) \<or> is_global_defined (augs w b)) sb"
    and "distinct sb" "set sb \<inter> set (label_bindings w ns) = {}" and e: "e \<in> set (all_statics sb w)"
  shows "offset (augs (fst (placed junk_sym junk ns ub sb w)) (ent_binding e)) = ent_value e"
proof -
  note S = all_statics_bindings [OF sel]
  have "ent_binding e \<in> ent_binding ` set (all_statics sb w)" using e by (rule imageI)
  then have "ent_binding e \<in> set sb" unfolding S(1) .
  then have "ent_binding e \<notin> set (label_bindings (place_statics sb w) ns)" using assms(3) place_statics_labels [of sb w ns] by auto
  then have "augs (fst (placed junk_sym junk ns ub sb w)) (ent_binding e) = augs (place_statics sb w) (ent_binding e)"
    unfolding placed_def Let_def by (rule place_labels_other)
  also have "place_statics sb w = place_entries (all_statics sb w) w"
    by (simp add: place_statics_def place_entries_def all_statics_def)
  finally show ?thesis using place_entries_offset [OF S(3) [OF assms(2)] e] by simp
qed

text \<open>C14. The offsets that \<open>write_elf\<close> gives to static bindings are aligned,
their storage lies in the zero-initialised section and the storage of different bindings does
not overlap.\<close>

lemma static_storage_disjoint:
  assumes ok: "linked_program ns ub sb w"
    and "distinct sb" "set sb \<inter> set (label_bindings w ns) = {}"
    and "sum_list (map (\<lambda>b. padded (unat (aug_size (augs w b))) 8) sb) < 2 ^ 64"
    and res: "(write_elf junk_sym junk junk' ns ub sb w :: ('e, _) outcome) = Ret (file, p, w')"
    and b: "b \<in> set sb" and c: "c \<in> set sb" "b \<noteq> c"
  shows "block_disjoint (unat (offset (augs w' b)), unat (aug_size (augs w b)))
      (unat (offset (augs w' c)), unat (aug_size (augs w c))) \<and>
    block_within (unat (offset (augs w' b)), unat (aug_size (augs w b))) (0, unat (bss_size sb w)) \<and>
    8 dvd unat (offset (augs w' b))"
proof -
  from ok have sel: "list_all (\<lambda>b. is_local (augs w b) \<or> is_global_defined (augs w b)) sb"
    by (simp add: linked_program_def)
  note S = all_statics_bindings [OF sel]
  have w': "w' = fst (placed junk_sym junk ns ub sb w)"
    using res unfolding write_elf_result(1) [OF ok] Let_def by simp
  have off: "offset (augs w' (ent_binding e)) = ent_value e" if "e \<in> set (all_statics sb w)" for e
    unfolding w' by (rule static_offset [OF sel assms(2,3) that])
  have entry: "\<exists>e \<in> set (all_statics sb w). ent_binding e = x \<and>
      slot e = (unat (offset (augs w' x)), unat (aug_size (augs w x)))" if "x \<in> set sb" for x
  proof -
    from that have "x \<in> ent_binding ` set (all_statics sb w)" unfolding S(1) .
    then obtain e where "e \<in> set (all_statics sb w)" "ent_binding e = x" by auto
    then show ?thesis using off S(2) by (auto simp: slot_def)
  qed
  from entry [OF b] obtain d where d: "d \<in> set (all_statics sb w)" "ent_binding d = b"
    "slot d = (unat (offset (augs w' b)), unat (aug_size (augs w b)))" by blast
  from entry [OF c(1)] obtain e where e: "e \<in> set (all_statics sb w)" "ent_binding e = c"
    "slot e = (unat (offset (augs w' c)), unat (aug_size (augs w c)))" by blast
  have small: "slots_size (all_statics sb w) < 2 ^ 64" using assms(4) S(4) by simp
  from d(1) obtain i where "i < length (all_statics sb w)" "all_statics sb w ! i = d"
    by (auto simp: in_set_conv_nth)
  moreover from e(1) obtain j where "j < length (all_statics sb w)" "all_statics sb w ! j = e"
    by (auto simp: in_set_conv_nth)
  moreover from calculation have "i \<noteq> j" using c(2) d(2) e(2) by auto
  ultimately have "block_disjoint (slot d) (slot e)"
    using blocks_disjoint_nth_neq [OF slots_disjoint(1) [OF small], of i j] by simp
  then show ?thesis using slots_disjoint(2) [OF small d(1)] d(3) e(3) by simp
qed


text \<open>The small program of theory \<open>Assembler_Correct\<close> with two static bindings.\<close>

definition static_world :: "unit world" where
  "static_world = small_world\<lparr>augs := (augs small_world)
     (200 := \<lparr>aug_name = Some ''a'', offset = 0, aug_size = 12, aug_type = absolute_storage,
        scope = local_scope, state = defined_state, aug_symbol = None, aug_expression = None\<rparr>,
      201 := \<lparr>aug_name = Some ''bc'', offset = 0, aug_size = 8, aug_type = absolute_storage,
        scope = global_scope, state = defined_state, aug_symbol = None, aug_expression = None\<rparr>)\<rparr>"

lemma static_world_linked: "linked_program small_program [] [200, 201] static_world"
  unfolding linked_program_def
proof (intro conjI)
  show "list_all (instruction_ok (\<lambda>b. b \<in> set [] \<or> b \<in> set [200, 201] \<or>
      b \<in> set (label_bindings static_world small_program)) static_world) small_program"
    by (simp add: small_program_def instruction_ok_def operand_kinds_def opcode_defs operand_ok.simps
        reference_ok_def static_world_def small_world_def register_defs label_bindings_def label_binding_def)
  show "1024 + MAX_INSTR_LEN * length small_program + measure_strtab static_world small_program [] [200, 201] +
      ELF64_SYM * measure_symtab small_program [] [200, 201] +
      ELF64_RELA * MAX_INSTR_FIELDS * length small_program < 2 ^ 31"
    by (simp add: small_program_def MAX_INSTR_LEN_def MAX_INSTR_FIELDS_def elf_sizes measure_strtab_def
        measure_symtab_def is_label_def opcode_defs static_world_def small_world_def name_size_def
        label_name_def label_ref_def)
qed (simp_all add: static_world_def)

lemma write_elf_in_bounds_witness:
  "\<exists>file p w'. (write_elf (\<lambda>i. small_symbol) (\<lambda>i. 1) (\<lambda>i. 1) small_program [] [200, 201] static_world
      :: (nat, _) outcome) = Ret (file, p, w') \<and> p \<le> length file"
  using write_elf_in_bounds [OF static_world_linked, where ?'e = nat] by blast

lemma static_storage_disjoint_witness:
  "\<exists>file p w'. (write_elf (\<lambda>i. small_symbol) (\<lambda>i. 1) (\<lambda>i. 1) small_program [] [200, 201] static_world
      :: (nat, _) outcome) = Ret (file, p, w') \<and>
     block_disjoint (unat (offset (augs w' 200)), 12) (unat (offset (augs w' 201)), 8)"
proof -
  obtain img p w' where r: "(write_elf (\<lambda>i. small_symbol) (\<lambda>i. 1) (\<lambda>i. 1) small_program [] [200, 201] static_world
        :: (nat, _) outcome) = Ret (img, p, w')"
    using write_elf_result(1) [OF static_world_linked, where ?'e = nat] by (simp add: Let_def)
  have "block_disjoint (unat (offset (augs w' 200)), unat (aug_size (augs static_world 200)))
      (unat (offset (augs w' 201)), unat (aug_size (augs static_world 201))) \<and>
    block_within (unat (offset (augs w' 200)), unat (aug_size (augs static_world 200))) (0, unat (bss_size [200, 201] static_world)) \<and>
    8 dvd unat (offset (augs w' 200))"
    by (rule static_storage_disjoint [OF static_world_linked _ _ _ r])
      (simp_all add: static_world_def small_world_def small_program_def label_bindings_def label_binding_def
        opcode_defs padded_def)
  then show ?thesis using r by (auto simp: static_world_def)
qed

end
