(* ===== verification/Objects.thy ===== *)
theory Objects
  imports Elf C_Strings Cells L2_Errors
begin

text \<open>
  The object files of \<open>bootstrap/x86_64_object.c\<close>: reading one into memory, turning its offsets into
  addresses, relocating it, and reading and changing its bindings. The bytes of the file are a list;
  the segments that sections are loaded into are blocks of the byte memory that an allocator hands
  out, and the arrays of the structure \<open>Object\<close> are lists. An access outside of the file, of an
  array or of the segments is undefined. Theory \<open>Objects_Correct\<close> shows what the functions promise.
\<close>

section \<open>The object\<close>

text \<open>The elements of \<open>syms\<close>, \<open>relas\<close> and \<open>addends\<close> of sections of other types are null: the list is empty.\<close>

record Object =
  ehdr :: Elf64_Ehdr
  shdrs :: "Elf64_Shdr list"
  obj_syms :: "Elf64_Sym list list"
  obj_relas :: "Elf64_Rela list list"
  addends :: "Elf64_Sxword list list"
  segs :: "addr list"

text \<open>The blocks of memory that belong to the segments.\<close>

definition segment_block :: "Object \<Rightarrow> nat \<Rightarrow> block" where
  "segment_block obj sec = (unat (segs obj ! sec), unat (sh_size (shdrs obj ! sec)))"

definition in_segment :: "Object \<Rightarrow> addr \<Rightarrow> nat \<Rightarrow> bool" where
  "in_segment obj a n \<longleftrightarrow> list_ex (\<lambda>sec. block_within (unat a, n) (segment_block obj sec)) [0..<length (segs obj)]"

text \<open>\<open>int relanum = sh_size / sh_entsize\<close>: a division by zero is undefined.\<close>

definition count_entries :: "Elf64_Shdr \<Rightarrow> ('e, int) outcome" where
  "count_entries h =
     (if sh_entsize h = 0 then Undef else Ret (sint (ucast (sh_size h div sh_entsize h) :: 32 word)))"

definition is_rel :: "Elf64_Shdr \<Rightarrow> bool" where
  "is_rel h \<longleftrightarrow> sh_type h = SHT_REL \<or> sh_type h = SHT_RELA"

text \<open>\<open>xss[i][j] = f(xss[i][j])\<close>\<close>

definition update_entry :: "nat \<Rightarrow> nat \<Rightarrow> ('a \<Rightarrow> 'a) \<Rightarrow> 'a list list \<Rightarrow> ('e, 'a list list) outcome" where
  "update_entry i j f xss =
     (if i < length xss \<and> j < length (xss ! i) then Ret (xss[i := (xss ! i)[j := f (xss ! i ! j)]]) else Undef)"

section \<open>Reading\<close>

text \<open>The loops that copy the entries of a table out of its segment.\<close>

fun read_entries :: "(byte list \<Rightarrow> 'a) \<Rightarrow> nat \<Rightarrow> mem \<Rightarrow> addr \<Rightarrow> Elf64_Shdr \<Rightarrow> nat list \<Rightarrow> ('e, 'a list) outcome" where
  "read_entries dec width m seg h [] = Ret []"
| "read_entries dec width m seg h (i # is) =
     (if unat (sh_entsize h) * i + width \<le> unat (sh_size h)
      then bindO (read_entries dec width m seg h is) (\<lambda>xs.
           Ret (dec (get_bytes m (seg + of_nat (unat (sh_entsize h) * i)) width) # xs))
      else Undef)"

text \<open>A relocation without addend is copied into the front of memory that is still zero.\<close>

definition rela_of_rel :: "byte list \<Rightarrow> Elf64_Rela" where
  "rela_of_rel bs = rela_of (bs @ replicate 8 0)"

definition read_tables ::
  "'s alloc_fun \<Rightarrow> nat \<Rightarrow> Elf64_Shdr \<Rightarrow> addr \<Rightarrow> Object \<Rightarrow> mem \<Rightarrow> 's \<Rightarrow> ('x, Object \<times> mem \<times> 's) evaluation" where
  "read_tables alloc sec h seg obj m s =
     (if sh_type h = SHT_SYMTAB then
        bindO (count_entries h) (\<lambda>symnum.
        let (_, s) = alloc (of_int symnum * of_nat ELF64_SYM) s
        in bindO (read_entries sym_of ELF64_SYM m seg h [0..<nat symnum]) (\<lambda>xs.
           Ret (obj\<lparr>obj_syms := (obj_syms obj)[sec := xs]\<rparr>, m, s)))
      else if is_rel h then
        bindO (count_entries h) (\<lambda>relanum.
        let (_, s) = alloc (of_int relanum * of_nat ELF64_RELA) s
        in bindO (if sh_type h = SHT_RELA then read_entries rela_of ELF64_RELA m seg h [0..<nat relanum]
                  else read_entries rela_of_rel ELF64_REL m seg h [0..<nat relanum]) (\<lambda>xs.
           Ret (obj\<lparr>obj_relas := (obj_relas obj)[sec := xs]\<rparr>, m, s)))
      else Ret (obj, m, s))"

definition read_section ::
  "'s alloc_fun \<Rightarrow> byte list \<Rightarrow> nat \<Rightarrow> Object \<times> mem \<times> 's \<Rightarrow> ('x, Object \<times> mem \<times> 's) evaluation" where
  "read_section alloc objsrc sec = (\<lambda>(obj, m, s).
     let p = unat (e_shoff (ehdr obj)) + unat (e_shentsize (ehdr obj)) * sec
     in if \<not> p + ELF64_SHDR \<le> length objsrc then Undef
        else let h = shdr_of (take ELF64_SHDR (drop p objsrc));
                 (seg, s) = alloc (sh_size h) s;
                 obj = obj\<lparr>shdrs := (shdrs obj)[sec := h], segs := (segs obj)[sec := seg]\<rparr>
             in bindO (if sh_type h = SHT_NOBITS then Ret m
                       else if unat (sh_offset h) + unat (sh_size h) \<le> length objsrc
                       then Ret (upd_bytes m seg (take (unat (sh_size h)) (drop (unat (sh_offset h)) objsrc)))
                       else Undef) (\<lambda>m. read_tables alloc sec h seg obj m s))"

text \<open>The checks of the file header.\<close>

definition valid_ident :: "byte list \<Rightarrow> bool" where
  "valid_ident ident \<longleftrightarrow> ident ! EI_MAG0 = ELFMAG0 \<and> ident ! EI_MAG1 = ELFMAG1 \<and>
     ident ! EI_MAG2 = ELFMAG2 \<and> ident ! EI_MAG3 = ELFMAG3 \<and>
     ident ! EI_CLASS = ELFCLASS64 \<and> ident ! EI_DATA = ELFDATA2LSB"

definition zero_shdr :: Elf64_Shdr where
  "zero_shdr = \<lparr>sh_name = 0, sh_type = 0, sh_flags = 0, sh_addr = 0, sh_offset = 0, sh_size = 0,
     sh_link = 0, sh_info = 0, sh_addralign = 0, sh_entsize = 0\<rparr>"

definition new_object :: "Elf64_Ehdr \<Rightarrow> Object" where
  "new_object eh = (let n = unat (e_shnum eh)
     in \<lparr>ehdr = eh, shdrs = replicate n zero_shdr, obj_syms = replicate n [], obj_relas = replicate n [],
         addends = replicate n [], segs = replicate n 0\<rparr>)"

text \<open>The arrays come from the same allocator; their addresses do not matter here.\<close>

definition alloc_arrays :: "'s alloc_fun \<Rightarrow> u64 list \<Rightarrow> 's \<Rightarrow> 's" where
  "alloc_arrays alloc ns s = fold (\<lambda>n s. snd (alloc n s)) ns s"

definition read_object ::
  "'s alloc_fun \<Rightarrow> byte list \<Rightarrow> mem \<times> 's \<Rightarrow> ('x, Object \<times> mem \<times> 's) evaluation" where
  "read_object alloc objsrc = (\<lambda>(m, s).
     let s = alloc_arrays alloc [48, of_nat ELF64_EHDR] s
     in if length objsrc < ELF64_EHDR then throw_object
        else let eh = ehdr_of (take ELF64_EHDR objsrc)
             in if \<not> valid_ident (e_ident eh) then throw_object
                else let n = ucast (e_shnum eh) :: u64;
                         s = alloc_arrays alloc [n * of_nat ELF64_SHDR, n * 8, n * 8, n * 8, n * 8] s
                     in for_each (read_section alloc objsrc) [0..<unat (e_shnum eh)] (new_object eh, m, s))"

section \<open>Addresses\<close>

definition symbol_address :: "Object \<Rightarrow> Elf64_Sym \<Rightarrow> ('e, Elf64_Addr) outcome" where
  "symbol_address obj sy =
     (if st_shndx sy = SHN_ABS then Ret (st_value sy)
      else if st_shndx sy = SHN_COMMON \<or> st_shndx sy = SHN_UNDEF then Ret 0
      else if unat (st_shndx sy) < length (segs obj) then Ret (segs obj ! unat (st_shndx sy) + st_value sy)
      else Undef)"

definition address_rela :: "nat \<Rightarrow> nat \<Rightarrow> Object \<Rightarrow> ('e, Object) outcome" where
  "address_rela sec i obj =
     (if unat (sh_info (shdrs obj ! sec)) < length (segs obj)
      then bindO (update_entry sec i (\<lambda>r. r\<lparr>r_offset := segs obj ! unat (sh_info (shdrs obj ! sec)) + r_offset r\<rparr>)
                    (obj_relas obj)) (\<lambda>rs. Ret (obj\<lparr>obj_relas := rs\<rparr>))
      else Undef)"

definition address_symbol :: "nat \<Rightarrow> nat \<Rightarrow> Object \<Rightarrow> ('e, Object) outcome" where
  "address_symbol sec i obj =
     (if sec < length (obj_syms obj) \<and> i < length (obj_syms obj ! sec)
      then bindO (symbol_address obj (obj_syms obj ! sec ! i)) (\<lambda>v.
           bindO (update_entry sec i (\<lambda>sy. sy\<lparr>st_value := v\<rparr>) (obj_syms obj)) (\<lambda>ss.
           Ret (obj\<lparr>obj_syms := ss\<rparr>)))
      else Undef)"

definition address_section :: "nat \<Rightarrow> Object \<Rightarrow> ('e, Object) outcome" where
  "address_section sec obj =
     (let h = shdrs obj ! sec
      in if is_rel h then bindO (count_entries h) (\<lambda>n. for_each (address_rela sec) [0..<nat n] obj)
         else if sh_type h = SHT_SYMTAB
         then bindO (count_entries h) (\<lambda>n. for_each (address_symbol sec) [0..<nat n] obj)
         else Ret obj)"

definition offsets_to_addresses :: "Object \<Rightarrow> ('e, Object) outcome" where
  "offsets_to_addresses obj = for_each address_section [0..<unat (e_shnum (ehdr obj))] obj"

section \<open>Addends\<close>

text \<open>The width of the field that holds the addend of a relocation without one.\<close>

definition addend_width :: "u64 \<Rightarrow> nat option" where
  "addend_width ty =
     (if ty = R_X86_64_8 \<or> ty = R_X86_64_PC8 then Some 1
      else if ty = R_X86_64_16 \<or> ty = R_X86_64_PC16 then Some 2
      else if ty = R_X86_64_PC32 \<or> ty = R_X86_64_32 \<or> ty = R_X86_64_32S \<or> ty = R_X86_64_SIZE32 then Some 4
      else if ty = R_X86_64_64 \<or> ty = R_X86_64_SIZE64 \<or> ty = R_X86_64_GLOB_DAT \<or> ty = R_X86_64_JUMP_SLOT
      then Some 8 else None)"

fun addends_of :: "(Elf64_Rela \<Rightarrow> ('e, Elf64_Sxword) outcome) \<Rightarrow> Elf64_Rela list \<Rightarrow> nat list \<Rightarrow> ('e, Elf64_Sxword list) outcome" where
  "addends_of f rs [] = Ret []"
| "addends_of f rs (i # is) =
     (if i < length rs then bindO (f (rs ! i)) (\<lambda>x. bindO (addends_of f rs is) (\<lambda>xs. Ret (x # xs))) else Undef)"

definition rel_addend :: "Object \<Rightarrow> mem \<Rightarrow> Elf64_Rela \<Rightarrow> ('x, Elf64_Sxword) evaluation" where
  "rel_addend obj m r =
     (case addend_width (ELF64_R_TYPE (r_info r)) of
        None \<Rightarrow> throw_object
      | Some n \<Rightarrow> if in_segment obj (r_offset r) n then Ret (of_le (get_bytes m (r_offset r) n)) else Undef)"

definition store_section ::
  "'s alloc_fun \<Rightarrow> mem \<Rightarrow> nat \<Rightarrow> Object \<times> 's \<Rightarrow> ('x, Object \<times> 's) evaluation" where
  "store_section alloc m sec = (\<lambda>(obj, s).
     let h = shdrs obj ! sec
     in if is_rel h then
          bindO (count_entries h) (\<lambda>n.
          let (_, s) = alloc (of_int n * 8) s
          in bindO (addends_of (if sh_type h = SHT_RELA then (\<lambda>r. Ret (r_addend r)) else rel_addend obj m)
               (obj_relas obj ! sec) [0..<nat n]) (\<lambda>as.
             Ret (obj\<lparr>addends := (addends obj)[sec := as]\<rparr>, s)))
        else Ret (obj, s))"

definition store_addends :: "'s alloc_fun \<Rightarrow> mem \<Rightarrow> Object \<times> 's \<Rightarrow> ('x, Object \<times> 's) evaluation" where
  "store_addends alloc m = (\<lambda>(obj, s).
     for_each (store_section alloc m) [0..<unat (e_shnum (ehdr obj))] (obj, s))"

section \<open>Relocation\<close>

text \<open>The value that a relocation writes and how many of its bytes; other types write nothing.\<close>

definition relocated_value :: "u64 \<Rightarrow> Elf64_Sym \<Rightarrow> Elf64_Sxword \<Rightarrow> Elf64_Addr \<Rightarrow> (Elf64_Addr \<times> nat) option" where
  "relocated_value ty sy addend place =
     (if ty = R_X86_64_NONE then None
      else if ty = R_X86_64_64 then Some (st_value sy + addend, 8)
      else if ty = R_X86_64_PC32 then Some (st_value sy + addend - place, 4)
      else if ty = R_X86_64_GLOB_DAT then Some (st_value sy, 8)
      else if ty = R_X86_64_JUMP_SLOT then Some (st_value sy, 8)
      else if ty = R_X86_64_32 then Some (st_value sy + addend, 4)
      else if ty = R_X86_64_32S then Some (st_value sy + addend, 4)
      else if ty = R_X86_64_16 then Some (st_value sy + addend, 2)
      else if ty = R_X86_64_PC16 then Some (st_value sy + addend - place, 2)
      else if ty = R_X86_64_8 then Some (st_value sy + addend, 1)
      else if ty = R_X86_64_PC8 then Some (st_value sy + addend - place, 1)
      else if ty = R_X86_64_SIZE32 then Some (st_size sy + addend, 4)
      else if ty = R_X86_64_SIZE64 then Some (st_size sy + addend, 8)
      else None)"

definition writes_field :: "u64 \<Rightarrow> bool" where
  "writes_field ty \<longleftrightarrow> ty \<noteq> R_X86_64_NONE \<and> addend_width ty \<noteq> None"

text \<open>The symbol is looked at only by the relocations that write.\<close>

definition rela_symbol :: "Object \<Rightarrow> nat \<Rightarrow> Elf64_Rela \<Rightarrow> Elf64_Sym option" where
  "rela_symbol obj sec r =
     (let l = unat (sh_link (shdrs obj ! sec)); i = unat (ELF64_R_SYM (r_info r))
      in if l < length (obj_syms obj) \<and> i < length (obj_syms obj ! l) then Some (obj_syms obj ! l ! i) else None)"

definition relocate :: "Object \<Rightarrow> nat \<Rightarrow> nat \<Rightarrow> mem \<Rightarrow> ('e, mem) outcome" where
  "relocate obj sec i m =
     (if i < length (obj_relas obj ! sec) \<and> i < length (addends obj ! sec) then
        let r = obj_relas obj ! sec ! i; ty = ELF64_R_TYPE (r_info r)
        in if \<not> writes_field ty then Ret m
           else case rela_symbol obj sec r of None \<Rightarrow> Undef
             | Some sy \<Rightarrow> (case relocated_value ty sy (addends obj ! sec ! i) (r_offset r) of
                 None \<Rightarrow> Ret m
               | Some (v, n) \<Rightarrow> if in_segment obj (r_offset r) n then Ret (upd_bytes m (r_offset r) (le_bytes n v))
                               else Undef)
      else Undef)"

definition relocate_section :: "Object \<Rightarrow> nat \<Rightarrow> mem \<Rightarrow> ('e, mem) outcome" where
  "relocate_section obj sec m =
     (let h = shdrs obj ! sec
      in if is_rel h then bindO (count_entries h) (\<lambda>n. for_each (relocate obj sec) [0..<nat n] m) else Ret m)"

definition do_relocations :: "Object \<Rightarrow> mem \<Rightarrow> ('e, mem) outcome" where
  "do_relocations obj m = for_each (relocate_section obj) [0..<unat (e_shnum (ehdr obj))] m"

definition load :: "'s alloc_fun \<Rightarrow> byte list \<Rightarrow> mem \<times> 's \<Rightarrow> ('x, Object \<times> mem \<times> 's) evaluation" where
  "load alloc objsrc ms =
     bindO (read_object alloc objsrc ms) (\<lambda>(obj, m, s).
     bindO (offsets_to_addresses obj) (\<lambda>obj.
     bindO (store_addends alloc m (obj, s)) (\<lambda>(obj, s).
     bindO (do_relocations obj m) (\<lambda>m. Ret (obj, m, s)))))"

section \<open>Bindings\<close>

definition name_of :: "Object \<Rightarrow> Elf64_Shdr \<Rightarrow> Elf64_Sym \<Rightarrow> ('e, addr) outcome" where
  "name_of obj h sy =
     (if unat (sh_link h) < length (segs obj) then Ret (segs obj ! unat (sh_link h) + ucast (st_name sy)) else Undef)"

record binding =
  bndg_name :: addr
  bndg_address :: addr

definition make_binding :: "addr \<Rightarrow> addr \<Rightarrow> binding" where
  "make_binding nm a = \<lparr>bndg_name = nm, bndg_address = a\<rparr>"

definition is_open :: "Elf64_Sym \<Rightarrow> bool" where
  "is_open sy \<longleftrightarrow> st_shndx sy = SHN_UNDEF \<or> st_shndx sy = SHN_COMMON"

definition is_visible :: "Elf64_Sym \<Rightarrow> bool" where
  "is_visible sy \<longleftrightarrow> ELF64_ST_BIND (st_info sy) = STB_GLOBAL \<or> ELF64_ST_BIND (st_info sy) = STB_WEAK"

definition mutate_symbol :: "mem \<Rightarrow> binding \<Rightarrow> nat \<Rightarrow> nat \<Rightarrow> Object \<Rightarrow> ('e, Object) outcome" where
  "mutate_symbol m update sec i obj =
     (if i < length (obj_syms obj ! sec) then
        let sy = obj_syms obj ! sec ! i
        in bindO (name_of obj (shdrs obj ! sec) sy) (\<lambda>nm.
           case strcmp m nm (bndg_name update) of
             None \<Rightarrow> NoFuel
           | Some d \<Rightarrow>
               if d = 0 \<and> is_open sy \<and> is_visible sy
               then bindO (update_entry sec i (\<lambda>sy. sy\<lparr>st_value := bndg_address update\<rparr>) (obj_syms obj)) (\<lambda>ss.
                    Ret (obj\<lparr>obj_syms := ss\<rparr>))
               else Ret obj)
      else Undef)"

definition mutate_section :: "mem \<Rightarrow> binding \<Rightarrow> nat \<Rightarrow> Object \<Rightarrow> ('e, Object) outcome" where
  "mutate_section m update sec obj =
     (let h = shdrs obj ! sec
      in if sh_type h = SHT_SYMTAB
         then bindO (count_entries h) (\<lambda>n. for_each (mutate_symbol m update sec) [1..<nat n] obj)
         else Ret obj)"

definition mutate_bindings :: "binding list \<Rightarrow> Object \<times> mem \<Rightarrow> ('e, Object \<times> mem) outcome" where
  "mutate_bindings updates = (\<lambda>(obj, m).
     bindO (for_each (\<lambda>update obj. for_each (mutate_section m update) [0..<unat (e_shnum (ehdr obj))] obj)
              updates obj) (\<lambda>obj.
     bindO (do_relocations obj m) (\<lambda>m. Ret (obj, m))))"

text \<open>\<open>bindings\<close> prepends, so that the last symbol comes first.\<close>

definition collect_binding :: "bool \<Rightarrow> Object \<Rightarrow> nat \<Rightarrow> nat \<Rightarrow> binding list \<Rightarrow> ('e, binding list) outcome" where
  "collect_binding flag obj sec i bs =
     (if i < length (obj_syms obj ! sec) then
        let sy = obj_syms obj ! sec ! i
        in if is_open sy = flag \<and> is_visible sy
           then bindO (name_of obj (shdrs obj ! sec) sy) (\<lambda>nm. Ret (make_binding nm (st_value sy) # bs))
           else Ret bs
      else Undef)"

definition collect_section :: "bool \<Rightarrow> Object \<Rightarrow> nat \<Rightarrow> binding list \<Rightarrow> ('e, binding list) outcome" where
  "collect_section flag obj sec bs =
     (let h = shdrs obj ! sec
      in if sh_type h = SHT_SYMTAB
         then bindO (count_entries h) (\<lambda>n. for_each (collect_binding flag obj sec) [1..<nat n] bs)
         else Ret bs)"

definition bindings :: "bool \<Rightarrow> Object \<Rightarrow> ('e, binding list) outcome" where
  "bindings flag obj = for_each (collect_section flag obj) [0..<unat (e_shnum (ehdr obj))] []"

definition mutable_bindings :: "Object \<Rightarrow> ('e, binding list) outcome" where
  "mutable_bindings obj = bindings True obj"

definition immutable_bindings :: "Object \<Rightarrow> ('e, binding list) outcome" where
  "immutable_bindings obj = bindings False obj"

text \<open>The function ends without a value when no section has the name.\<close>

fun find_segment :: "mem \<Rightarrow> addr \<Rightarrow> Object \<Rightarrow> addr \<Rightarrow> nat list \<Rightarrow> ('e, addr) outcome" where
  "find_segment m names obj name [] = Undef"
| "find_segment m names obj name (sec # secs) =
     (case strcmp m (names + ucast (sh_name (shdrs obj ! sec))) name of
        None \<Rightarrow> NoFuel
      | Some d \<Rightarrow> if d = 0 then Ret (segs obj ! sec) else find_segment m names obj name secs)"

definition segment :: "mem \<Rightarrow> Object \<Rightarrow> addr \<Rightarrow> ('e, addr) outcome" where
  "segment m obj name =
     (if e_shstrndx (ehdr obj) = SHN_UNDEF then Undef
      else if unat (e_shstrndx (ehdr obj)) < length (segs obj)
      then find_segment m (segs obj ! unat (e_shstrndx (ehdr obj))) obj name [0..<unat (e_shnum (ehdr obj))]
      else Undef)"

end
