(* ===== verification/Memory_Runs.thy ===== *)
theory Memory_Runs
  imports C_Strings
begin

text \<open>
  Runs of bytes in memory seen as blocks of addresses that do not wrap around: reads and writes of
  disjoint runs commute, and a read within a run is a part of the bytes of the run.
\<close>

abbreviation run_fits :: "addr \<Rightarrow> nat \<Rightarrow> bool" where
  "run_fits p n \<equiv> unat p + n \<le> 2 ^ 64"

lemma in_run:
  assumes "run_fits p n"
  shows "x \<in> run_of p n \<longleftrightarrow> unat p \<le> unat x \<and> unat x < unat p + n"
proof
  assume "x \<in> run_of p n"
  then obtain i where i: "i < n" "x = p + of_nat i" by (auto simp: run_of_def)
  have "unat (of_nat i :: addr) = i" using i(1) assms by (simp add: unat_of_nat)
  then have "unat x = unat p + i" unfolding i(2) using i(1) assms by (subst unat_add_small) auto
  then show "unat p \<le> unat x \<and> unat x < unat p + n" using i(1) by simp
next
  assume r: "unat p \<le> unat x \<and> unat x < unat p + n"
  have "x = p + of_nat (unat x - unat p)"
    using r by (simp add: of_nat_diff)
  with r show "x \<in> run_of p n" unfolding run_of_def by (intro image_eqI [where x = "unat x - unat p"]) auto
qed

lemma runs_disjoint:
  assumes "block_disjoint (unat p, n) (unat q, k)" "run_fits p n" "run_fits q k"
  shows "run_of p n \<inter> run_of q k = {}"
  using assms(1) by (auto simp: in_run [OF assms(2)] in_run [OF assms(3)])

lemma get_upd_other:
  assumes "block_disjoint (unat p, length bs) (unat q, k)" "run_fits p (length bs)" "run_fits q k"
  shows "get_bytes (upd_bytes m p bs) q k = get_bytes m q k"
  using runs_disjoint [OF assms] by (intro get_bytes_cong upd_bytes_outside) auto

lemma get_bytes_append: "get_bytes m p (i + k) = get_bytes m p i @ get_bytes m (p + of_nat i) k"
  by (induction i arbitrary: p) (auto simp: algebra_simps)

lemma get_bytes_part:
  assumes "i + k \<le> n"
  shows "get_bytes m (p + of_nat i) k = take k (drop i (get_bytes m p n))"
proof -
  from assms obtain r where n: "n = i + k + r" by (metis le_iff_add)
  have "get_bytes m p n = get_bytes m p i @ get_bytes m (p + of_nat i) k @ get_bytes m (p + of_nat (i + k)) r"
    unfolding n get_bytes_append [of m p "i + k" r] get_bytes_append [of m p i k] by simp
  then show ?thesis by simp
qed

lemma nth_get_bytes: "i < n \<Longrightarrow> get_bytes m p n ! i = m (p + of_nat i)"
  using get_bytes_part [of i 1 n m p] by (simp add: take_Suc hd_drop_conv_nth)

lemma unat_add_of_nat:
  assumes "run_fits p n" "i < n"
  shows "unat (p + of_nat i) = unat p + i"
proof -
  have "unat (of_nat i :: addr) = i" using assms by (simp add: unat_of_nat)
  then show ?thesis using assms by (subst unat_add_small) auto
qed

lemma upd_bytes_append: "upd_bytes m p (bs @ cs) = upd_bytes (upd_bytes m p bs) (p + of_nat (length bs)) cs"
  by (induction bs arbitrary: m p) (auto simp: algebra_simps)

text \<open>What a run of bytes holds after it was written does not depend on what was there.\<close>

lemma upd_bytes_inside:
  "length bs < 2 ^ 64 \<Longrightarrow> x \<in> run_of p (length bs) \<Longrightarrow> upd_bytes m p bs x = upd_bytes m' p bs x"
proof (induction bs arbitrary: m m' p)
  case (Cons b bs)
  have p: "p \<notin> run_of (p + 1) (length bs)" using Cons.prems(1) by (intro start_not_in_rest) simp
  show ?case
  proof (cases "x \<in> run_of (p + 1) (length bs)")
    case True
    then show ?thesis using Cons.IH [of "p + 1"] Cons.prems(1) by simp
  next
    case False
    with Cons.prems(2) have "x = p" by (simp add: run_of_Suc)
    then show ?thesis using p by (simp add: upd_bytes_outside)
  qed
qed simp

section \<open>Several writes\<close>

text \<open>Writes one after the other: addresses with the bytes that are stored there.\<close>

definition write_runs :: "(addr \<times> byte list) list \<Rightarrow> mem \<Rightarrow> mem" where
  "write_runs ws m = fold (\<lambda>(a, bs) m. upd_bytes m a bs) ws m"

definition run_sites :: "(addr \<times> byte list) list \<Rightarrow> (addr \<times> nat) list" where
  "run_sites ws = map (\<lambda>(a, bs). (a, length bs)) ws"

lemma write_runs_simps [simp]:
  "write_runs [] m = m"
  "write_runs (w # ws) m = write_runs ws (upd_bytes m (fst w) (snd w))"
  "write_runs (ws @ vs) m = write_runs vs (write_runs ws m)"
  by (simp_all add: write_runs_def split: prod.splits)

lemma run_sites_simps [simp]:
  "run_sites [] = []" "run_sites (w # ws) = (fst w, length (snd w)) # run_sites ws"
  "run_sites (ws @ vs) = run_sites ws @ run_sites vs" "set (run_sites ws) = (\<lambda>w. (fst w, length (snd w))) ` set ws"
  by (auto simp: run_sites_def image_def case_prod_beta)

lemma write_runs_outside:
  "(\<And>a n. (a, n) \<in> set (run_sites ws) \<Longrightarrow> x \<notin> run_of a n) \<Longrightarrow> write_runs ws m x = m x"
proof (induction ws arbitrary: m)
  case (Cons w ws)
  have "x \<notin> run_of (fst w) (length (snd w))" using Cons.prems [of "fst w" "length (snd w)"] by simp
  then show ?case using Cons by (simp add: upd_bytes_outside)
qed simp

text \<open>A second round of writes to the same places makes the first round invisible.\<close>

lemma write_runs_overwrite:
  assumes "list_all (\<lambda>w. length (snd w) < 2 ^ 64) vs"
    and "m x = m' x \<or> (\<exists>(a, n) \<in> set (run_sites vs). x \<in> run_of a n)"
  shows "write_runs vs m x = write_runs vs m' x"
  using assms
proof (induction vs arbitrary: m m')
  case (Cons v vs)
  show ?case
  proof (cases "x \<in> run_of (fst v) (length (snd v))")
    case True
    then have "upd_bytes m (fst v) (snd v) x = upd_bytes m' (fst v) (snd v) x"
      using Cons.prems(1) by (intro upd_bytes_inside) auto
    then show ?thesis using Cons by simp
  next
    case False
    then have *: "upd_bytes k (fst v) (snd v) x = k x" for k by (rule upd_bytes_outside)
    have "m x = m' x \<or> (\<exists>(a, n) \<in> set (run_sites vs). x \<in> run_of a n)"
      using Cons.prems(2) False by auto
    then show ?thesis using Cons.prems(1) * by (simp add: Cons.IH)
  qed
qed simp

lemma write_runs_twice:
  assumes "list_all (\<lambda>w. length (snd w) < 2 ^ 64) vs" "run_sites ws = run_sites vs"
  shows "write_runs vs (write_runs ws m) = write_runs vs m"
proof
  fix x
  have "write_runs ws m x = m x \<or> (\<exists>(a, n) \<in> set (run_sites vs). x \<in> run_of a n)"
    using write_runs_outside [of ws x m] unfolding assms(2) by blast
  then show "write_runs vs (write_runs ws m) x = write_runs vs m x"
    by (rule write_runs_overwrite [OF assms(1)])
qed

text \<open>Writes to disjoint places all stay.\<close>

definition sites_disjoint :: "(addr \<times> nat) list \<Rightarrow> bool" where
  "sites_disjoint ss \<longleftrightarrow> list_all (\<lambda>(a, n). run_fits a n) ss \<and> blocks_disjoint (map (\<lambda>(a, n). (unat a, n)) ss)"

lemma write_runs_get:
  assumes "sites_disjoint (run_sites ws)" "list_all (\<lambda>w. length (snd w) < 2 ^ 64) ws" "w \<in> set ws"
  shows "get_bytes (write_runs ws m) (fst w) (length (snd w)) = snd w"
  using assms
proof (induction ws arbitrary: m)
  case (Cons v vs)
  show ?case
  proof (cases "w \<in> set vs")
    case True
    then show ?thesis using Cons by (simp add: sites_disjoint_def)
  next
    case False
    with Cons.prems(3) have w: "w = v" by simp
    have "get_bytes (write_runs vs (upd_bytes m (fst v) (snd v))) (fst v) (length (snd v)) =
        get_bytes (upd_bytes m (fst v) (snd v)) (fst v) (length (snd v))"
    proof (intro get_bytes_cong write_runs_outside)
      fix a n x assume x: "(a, n) \<in> set (run_sites vs)" "x \<in> run_of (fst v) (length (snd v))"
      then have "block_disjoint (unat (fst v), length (snd v)) (unat a, n)" "run_fits a n"
          "run_fits (fst v) (length (snd v))"
        using Cons.prems(1) by (auto simp: sites_disjoint_def list_all_iff)
      then show "x \<notin> run_of a n" using runs_disjoint x(2) by blast
    qed
    then show ?thesis using Cons.prems(2) w by (simp add: get_upd_bytes)
  qed
qed simp

end
