(* ===== verification/Objects_Correct.thy ===== *)
theory Objects_Correct
  imports Objects Memory_Runs
begin

text \<open>
  What the object functions promise. A well-formed file is read into disjoint segments that hold the
  bytes of its sections, with the tables of symbols and relocations taken out of them; relocation
  writes exactly the fields that the relocations name, whatever was there; changing bindings gives
  the same memory as loading with the new addresses would have given.
\<close>

section \<open>What a file holds\<close>

definition source_ehdr :: "byte list \<Rightarrow> Elf64_Ehdr" where
  "source_ehdr src = ehdr_of (take ELF64_EHDR src)"

definition section_count :: "byte list \<Rightarrow> nat" where
  "section_count src = unat (e_shnum (source_ehdr src))"

definition shdr_pos :: "byte list \<Rightarrow> nat \<Rightarrow> nat" where
  "shdr_pos src sec = unat (e_shoff (source_ehdr src)) + unat (e_shentsize (source_ehdr src)) * sec"

definition source_shdr :: "byte list \<Rightarrow> nat \<Rightarrow> Elf64_Shdr" where
  "source_shdr src sec = shdr_of (take ELF64_SHDR (drop (shdr_pos src sec) src))"

definition section_bytes :: "byte list \<Rightarrow> nat \<Rightarrow> byte list" where
  "section_bytes src sec = (let h = source_shdr src sec
     in take (unat (sh_size h)) (drop (unat (sh_offset h)) src))"

definition entry_width :: "Elf64_Shdr \<Rightarrow> nat option" where
  "entry_width h = (if sh_type h = SHT_SYMTAB then Some ELF64_SYM
     else if sh_type h = SHT_RELA then Some ELF64_RELA
     else if sh_type h = SHT_REL then Some ELF64_REL else None)"

definition entry_count :: "Elf64_Shdr \<Rightarrow> nat" where
  "entry_count h = (case entry_width h of None \<Rightarrow> 0 | Some n \<Rightarrow> unat (sh_size h) div n)"

text \<open>A table has entries of the size of its records, and fewer than \<open>2 ^ 31\<close> of them.\<close>

definition table_ok :: "Elf64_Shdr \<Rightarrow> bool" where
  "table_ok h \<longleftrightarrow> (case entry_width h of None \<Rightarrow> True
     | Some n \<Rightarrow> sh_entsize h = of_nat n \<and> unat (sh_size h) div n < 2 ^ 31)"

definition section_ok :: "byte list \<Rightarrow> nat \<Rightarrow> bool" where
  "section_ok src sec \<longleftrightarrow> shdr_pos src sec + ELF64_SHDR \<le> length src \<and> table_ok (source_shdr src sec) \<and>
     (sh_type (source_shdr src sec) = SHT_NOBITS \<or>
      unat (sh_offset (source_shdr src sec)) + unat (sh_size (source_shdr src sec)) \<le> length src)"

definition source_ok :: "byte list \<Rightarrow> bool" where
  "source_ok src \<longleftrightarrow> ELF64_EHDR \<le> length src \<and> valid_ident (e_ident (source_ehdr src)) \<and>
     list_all (section_ok src) [0..<section_count src]"

definition table_entries :: "(byte list \<Rightarrow> 'a) \<Rightarrow> nat \<Rightarrow> byte list \<Rightarrow> 'a list" where
  "table_entries dec n bs = map (\<lambda>i. dec (take n (drop (n * i) bs))) [0..<length bs div n]"

definition syms_in :: "Elf64_Shdr \<Rightarrow> byte list \<Rightarrow> Elf64_Sym list" where
  "syms_in h bs = (if sh_type h = SHT_SYMTAB then table_entries sym_of ELF64_SYM bs else [])"

definition relas_in :: "Elf64_Shdr \<Rightarrow> byte list \<Rightarrow> Elf64_Rela list" where
  "relas_in h bs = (if sh_type h = SHT_RELA then table_entries rela_of ELF64_RELA bs
     else if sh_type h = SHT_REL then table_entries rela_of_rel ELF64_REL bs else [])"

definition source_syms :: "byte list \<Rightarrow> nat \<Rightarrow> Elf64_Sym list" where
  "source_syms src sec = syms_in (source_shdr src sec) (section_bytes src sec)"

definition source_relas :: "byte list \<Rightarrow> nat \<Rightarrow> Elf64_Rela list" where
  "source_relas src sec = relas_in (source_shdr src sec) (section_bytes src sec)"

text \<open>The requests to the allocator.\<close>

definition section_requests :: "Elf64_Shdr \<Rightarrow> u64 list" where
  "section_requests h = sh_size h #
     (case entry_width h of None \<Rightarrow> [] | Some n \<Rightarrow> [of_nat (entry_count h) * 24])"

definition header_requests :: "byte list \<Rightarrow> u64 list" where
  "header_requests src = (let n = of_nat (section_count src)
     in [48, of_nat ELF64_EHDR] @ [n * of_nat ELF64_SHDR, n * 8, n * 8, n * 8, n * 8])"

definition read_requests :: "byte list \<Rightarrow> u64 list" where
  "read_requests src = header_requests src @ concat (map (\<lambda>i. section_requests (source_shdr src i)) [0..<section_count src])"

lemmas section_types = SHT_NULL_def SHT_PROGBITS_def SHT_SYMTAB_def SHT_STRTAB_def SHT_RELA_def SHT_NOBITS_def SHT_REL_def

lemma entry_width_cases:
  "sh_type h = SHT_SYMTAB \<Longrightarrow> entry_width h = Some ELF64_SYM"
  "sh_type h = SHT_RELA \<Longrightarrow> entry_width h = Some ELF64_RELA"
  "sh_type h = SHT_REL \<Longrightarrow> entry_width h = Some ELF64_REL"
  "sh_type h \<noteq> SHT_SYMTAB \<Longrightarrow> \<not> is_rel h \<Longrightarrow> entry_width h = None"
  by (auto simp: entry_width_def is_rel_def section_types)

lemma entry_width_bounds: "entry_width h = Some n \<Longrightarrow> 0 < n \<and> n \<le> 24"
  by (auto simp: entry_width_def elf_sizes split: if_splits)

lemma sint_small: "unat w < 2 ^ 31 \<Longrightarrow> sint (w :: 32 word) = int (unat w)"
proof -
  assume "unat w < 2 ^ 31"
  then have "nat (uint w) < 2147483648" by (simp only: unat_eq_nat_uint) simp
  then have "uint w < 2147483648" by linarith
  moreover have "- 2147483648 \<le> uint w" using uint_ge_0 [of w] by linarith
  ultimately have "signed_take_bit 31 (uint w) = uint w" by (intro signed_take_bit_int_eq_self) simp_all
  then show "sint w = int (unat w)" by (simp add: sint_uint)
qed

lemma count_entries_table:
  assumes "table_ok h" "entry_width h = Some n"
  shows "count_entries h = Ret (int (entry_count h))"
proof -
  from assms have e: "sh_entsize h = of_nat n" and c: "unat (sh_size h) div n < 2 ^ 31"
    by (auto simp: table_ok_def)
  have n: "0 < n" "n \<le> 24" using entry_width_bounds [OF assms(2)] by auto
  have un: "unat (of_nat n :: u64) = n" using n by (simp add: unat_of_nat)
  then have nz: "(of_nat n :: u64) \<noteq> 0" using n by force
  have "unat (sh_size h div of_nat n) = unat (sh_size h) div n" by (simp add: unat_div un)
  then have "unat (ucast (sh_size h div of_nat n) :: 32 word) = unat (sh_size h) div n"
    using c by (simp add: unsigned_ucast_eq take_bit_nat_eq_self)
  moreover from this have "sint (ucast (sh_size h div of_nat n) :: 32 word) = int (unat (sh_size h) div n)"
    using c by (simp add: sint_small)
  ultimately show ?thesis using nz by (simp add: count_entries_def e entry_count_def assms(2))
qed

section \<open>Reading a section\<close>

lemma entry_fits: "i < k div n \<Longrightarrow> n * i + n \<le> (k :: nat)"
proof -
  assume "i < k div n"
  then have "n * Suc i \<le> n * (k div n)" by (intro mult_le_mono2) simp
  also have "\<dots> \<le> k" by simp
  finally show ?thesis by simp
qed

lemma read_entries_table:
  assumes "sh_entsize h = of_nat n" "n \<le> 24" "list_all (\<lambda>i. i < unat (sh_size h) div n) is"
  shows "read_entries dec n m seg h is =
    Ret (map (\<lambda>i. dec (take n (drop (n * i) (get_bytes m seg (unat (sh_size h)))))) is)"
  using assms(3)
proof (induction "is")
  case (Cons i "is")
  have "unat (of_nat n :: u64) = n" using assms(2) by (simp add: unat_of_nat)
  moreover have "n * i + n \<le> unat (sh_size h)" using Cons.prems by (intro entry_fits) simp
  ultimately show ?case using Cons get_bytes_part [of "n * i" n "unat (sh_size h)" m seg]
    by (simp add: assms(1))
qed simp

lemma read_entries_all:
  assumes "table_ok h" "entry_width h = Some n"
  shows "read_entries dec n m seg h [0..<nat (int (entry_count h))] =
    Ret (table_entries dec n (get_bytes m seg (unat (sh_size h))))"
  using assms entry_width_bounds [OF assms(2)]
  by (subst read_entries_table) (auto simp: table_ok_def entry_count_def table_entries_def list_all_iff)

lemma read_tables_result:
  assumes "table_ok h" "bs = get_bytes m seg (unat (sh_size h))"
    and "obj_syms obj ! sec = []" "obj_relas obj ! sec = []"
    and "sec < length (obj_syms obj)" "sec < length (obj_relas obj)"
  shows "read_tables alloc sec h seg obj m s =
    Ret (obj\<lparr>obj_syms := (obj_syms obj)[sec := syms_in h bs], obj_relas := (obj_relas obj)[sec := relas_in h bs]\<rparr>,
         m, alloc_arrays alloc (drop 1 (section_requests h)) s)"
proof -
  have same: "(obj_syms obj)[sec := []] = obj_syms obj" "(obj_relas obj)[sec := []] = obj_relas obj"
    using assms(3-6) by (metis list_update_id)+
  have size24: "of_nat ELF64_SYM = (24 :: u64)" "of_nat ELF64_RELA = (24 :: u64)" by (simp_all add: elf_sizes)
  consider (symtab) "sh_type h = SHT_SYMTAB" | (rel) "is_rel h" "sh_type h \<noteq> SHT_SYMTAB" | (other) "sh_type h \<noteq> SHT_SYMTAB" "\<not> is_rel h"
    by blast
  then show ?thesis
  proof cases
    case symtab
    note w = entry_width_cases(1) [OF symtab]
    have r: "relas_in h bs = []" for bs using symtab by (simp add: relas_in_def section_types)
    show ?thesis using symtab
      by (simp add: read_tables_def count_entries_table [OF assms(1) w] read_entries_all [OF assms(1) w, simplified]
          section_requests_def w alloc_arrays_def syms_in_def assms(2) r same size24 split: prod.splits)
  next
    case rel
    have y: "syms_in h bs = []" for bs using rel by (simp add: syms_in_def)
    from rel(1) consider "sh_type h = SHT_RELA" | "sh_type h = SHT_REL" "sh_type h \<noteq> SHT_RELA" 
      by (auto simp: is_rel_def section_types)
    then show ?thesis
    proof cases
      case 1
      note w = entry_width_cases(2) [OF 1]
      show ?thesis using rel 1
        by (simp add: read_tables_def count_entries_table [OF assms(1) w] read_entries_all [OF assms(1) w, simplified]
          section_requests_def w alloc_arrays_def relas_in_def assms(2) y same size24 split: prod.splits)
    next
      case 2
      note w = entry_width_cases(3) [OF 2(1)]
      show ?thesis using rel 2
        by (simp add: read_tables_def count_entries_table [OF assms(1) w] read_entries_all [OF assms(1) w, simplified]
          section_requests_def w alloc_arrays_def relas_in_def assms(2) y same size24 split: prod.splits)
    qed
  next
    case other
    have "syms_in h bs = []" "relas_in h bs = []" using other by (auto simp: syms_in_def relas_in_def is_rel_def)
    then show ?thesis using other
      by (simp add: read_tables_def section_requests_def entry_width_cases(4) same alloc_arrays_def)
  qed
qed

text \<open>The object, the memory and the allocator after \<open>k\<close> sections have been read.\<close>

definition reading ::
  "('s \<Rightarrow> block list) \<Rightarrow> byte list \<Rightarrow> mem \<Rightarrow> block list \<Rightarrow> nat \<Rightarrow> Object \<Rightarrow> mem \<Rightarrow> 's \<Rightarrow> bool" where
  "reading blocks src m0 bs0 k obj m s \<longleftrightarrow>
     ehdr obj = source_ehdr src \<and> length (shdrs obj) = section_count src \<and>
     length (obj_syms obj) = section_count src \<and> length (obj_relas obj) = section_count src \<and>
     addends obj = replicate (section_count src) [] \<and> length (segs obj) = section_count src \<and>
     (\<forall>i < k. shdrs obj ! i = source_shdr src i \<and> obj_syms obj ! i = source_syms src i \<and>
        obj_relas obj ! i = source_relas src i) \<and>
     (\<forall>i < section_count src. k \<le> i \<longrightarrow> obj_syms obj ! i = [] \<and> obj_relas obj ! i = []) \<and>
     (\<forall>i < k. (unat (segs obj ! i), padded (unat (sh_size (source_shdr src i))) 8) \<in> set (blocks s)) \<and>
     (\<forall>i < k. sh_type (source_shdr src i) \<noteq> SHT_NOBITS \<longrightarrow>
        get_bytes m (segs obj ! i) (unat (sh_size (source_shdr src i))) = section_bytes src i) \<and>
     (\<forall>i < k. \<forall>j < i. block_disjoint (segment_block obj i) (segment_block obj j)) \<and>
     (\<forall>i < k. list_all (block_disjoint (segment_block obj i)) bs0) \<and>
     set bs0 \<subseteq> set (blocks s) \<and>
     (\<forall>x. (\<forall>i < k. x \<notin> run_of (segs obj ! i) (unat (sh_size (source_shdr src i)))) \<longrightarrow> m x = m0 x)"

lemma length_section_bytes:
  assumes "section_ok src i" "sh_type (source_shdr src i) \<noteq> SHT_NOBITS"
  shows "length (section_bytes src i) = unat (sh_size (source_shdr src i))"
  using assms by (auto simp: section_ok_def section_bytes_def Let_def)

lemma all_served_append:
  "all_served alloc can (ns @ ks) s \<longleftrightarrow> all_served alloc can ns s \<and> all_served alloc can ks (alloc_arrays alloc ns s)"
  by (induction ns arbitrary: s) (auto simp: alloc_arrays_def)

lemma alloc_arrays_simps [simp]:
  "alloc_arrays alloc [] s = s" "alloc_arrays alloc (n # ns) s = alloc_arrays alloc ns (snd (alloc n s))"
  by (simp_all add: alloc_arrays_def)

lemma alloc_arrays_append: "alloc_arrays alloc (ns @ ks) s = alloc_arrays alloc ks (alloc_arrays alloc ns s)"
  by (simp add: alloc_arrays_def)

lemma padded_8: "n \<le> padded n 8"
  by (rule padded_ge) simp

lemma block_disjoint_shrink:
  "block_disjoint (a, padded n 8) (b, padded k 8) \<Longrightarrow> block_disjoint (a, n) (b, k)"
  using padded_8 [of n] padded_8 [of k] by auto

context user_allocator
begin

lemma alloc_arrays_inv:
  assumes "inv s" "all_served alloc can ns s"
  shows "inv (alloc_arrays alloc ns s) \<and> set (blocks s) \<subseteq> set (blocks (alloc_arrays alloc ns s))"
  using assms
proof (induction ns arbitrary: s)
  case (Cons n ns)
  then have "inv (snd (alloc n s))" by (simp add: alloc_inv)
  with Cons have "inv (alloc_arrays alloc (n # ns) s) \<and>
      set (blocks (snd (alloc n s))) \<subseteq> set (blocks (alloc_arrays alloc (n # ns) s))" by simp
  then show ?case by (auto simp: alloc_blocks)
qed simp

lemma block_fits:
  assumes "inv s" "(unat a, padded n 8) \<in> set (blocks s)"
  shows "run_fits a n"
  using blocks_low [OF assms] padded_8 [of n] by simp

lemma read_section_step:
  assumes rd: "reading blocks src m0 bs0 k obj m s" and k: "k < section_count src" and ok: "section_ok src k"
    and s: "inv s" "all_served alloc can (section_requests (source_shdr src k)) s"
  shows "\<exists>obj' m'. (read_section alloc src k (obj, m, s) :: ('x, _) evaluation) =
      Ret (obj', m', alloc_arrays alloc (section_requests (source_shdr src k)) s) \<and>
    reading blocks src m0 bs0 (Suc k) obj' m' (alloc_arrays alloc (section_requests (source_shdr src k)) s)"
proof -
  let ?h = "source_shdr src k"
  obtain seg s1 where a: "alloc (sh_size ?h) s = (seg, s1)" by fastforce
  let ?s2 = "alloc_arrays alloc (section_requests ?h) s"
  have s2: "?s2 = alloc_arrays alloc (drop 1 (section_requests ?h)) s1"
    by (simp add: section_requests_def a)
  from s have c: "can (sh_size ?h) s" by (simp add: section_requests_def)
  have b1: "(unat seg, padded (unat (sh_size ?h)) 8) \<in> set (blocks ?s2)"
  proof -
    have "inv s1" "all_served alloc can (drop 1 (section_requests ?h)) s1"
      using s alloc_inv [OF s(1) c] a by (simp_all add: section_requests_def)
    from alloc_arrays_inv [OF this] show ?thesis
      using alloc_blocks [of "sh_size ?h" s] a by (auto simp: s2)
  qed
  have inv2: "inv ?s2" and old: "set (blocks s) \<subseteq> set (blocks ?s2)" using alloc_arrays_inv [OF s] by auto
  have fresh: "block_disjoint (unat seg, padded (unat (sh_size ?h)) 8) b" if "b \<in> set (blocks s)" for b
    using fresh [OF s(1) c that] a by simp
  have fits: "run_fits seg (unat (sh_size ?h))" by (rule block_fits [OF inv2 b1])
  define m' where "m' = (if sh_type ?h = SHT_NOBITS then m else upd_bytes m seg (section_bytes src k))"
  define obj' where "obj' = obj\<lparr>shdrs := (shdrs obj)[k := ?h], segs := (segs obj)[k := seg],
      obj_syms := (obj_syms obj)[k := source_syms src k], obj_relas := (obj_relas obj)[k := source_relas src k]\<rparr>"
  have len: "sh_type ?h \<noteq> SHT_NOBITS \<Longrightarrow> length (section_bytes src k) = unat (sh_size ?h)"
    by (rule length_section_bytes [OF ok])
  have got: "get_bytes m' seg (unat (sh_size ?h)) = section_bytes src k" if "sh_type ?h \<noteq> SHT_NOBITS"
    using get_upd_bytes [of "section_bytes src k" m seg] len [OF that] that by (simp add: m'_def)
  have tables: "syms_in ?h (get_bytes m' seg (unat (sh_size ?h))) = source_syms src k \<and>
      relas_in ?h (get_bytes m' seg (unat (sh_size ?h))) = source_relas src k"
    using got by (cases "sh_type ?h = SHT_NOBITS")
      (auto simp: source_syms_def source_relas_def syms_in_def relas_in_def section_types)
  have rdD: "ehdr obj = source_ehdr src" "length (shdrs obj) = section_count src" "length (obj_syms obj) = section_count src"
      "length (obj_relas obj) = section_count src" "length (segs obj) = section_count src"
      "obj_syms obj ! k = []" "obj_relas obj ! k = []"
    using rd k by (simp_all add: reading_def)
  have run: "(read_section alloc src k (obj, m, s) :: ('x, _) evaluation) = Ret (obj', m', ?s2)"
  proof -
    have "table_ok ?h" "shdr_pos src k + ELF64_SHDR \<le> length src" using ok by (auto simp: section_ok_def)
    then show ?thesis
      using ok rdD k a tables
      by (auto simp: read_section_def shdr_pos_def [symmetric] source_shdr_def [symmetric] Let_def
          section_ok_def m'_def section_bytes_def read_tables_result s2 obj'_def)
  qed
  moreover have "reading blocks src m0 bs0 (Suc k) obj' m' ?s2"
  proof -
    let ?len = "\<lambda>i. unat (sh_size (source_shdr src i))"
    have seg': "segs obj' ! i = (if i = k then seg else segs obj ! i)" for i
      using rdD k by (simp add: obj'_def)
    have hdr: "shdrs obj' ! i = source_shdr src i" if "i < Suc k" for i
      using rd rdD k that by (auto simp: obj'_def reading_def nth_list_update less_Suc_eq)
    have block: "segment_block obj' i = (unat (segs obj' ! i), ?len i)" if "i < Suc k" for i
      by (simp add: segment_block_def hdr that)
    have block_old: "segment_block obj i = segment_block obj' i" if "i < k" for i
      using rd that by (simp add: segment_block_def seg' hdr reading_def)
    have old_blocks: "(unat (segs obj ! i), padded (?len i) 8) \<in> set (blocks s)" if "i < k" for i
      using rd that by (simp add: reading_def)
    have apart: "block_disjoint (unat seg, ?len k) (unat (segs obj ! i), ?len i)" if "i < k" for i
      by (rule block_disjoint_shrink [OF fresh [OF old_blocks [OF that]]])
    have keeps: "get_bytes m' (segs obj ! i) (?len i) = get_bytes m (segs obj ! i) (?len i)" if "i < k" for i
      using apart [OF that] block_fits [OF s(1) old_blocks [OF that]] fits len get_upd_other
      by (simp add: m'_def)
    have other: "m' x = m x" if "x \<notin> run_of seg (?len k)" for x
      using that len by (simp add: m'_def upd_bytes_outside)
    have "\<forall>i < Suc k. \<forall>j < i. block_disjoint (segment_block obj' i) (segment_block obj' j)"
    proof (intro allI impI)
      fix i j assume ij: "i < Suc k" "j < i"
      show "block_disjoint (segment_block obj' i) (segment_block obj' j)"
      proof (cases "i = k")
        case True
        then show ?thesis using ij apart by (simp add: block seg')
      next
        case False
        then show ?thesis using ij rd block_old by (simp add: reading_def)
      qed
    qed
    moreover have "\<forall>i < Suc k. list_all (block_disjoint (segment_block obj' i)) bs0"
    proof (intro allI impI)
      fix i assume "i < Suc k"
      have "set bs0 \<subseteq> set (blocks s)" using rd by (simp add: reading_def)
      then have "block_disjoint (unat seg, ?len k) b" if "b \<in> set bs0" for b
        using fresh [of b] that padded_8 [of "?len k"] by (cases b) auto
      then show "list_all (block_disjoint (segment_block obj' i)) bs0"
      proof (cases "i = k")
        case False
        then have "list_all (block_disjoint (segment_block obj i)) bs0" using \<open>i < Suc k\<close> rd by (simp add: reading_def)
        then show ?thesis using False \<open>i < Suc k\<close> block_old [of i] by simp
      qed (simp add: block seg' list_all_iff)
    qed
    moreover have "\<forall>x. (\<forall>i < Suc k. x \<notin> run_of (segs obj' ! i) (?len i)) \<longrightarrow> m' x = m0 x"
    proof (intro allI impI)
      fix x assume x: "\<forall>i < Suc k. x \<notin> run_of (segs obj' ! i) (?len i)"
      then have "x \<notin> run_of seg (?len k)" by (auto dest: spec [of _ k] simp: seg')
      then have "m' x = m x" by (rule other)
      moreover have "\<forall>i < k. x \<notin> run_of (segs obj ! i) (?len i)"
        using x by (metis seg' less_SucI less_irrefl)
      ultimately show "m' x = m0 x" using rd by (simp add: reading_def)
    qed
    moreover have "\<forall>i < Suc k. (unat (segs obj' ! i), padded (?len i) 8) \<in> set (blocks ?s2)"
      using b1 old_blocks old by (auto simp: seg' less_Suc_eq)
    moreover have "\<forall>i < Suc k. sh_type (source_shdr src i) \<noteq> SHT_NOBITS \<longrightarrow>
        get_bytes m' (segs obj' ! i) (?len i) = section_bytes src i"
      using got keeps rd by (auto simp: seg' less_Suc_eq reading_def)
    moreover have "\<forall>i < Suc k. shdrs obj' ! i = source_shdr src i \<and> obj_syms obj' ! i = source_syms src i \<and>
        obj_relas obj' ! i = source_relas src i"
      using rd rdD k by (auto simp: obj'_def reading_def nth_list_update less_Suc_eq)
    moreover have "\<forall>i < section_count src. Suc k \<le> i \<longrightarrow> obj_syms obj' ! i = [] \<and> obj_relas obj' ! i = []"
      using rd by (simp add: obj'_def reading_def)
    moreover have "set bs0 \<subseteq> set (blocks ?s2)" using rd old by (auto simp: reading_def)
    moreover have "ehdr obj' = source_ehdr src \<and> length (shdrs obj') = section_count src \<and>
        length (obj_syms obj') = section_count src \<and> length (obj_relas obj') = section_count src \<and>
        addends obj' = replicate (section_count src) [] \<and> length (segs obj') = section_count src"
      using rd by (simp add: obj'_def reading_def)
    ultimately show ?thesis unfolding reading_def by blast
  qed
  ultimately show ?thesis by blast
qed

lemma read_sections:
  assumes "k \<le> section_count src" "list_all (section_ok src) [0..<k]" "inv s"
    and "all_served alloc can (concat (map (\<lambda>i. section_requests (source_shdr src i)) [0..<k])) s"
    and "reading blocks src m (blocks s) 0 obj m s"
  shows "\<exists>obj' m' s'. (for_each (read_section alloc src) [0..<k] (obj, m, s) :: ('x, _) evaluation) = Ret (obj', m', s') \<and>
    s' = alloc_arrays alloc (concat (map (\<lambda>i. section_requests (source_shdr src i)) [0..<k])) s \<and> inv s' \<and>
    reading blocks src m (blocks s) k obj' m' s'"
  using assms
proof (induction k)
  case (Suc k)
  let ?reqs = "concat (map (\<lambda>i. section_requests (source_shdr src i)) [0..<k])"
  from Suc.prems have "all_served alloc can (?reqs @ section_requests (source_shdr src k)) s" by (simp add: comp_def)
  then have ser: "all_served alloc can ?reqs s"
      "all_served alloc can (section_requests (source_shdr src k)) (alloc_arrays alloc ?reqs s)"
    by (simp_all only: all_served_append)
  from Suc.prems ser(1) have "\<exists>obj' m' s'. (for_each (read_section alloc src) [0..<k] (obj, m, s) :: ('x, _) evaluation) = Ret (obj', m', s') \<and>
    s' = alloc_arrays alloc ?reqs s \<and> inv s' \<and> reading blocks src m (blocks s) k obj' m' s'"
    by (intro Suc.IH) auto
  then obtain obj1 m1 where 1: "(for_each (read_section alloc src) [0..<k] (obj, m, s) :: ('x, _) evaluation) =
      Ret (obj1, m1, alloc_arrays alloc ?reqs s)" and inv1: "inv (alloc_arrays alloc ?reqs s)"
      and r1: "reading blocks src m (blocks s) k obj1 m1 (alloc_arrays alloc ?reqs s)" by blast
  have "section_ok src k" "k < section_count src" using Suc.prems(1,2) by auto
  from read_section_step [OF r1 this(2,1) inv1 ser(2)] obtain obj2 m2 where
    2: "(read_section alloc src k (obj1, m1, alloc_arrays alloc ?reqs s) :: ('x, _) evaluation) =
      Ret (obj2, m2, alloc_arrays alloc (section_requests (source_shdr src k)) (alloc_arrays alloc ?reqs s))"
    and r2: "reading blocks src m (blocks s) (Suc k) obj2 m2
      (alloc_arrays alloc (section_requests (source_shdr src k)) (alloc_arrays alloc ?reqs s))" by blast
  have "inv (alloc_arrays alloc (section_requests (source_shdr src k)) (alloc_arrays alloc ?reqs s))"
    using alloc_arrays_inv [OF inv1 ser(2)] by simp
  then show ?case using 1 2 r2 by (simp only: for_each_upto_Suc) (simp add: alloc_arrays_append)
qed simp

lemma read_object_reads:
  assumes "source_ok src" "inv s" "all_served alloc can (read_requests src) s"
  shows "\<exists>obj m' s'. (read_object alloc src (m, s) :: ('x, _) evaluation) = Ret (obj, m', s') \<and>
    s' = alloc_arrays alloc (read_requests src) s \<and> inv s' \<and>
    reading blocks src m (blocks (alloc_arrays alloc (header_requests src) s)) (section_count src) obj m' s'"
proof -
  let ?hd = "header_requests src" and ?n = "section_count src"
  let ?reqs = "concat (map (\<lambda>i. section_requests (source_shdr src i)) [0..<?n])"
  let ?s1 = "alloc_arrays alloc ?hd s"
  from assms(3) have ser: "all_served alloc can ?hd s" "all_served alloc can ?reqs ?s1"
    by (simp_all only: read_requests_def all_served_append)
  have start: "reading blocks src m (blocks ?s1) 0 (new_object (source_ehdr src)) m ?s1"
    by (simp add: reading_def new_object_def section_count_def Let_def)
  have ok: "list_all (section_ok src) [0..<?n]" and hdr: "ELF64_EHDR \<le> length src" "valid_ident (e_ident (source_ehdr src))"
    using assms(1) by (auto simp: source_ok_def)
  have inv1: "inv ?s1" using alloc_arrays_inv [OF assms(2) ser(1)] by simp
  from read_sections [OF le_refl ok inv1 ser(2) start] obtain obj m' where
    r: "(for_each (read_section alloc src) [0..<?n] (new_object (source_ehdr src), m, ?s1) :: ('x, _) evaluation) =
      Ret (obj, m', alloc_arrays alloc ?reqs ?s1)" "inv (alloc_arrays alloc ?reqs ?s1)"
      "reading blocks src m (blocks ?s1) ?n obj m' (alloc_arrays alloc ?reqs ?s1)" by blast
  have cnt: "(ucast (e_shnum (source_ehdr src)) :: u64) = of_nat ?n" by (simp add: section_count_def)
  have "(read_object alloc src (m, s) :: ('x, _) evaluation) = Ret (obj, m', alloc_arrays alloc ?reqs ?s1)"
    using hdr r(1) by (simp add: read_object_def Let_def flip: source_ehdr_def section_count_def
        add: cnt header_requests_def)
  then show ?thesis using r by (simp add: read_requests_def alloc_arrays_append)
qed

end

section \<open>Loops over the tables of an object\<close>

lemma update_entry_prefix:
  assumes "i < length xss" "k < length (xss ! i)"
  shows "update_entry i k f (xss[i := map f (take k (xss ! i)) @ drop k (xss ! i)]) =
    Ret (xss[i := map f (take (Suc k) (xss ! i)) @ drop (Suc k) (xss ! i)])"
  using assms
  by (simp add: update_entry_def take_Suc_conv_app_nth list_update_append nth_append
      Cons_nth_drop_Suc [symmetric])

lemma for_each_sections:
  fixes step :: "nat \<Rightarrow> Object \<Rightarrow> ('e, Object) outcome"
  assumes step: "\<And>sec ss rs. sec < n \<Longrightarrow> length ss = n \<Longrightarrow> length rs = n \<Longrightarrow>
      ss ! sec = obj_syms obj ! sec \<Longrightarrow> rs ! sec = obj_relas obj ! sec \<Longrightarrow>
      step sec (obj\<lparr>obj_syms := ss, obj_relas := rs\<rparr>) =
        Ret (obj\<lparr>obj_syms := ss[sec := F sec], obj_relas := rs[sec := G sec]\<rparr>)"
    and len: "length (obj_syms obj) = n" "length (obj_relas obj) = n"
  shows "for_each step [0..<n] obj = Ret (obj\<lparr>obj_syms := map F [0..<n], obj_relas := map G [0..<n]\<rparr>)"
proof -
  have "for_each step [0..<k] obj = Ret (obj\<lparr>obj_syms := map F [0..<k] @ drop k (obj_syms obj),
      obj_relas := map G [0..<k] @ drop k (obj_relas obj)\<rparr>)" if "k \<le> n" for k
    using that
  proof (induction k)
    case (Suc k)
    then have k: "k < n" by simp
    note s = step [OF k, of "map F [0..<k] @ drop k (obj_syms obj)" "map G [0..<k] @ drop k (obj_relas obj)"]
    show ?case using Suc k s len
      by (simp only: for_each_upto_Suc) (simp add: nth_append list_update_append Cons_nth_drop_Suc [symmetric])
  qed simp
  from this [of n] show ?thesis using len by simp
qed

section \<open>Addresses\<close>

definition loaded_value :: "addr list \<Rightarrow> Elf64_Sym \<Rightarrow> Elf64_Addr" where
  "loaded_value bases sy = (if st_shndx sy = SHN_ABS then st_value sy
     else if st_shndx sy = SHN_COMMON \<or> st_shndx sy = SHN_UNDEF then 0
     else bases ! unat (st_shndx sy) + st_value sy)"

definition sym_ok :: "nat \<Rightarrow> Elf64_Sym \<Rightarrow> bool" where
  "sym_ok n sy \<longleftrightarrow> st_shndx sy = SHN_ABS \<or> st_shndx sy = SHN_COMMON \<or> unat (st_shndx sy) < n"

definition loaded_sym :: "addr list \<Rightarrow> Elf64_Sym \<Rightarrow> Elf64_Sym" where
  "loaded_sym bases sy = sy\<lparr>st_value := loaded_value bases sy\<rparr>"

definition loaded_rela :: "addr list \<Rightarrow> Elf64_Shdr \<Rightarrow> Elf64_Rela \<Rightarrow> Elf64_Rela" where
  "loaded_rela bases h r = r\<lparr>r_offset := bases ! unat (sh_info h) + r_offset r\<rparr>"

lemma symbol_address_loaded: "sym_ok (length (segs obj)) sy \<Longrightarrow> symbol_address obj sy = Ret (loaded_value (segs obj) sy)"
  by (auto simp: symbol_address_def loaded_value_def sym_ok_def)

lemma symbol_address_segs [simp]: "symbol_address (obj\<lparr>obj_syms := ss\<rparr>) sy = symbol_address obj sy"
  by (simp add: symbol_address_def)

text \<open>The tables of an object belong to sections of their types and have the sizes that the headers say.\<close>

definition tables_ok :: "Object \<Rightarrow> bool" where
  "tables_ok obj \<longleftrightarrow> (let n = unat (e_shnum (ehdr obj))
     in length (shdrs obj) = n \<and> length (obj_syms obj) = n \<and> length (obj_relas obj) = n \<and>
        length (addends obj) = n \<and> length (segs obj) = n \<and>
        (\<forall>sec < n. table_ok (shdrs obj ! sec) \<and>
           length (obj_syms obj ! sec) = (if sh_type (shdrs obj ! sec) = SHT_SYMTAB then entry_count (shdrs obj ! sec) else 0) \<and>
           length (obj_relas obj ! sec) = (if is_rel (shdrs obj ! sec) then entry_count (shdrs obj ! sec) else 0) \<and>
           (is_rel (shdrs obj ! sec) \<longrightarrow> unat (sh_info (shdrs obj ! sec)) < n \<and> unat (sh_link (shdrs obj ! sec)) < n) \<and>
           list_all (sym_ok n) (obj_syms obj ! sec)))"

lemma is_rel_width: "is_rel h \<Longrightarrow> \<exists>n. entry_width h = Some n"
  by (auto simp: is_rel_def entry_width_def)

lemma count_rel: "table_ok h \<Longrightarrow> is_rel h \<Longrightarrow> count_entries h = Ret (int (entry_count h))"
  using is_rel_width count_entries_table by metis

lemma count_symtab: "table_ok h \<Longrightarrow> sh_type h = SHT_SYMTAB \<Longrightarrow> count_entries h = Ret (int (entry_count h))"
  using entry_width_cases(1) count_entries_table by metis

lemma swap_tables: "obj\<lparr>obj_relas := rs, obj_syms := ss\<rparr> = obj\<lparr>obj_syms := ss, obj_relas := rs\<rparr>"
  by simp

lemma address_relas:
  assumes "sec < length (obj_relas obj)" "unat (sh_info (shdrs obj ! sec)) < length (segs obj)"
    "k \<le> length (obj_relas obj ! sec)"
  shows "for_each (address_rela sec) [0..<k] obj = Ret (obj\<lparr>obj_relas := (obj_relas obj)[sec :=
    map (loaded_rela (segs obj) (shdrs obj ! sec)) (take k (obj_relas obj ! sec)) @ drop k (obj_relas obj ! sec)]\<rparr>)"
  using assms(3)
proof (induction k)
  case (Suc k)
  have f: "(\<lambda>r. r\<lparr>r_offset := segs obj ! unat (sh_info (shdrs obj ! sec)) + r_offset r\<rparr>) =
      loaded_rela (segs obj) (shdrs obj ! sec)" by (rule ext) (simp add: loaded_rela_def)
  have "k < length (obj_relas obj ! sec)" using Suc.prems by simp
  with Suc show ?case
    by (simp only: for_each_upto_Suc) (simp add: address_rela_def assms(2) f update_entry_prefix [OF assms(1)])
qed simp

lemma address_symbols:
  assumes "sec < length (obj_syms obj)" "list_all (sym_ok (length (segs obj))) (obj_syms obj ! sec)"
    "k \<le> length (obj_syms obj ! sec)"
  shows "for_each (address_symbol sec) [0..<k] obj = Ret (obj\<lparr>obj_syms := (obj_syms obj)[sec :=
    map (loaded_sym (segs obj)) (take k (obj_syms obj ! sec)) @ drop k (obj_syms obj ! sec)]\<rparr>)"
  using assms(3)
proof (induction k)
  case (Suc k)
  let ?xs = "obj_syms obj ! sec"
  let ?obj = "obj\<lparr>obj_syms := (obj_syms obj)[sec := map (loaded_sym (segs obj)) (take k ?xs) @ drop k ?xs]\<rparr>"
  have k: "k < length ?xs" using Suc.prems by simp
  then have ok: "sym_ok (length (segs obj)) (?xs ! k)" using assms(2) by (simp add: list_all_length)
  have "Suc (length ?xs - Suc 0) = length ?xs" using k by simp
  then have "address_symbol sec k ?obj = Ret (obj\<lparr>obj_syms := (obj_syms obj)[sec :=
      map (loaded_sym (segs obj)) (take (Suc k) ?xs) @ drop (Suc k) ?xs]\<rparr>)"
    using k assms(1) by (simp add: address_symbol_def update_entry_def nth_append loaded_sym_def
        symbol_address_loaded [OF ok]
        take_Suc_conv_app_nth list_update_append Cons_nth_drop_Suc [symmetric])
  with Suc show ?case by (simp only: for_each_upto_Suc) simp
qed simp

lemma offsets_to_addresses_result:
  assumes "tables_ok obj"
  shows "offsets_to_addresses obj = Ret (obj\<lparr>obj_syms := map (map (loaded_sym (segs obj))) (obj_syms obj),
    obj_relas := map (\<lambda>sec. map (loaded_rela (segs obj) (shdrs obj ! sec)) (obj_relas obj ! sec)) [0..<unat (e_shnum (ehdr obj))]\<rparr>)"
proof -
  let ?n = "unat (e_shnum (ehdr obj))"
  have len: "length (obj_syms obj) = ?n" "length (obj_relas obj) = ?n" "length (segs obj) = ?n"
    using assms by (simp_all add: tables_ok_def Let_def)
  have "for_each address_section [0..<?n] obj = Ret (obj\<lparr>obj_syms := map (\<lambda>sec. map (loaded_sym (segs obj)) (obj_syms obj ! sec)) [0..<?n],
      obj_relas := map (\<lambda>sec. map (loaded_rela (segs obj) (shdrs obj ! sec)) (obj_relas obj ! sec)) [0..<?n]\<rparr>)"
  proof (rule for_each_sections [OF _ len(1,2)])
    fix sec ss rs
    assume sec: "sec < ?n" and l: "length ss = ?n" "length rs = ?n" "ss ! sec = obj_syms obj ! sec" "rs ! sec = obj_relas obj ! sec"
    let ?obj = "obj\<lparr>obj_syms := ss, obj_relas := rs\<rparr>" and ?h = "shdrs obj ! sec"
    have ok: "table_ok ?h" "length (obj_syms obj ! sec) = (if sh_type ?h = SHT_SYMTAB then entry_count ?h else 0)"
        "length (obj_relas obj ! sec) = (if is_rel ?h then entry_count ?h else 0)"
        "is_rel ?h \<Longrightarrow> unat (sh_info ?h) < ?n" "list_all (sym_ok ?n) (obj_syms obj ! sec)"
      using assms sec by (simp_all add: tables_ok_def Let_def)
    consider (rel) "is_rel ?h" "sh_type ?h \<noteq> SHT_SYMTAB" | (symtab) "sh_type ?h = SHT_SYMTAB" "\<not> is_rel ?h" | (other) "sh_type ?h \<noteq> SHT_SYMTAB" "\<not> is_rel ?h"
      by (auto simp: is_rel_def section_types)
    then show "address_section sec ?obj = Ret (obj\<lparr>obj_syms := ss[sec := map (loaded_sym (segs obj)) (obj_syms obj ! sec)],
        obj_relas := rs[sec := map (loaded_rela (segs obj) ?h) (obj_relas obj ! sec)]\<rparr>)"
    proof cases
      case rel
      have "obj_syms obj ! sec = []" using ok(2) rel(2) by simp
      then have "ss[sec := []] = ss" using l(3) by (metis list_update_id)
      then show ?thesis using rel ok address_relas [of sec ?obj "entry_count ?h"] l sec len \<open>obj_syms obj ! sec = []\<close>
        by (simp add: address_section_def count_rel Let_def)
    next
      case symtab
      have "obj_relas obj ! sec = []" using ok(3) symtab(2) by simp
      then have "rs[sec := []] = rs" using l(4) by (metis list_update_id)
      then show ?thesis using symtab ok address_symbols [of sec ?obj "entry_count ?h"] l sec len \<open>obj_relas obj ! sec = []\<close>
        by (simp add: address_section_def count_symtab Let_def swap_tables)
    next
      case other
      have "obj_relas obj ! sec = []" "obj_syms obj ! sec = []" using ok(2,3) other by simp_all
      then show ?thesis using other l by (simp add: address_section_def Let_def) (metis list_update_id)
    qed
  qed
  moreover have "map (\<lambda>sec. map (loaded_sym (segs obj)) (obj_syms obj ! sec)) [0..<?n] = map (map (loaded_sym (segs obj))) (obj_syms obj)"
    by (intro nth_equalityI) (simp_all add: len)
  ultimately show ?thesis by (simp add: offsets_to_addresses_def)
qed

section \<open>Relocation as a list of writes\<close>

lemma relocated_width:
  "writes_field ty \<Longrightarrow> \<exists>v n. addend_width ty = Some n \<and> n \<le> 8 \<and> relocated_value ty sy a p = Some (v, n)"
  by (auto simp: writes_field_def addend_width_def relocated_value_def relocation_types split: if_splits)

definition relocation_write :: "Object \<Rightarrow> nat \<Rightarrow> nat \<Rightarrow> (addr \<times> byte list) list" where
  "relocation_write obj sec i = (let r = obj_relas obj ! sec ! i; ty = ELF64_R_TYPE (r_info r)
     in if \<not> writes_field ty then []
        else case rela_symbol obj sec r of None \<Rightarrow> []
          | Some sy \<Rightarrow> (case relocated_value ty sy (addends obj ! sec ! i) (r_offset r) of
              None \<Rightarrow> [] | Some (v, n) \<Rightarrow> [(r_offset r, le_bytes n v)]))"

definition section_writes :: "Object \<Rightarrow> nat \<Rightarrow> (addr \<times> byte list) list" where
  "section_writes obj sec = concat (map (relocation_write obj sec) [0..<length (obj_relas obj ! sec)])"

definition object_writes :: "Object \<Rightarrow> (addr \<times> byte list) list" where
  "object_writes obj = concat (map (section_writes obj) [0..<unat (e_shnum (ehdr obj))])"

text \<open>Every relocation that writes has a symbol, an addend, and a field within a segment.\<close>

definition rela_ok :: "Object \<Rightarrow> nat \<Rightarrow> Elf64_Rela \<Rightarrow> bool" where
  "rela_ok obj sec r \<longleftrightarrow> writes_field (ELF64_R_TYPE (r_info r)) \<longrightarrow>
     rela_symbol obj sec r \<noteq> None \<and> in_segment obj (r_offset r) (the (addend_width (ELF64_R_TYPE (r_info r))))"

definition relocatable :: "Object \<Rightarrow> bool" where
  "relocatable obj \<longleftrightarrow> tables_ok obj \<and> (\<forall>sec < unat (e_shnum (ehdr obj)).
     length (addends obj ! sec) = length (obj_relas obj ! sec) \<and> list_all (rela_ok obj sec) (obj_relas obj ! sec))"

lemma relocate_writes:
  assumes "i < length (obj_relas obj ! sec)" "i < length (addends obj ! sec)" "rela_ok obj sec (obj_relas obj ! sec ! i)"
  shows "relocate obj sec i m = Ret (write_runs (relocation_write obj sec i) m)"
proof (cases "writes_field (ELF64_R_TYPE (r_info (obj_relas obj ! sec ! i)))")
  case True
  let ?r = "obj_relas obj ! sec ! i"
  from True assms(3) obtain sy where sy: "rela_symbol obj sec ?r = Some sy"
      "in_segment obj (r_offset ?r) (the (addend_width (ELF64_R_TYPE (r_info ?r))))"
    by (auto simp: rela_ok_def)
  from relocated_width [OF True] obtain v n where "addend_width (ELF64_R_TYPE (r_info ?r)) = Some n"
      "relocated_value (ELF64_R_TYPE (r_info ?r)) sy (addends obj ! sec ! i) (r_offset ?r) = Some (v, n)" by metis
  with True sy assms(1,2) show ?thesis by (simp add: relocate_def relocation_write_def Let_def)
qed (use assms(1,2) in \<open>simp add: relocate_def relocation_write_def Let_def\<close>)

lemma for_each_writes:
  "(\<And>i m. i \<in> set is \<Longrightarrow> f i m = Ret (write_runs (ws i) m)) \<Longrightarrow>
   for_each f is m = Ret (write_runs (concat (map ws is)) m)"
  by (induction "is" arbitrary: m) auto

lemma relocate_section_writes:
  assumes "relocatable obj" "sec < unat (e_shnum (ehdr obj))"
  shows "relocate_section obj sec m = Ret (write_runs (section_writes obj sec) m)"
proof -
  from assms have ok: "tables_ok obj" "length (addends obj ! sec) = length (obj_relas obj ! sec)"
      "list_all (rela_ok obj sec) (obj_relas obj ! sec)" by (auto simp: relocatable_def)
  then have len: "length (obj_relas obj ! sec) = (if is_rel (shdrs obj ! sec) then entry_count (shdrs obj ! sec) else 0)"
      and tab: "table_ok (shdrs obj ! sec)"
    using assms(2) by (simp_all add: tables_ok_def Let_def)
  have "for_each (relocate obj sec) [0..<length (obj_relas obj ! sec)] m = Ret (write_runs (section_writes obj sec) m)"
    unfolding section_writes_def
    by (rule for_each_writes, rule relocate_writes) (use ok in \<open>auto simp: list_all_length\<close>)
  then show ?thesis using len tab
    by (cases "is_rel (shdrs obj ! sec)") (simp_all add: relocate_section_def count_rel Let_def)
qed

lemma do_relocations_writes:
  assumes "relocatable obj"
  shows "(do_relocations obj m :: ('e, _) outcome) = Ret (write_runs (object_writes obj) m)"
  unfolding do_relocations_def object_writes_def
  by (rule for_each_writes) (use relocate_section_writes [OF assms] in auto)

lemma relocation_write_short: "list_all (\<lambda>w. length (snd w) < 2 ^ 64) (relocation_write obj sec i)"
proof -
  have "n < 2 ^ 64" if "relocated_value ty sy a p = Some (v, n)" for ty sy a p v n
    using that by (auto simp: relocated_value_def split: if_splits)
  then show ?thesis by (auto simp: relocation_write_def Let_def split: option.splits)
qed

lemma object_writes_short: "list_all (\<lambda>w. length (snd w) < 2 ^ 64) (object_writes obj)"
  using relocation_write_short by (fastforce simp: object_writes_def section_writes_def list_all_iff)

text \<open>Where relocation writes depends on the relocations only, not on the symbols.\<close>

definition rela_sites :: "Elf64_Rela list \<Rightarrow> (addr \<times> nat) list" where
  "rela_sites rs = concat (map (\<lambda>r. if writes_field (ELF64_R_TYPE (r_info r))
     then [(r_offset r, the (addend_width (ELF64_R_TYPE (r_info r))))] else []) rs)"

lemma run_sites_concat: "run_sites (concat wss) = concat (map run_sites wss)"
  by (induction wss) (auto simp: run_sites_def)

lemma relocation_write_sites:
  assumes "rela_ok obj sec (obj_relas obj ! sec ! i)"
  shows "run_sites (relocation_write obj sec i) = rela_sites [obj_relas obj ! sec ! i]"
proof (cases "writes_field (ELF64_R_TYPE (r_info (obj_relas obj ! sec ! i)))")
  case True
  let ?r = "obj_relas obj ! sec ! i"
  from True assms obtain sy where sy: "rela_symbol obj sec ?r = Some sy" by (auto simp: rela_ok_def)
  from relocated_width [OF True] obtain v n where "addend_width (ELF64_R_TYPE (r_info ?r)) = Some n"
      "relocated_value (ELF64_R_TYPE (r_info ?r)) sy (addends obj ! sec ! i) (r_offset ?r) = Some (v, n)" by metis
  with True sy show ?thesis by (simp add: relocation_write_def rela_sites_def Let_def)
qed (simp add: relocation_write_def rela_sites_def Let_def)

lemma object_writes_sites:
  assumes "relocatable obj"
  shows "run_sites (object_writes obj) = concat (map (\<lambda>sec. rela_sites (obj_relas obj ! sec)) [0..<unat (e_shnum (ehdr obj))])"
proof -
  have "run_sites (section_writes obj sec) = rela_sites (obj_relas obj ! sec)" if "sec < unat (e_shnum (ehdr obj))" for sec
  proof -
    have ok: "list_all (rela_ok obj sec) (obj_relas obj ! sec)" using assms that by (simp add: relocatable_def)
    have "run_sites (section_writes obj sec) =
        concat (map (\<lambda>i. rela_sites [obj_relas obj ! sec ! i]) [0..<length (obj_relas obj ! sec)])"
      unfolding section_writes_def run_sites_concat map_map comp_def
      using ok by (intro arg_cong [where f = concat] map_cong) (auto simp: relocation_write_sites list_all_length)
    also have "\<dots> = concat (map (\<lambda>r. rela_sites [r]) (map ((!) (obj_relas obj ! sec)) [0..<length (obj_relas obj ! sec)]))"
      by (simp add: comp_def)
    also have "\<dots> = rela_sites (obj_relas obj ! sec)" unfolding map_nth by (simp add: rela_sites_def)
    finally show ?thesis .
  qed
  then show ?thesis
    unfolding object_writes_def run_sites_concat map_map comp_def
    by (intro arg_cong [where f = concat] map_cong) auto
qed

section \<open>Changing bindings\<close>

text \<open>The names of the symbols are C strings in memory; symbol 0 is not looked at.\<close>

definition names_ok :: "mem \<Rightarrow> Object \<Rightarrow> (nat \<Rightarrow> nat \<Rightarrow> string) \<Rightarrow> bool" where
  "names_ok m obj nms \<longleftrightarrow> (\<forall>sec < unat (e_shnum (ehdr obj)). sh_type (shdrs obj ! sec) = SHT_SYMTAB \<longrightarrow>
     unat (sh_link (shdrs obj ! sec)) < length (segs obj) \<and>
     (\<forall>i < length (obj_syms obj ! sec). 0 < i \<longrightarrow>
        cstr m (segs obj ! unat (sh_link (shdrs obj ! sec)) + ucast (st_name (obj_syms obj ! sec ! i))) (nms sec i)))"

text \<open>An update is a name and an address.\<close>

definition updates_ok :: "mem \<Rightarrow> binding list \<Rightarrow> (string \<times> addr) list \<Rightarrow> bool" where
  "updates_ok m us ups \<longleftrightarrow> list_all2 (\<lambda>u (s, a). cstr m (bndg_name u) s \<and> bndg_address u = a) us ups"

definition rebind :: "string \<times> addr \<Rightarrow> string \<Rightarrow> Elf64_Sym \<Rightarrow> Elf64_Sym" where
  "rebind up nm sy = (if nm = fst up \<and> is_open sy \<and> is_visible sy then sy\<lparr>st_value := snd up\<rparr> else sy)"

definition rebind_table :: "string \<times> addr \<Rightarrow> (nat \<Rightarrow> string) \<Rightarrow> Elf64_Sym list \<Rightarrow> Elf64_Sym list" where
  "rebind_table up nm xs = map (\<lambda>i. if 0 < i then rebind up (nm i) (xs ! i) else xs ! i) [0..<length xs]"

definition rebind_object :: "(nat \<Rightarrow> nat \<Rightarrow> string) \<Rightarrow> string \<times> addr \<Rightarrow> Object \<Rightarrow> Object" where
  "rebind_object nms up obj = obj\<lparr>obj_syms := map (\<lambda>sec. rebind_table up (nms sec) (obj_syms obj ! sec))
     [0..<length (obj_syms obj)]\<rparr>"

lemma rebind_fields [simp]:
  "st_name (rebind up nm sy) = st_name sy" "st_shndx (rebind up nm sy) = st_shndx sy"
  "st_info (rebind up nm sy) = st_info sy" "st_size (rebind up nm sy) = st_size sy"
  "is_open (rebind up nm sy) = is_open sy" "is_visible (rebind up nm sy) = is_visible sy"
  by (simp_all add: rebind_def is_open_def is_visible_def)

lemma length_rebind_table [simp]: "length (rebind_table up nm xs) = length xs"
  by (simp add: rebind_table_def)

lemma nth_rebind_table [simp]:
  "i < length xs \<Longrightarrow> rebind_table up nm xs ! i = (if 0 < i then rebind up (nm i) (xs ! i) else xs ! i)"
  by (cases "i = 0") (simp_all add: rebind_table_def)

lemma rebind_object_fields [simp]:
  "ehdr (rebind_object nms up obj) = ehdr obj" "shdrs (rebind_object nms up obj) = shdrs obj"
  "obj_relas (rebind_object nms up obj) = obj_relas obj" "addends (rebind_object nms up obj) = addends obj"
  "segs (rebind_object nms up obj) = segs obj" "length (obj_syms (rebind_object nms up obj)) = length (obj_syms obj)"
  by (simp_all add: rebind_object_def)

lemma nth_rebind_object [simp]:
  "sec < length (obj_syms obj) \<Longrightarrow>
   obj_syms (rebind_object nms up obj) ! sec = rebind_table up (nms sec) (obj_syms obj ! sec)"
  by (simp add: rebind_object_def)

lemma tables_ok_rebind: "tables_ok obj \<Longrightarrow> tables_ok (rebind_object nms up obj)"
  by (auto simp: tables_ok_def Let_def list_all_length sym_ok_def)

lemma relocatable_rebind:
  assumes "relocatable obj"
  shows "relocatable (rebind_object nms up obj)"
proof -
  have "length (obj_syms obj) = unat (e_shnum (ehdr obj))" using assms by (simp add: relocatable_def tables_ok_def Let_def)
  have "rela_ok (rebind_object nms up obj) sec = rela_ok obj sec" for sec
    by (rule ext) (auto simp: rela_ok_def rela_symbol_def Let_def in_segment_def segment_block_def)
  then show ?thesis using assms by (simp add: relocatable_def tables_ok_rebind)
qed

lemma names_ok_rebind: "tables_ok obj \<Longrightarrow> names_ok m obj nms \<Longrightarrow> names_ok m (rebind_object nms' up obj) nms"
  by (auto simp: names_ok_def tables_ok_def Let_def)

lemma mutate_symbols:
  assumes u: "cstr m (bndg_name u) s"
    and names: "\<And>i. i < length (obj_syms obj ! sec) \<Longrightarrow> 0 < i \<Longrightarrow>
      cstr m (segs obj ! unat (sh_link (shdrs obj ! sec)) + ucast (st_name (obj_syms obj ! sec ! i))) (nm i)"
    and link: "unat (sh_link (shdrs obj ! sec)) < length (segs obj)" and sec: "sec < length (obj_syms obj)"
  shows "(for_each (mutate_symbol m u sec) [1..<length (obj_syms obj ! sec)] obj :: ('e, _) outcome) =
    Ret (obj\<lparr>obj_syms := (obj_syms obj)[sec := rebind_table (s, bndg_address u) nm (obj_syms obj ! sec)]\<rparr>)"
proof -
  let ?xs = "obj_syms obj ! sec" and ?up = "(s, bndg_address u)"
  let ?ys = "\<lambda>k. map (\<lambda>i. if 0 < i \<and> i < k then rebind ?up (nm i) (?xs ! i) else ?xs ! i) [0..<length ?xs]"
  have "(for_each (mutate_symbol m u sec) [1..<k] obj :: ('e, _) outcome) = Ret (obj\<lparr>obj_syms := (obj_syms obj)[sec := ?ys k]\<rparr>)"
    if "k \<le> length ?xs" for k
    using that
  proof (induction k)
    case 0
    have "?ys 0 = ?xs" by (intro nth_equalityI) auto
    then show ?case by simp
  next
    case (Suc k)
    show ?case
    proof (cases "k = 0")
      case True
      have "?ys 1 = ?xs" by (intro nth_equalityI) auto
      then show ?thesis using True by simp
    next
      case False
      let ?obj = "obj\<lparr>obj_syms := (obj_syms obj)[sec := ?ys k]\<rparr>"
      have k: "k < length ?xs" using Suc.prems by simp
      obtain d where d: "strcmp m (segs obj ! unat (sh_link (shdrs obj ! sec)) + ucast (st_name (?xs ! k))) (bndg_name u) = Some d"
          "d = 0 \<longleftrightarrow> nm k = s"
        using strcmp_cstr [OF names [OF k] u] False by auto
      have new: "(?ys k)[k := rebind ?up (nm k) (?xs ! k)] = ?ys (Suc k)"
        using k False by (intro nth_equalityI) (auto simp: nth_list_update)
      have at: "?ys k ! k = ?xs ! k" using k by simp
      have keep: "(?ys k)[k := ?xs ! k] = ?ys k" using list_update_id [of "?ys k" k] unfolding at .
      have "mutate_symbol m u sec k (obj\<lparr>obj_syms := (obj_syms obj)[sec := ys]\<rparr>) =
          Ret (obj\<lparr>obj_syms := (obj_syms obj)[sec := ys[k := rebind ?up (nm k) (?xs ! k)]]\<rparr>)"
        if ys: "length ys = length ?xs" "ys ! k = ?xs ! k" "ys[k := ?xs ! k] = ys" for ys
      proof (cases "d = 0 \<and> is_open (?xs ! k) \<and> is_visible (?xs ! k)")
        case True
        then show ?thesis using d(2) by (simp add: mutate_symbol_def name_of_def update_entry_def Let_def rebind_def link sec k d(1) ys)
      next
        case False
        then have "rebind ?up (nm k) (?xs ! k) = ?xs ! k" using d(2) by (auto simp: rebind_def)
        with False show ?thesis by (auto simp add: mutate_symbol_def name_of_def Let_def link sec k d(1) ys)
      qed
      from this [of "?ys k"] have "mutate_symbol m u sec k ?obj =
          Ret (obj\<lparr>obj_syms := (obj_syms obj)[sec := (?ys k)[k := rebind ?up (nm k) (?xs ! k)]]\<rparr>)"
        using at keep by simp
      then show ?thesis unfolding new
        using Suc.IH False k by (subst upt_Suc) (simp add: for_each_append del: upt_Suc)
    qed
  qed
  from this [of "length ?xs"] have "(for_each (mutate_symbol m u sec) [1..<length ?xs] obj :: ('e, _) outcome) =
      Ret (obj\<lparr>obj_syms := (obj_syms obj)[sec := ?ys (length ?xs)]\<rparr>)" by simp
  moreover have "?ys (length ?xs) = rebind_table ?up nm ?xs" unfolding rebind_table_def by (intro map_cong) auto
  ultimately show ?thesis by simp
qed


lemma mutate_sections:
  assumes "tables_ok obj" "names_ok m obj nms" "cstr m (bndg_name u) s"
  shows "for_each (mutate_section m u) [0..<unat (e_shnum (ehdr obj))] obj =
    Ret (rebind_object nms (s, bndg_address u) obj)"
proof -
  let ?n = "unat (e_shnum (ehdr obj))" and ?up = "(s, bndg_address u)"
  have len: "length (obj_syms obj) = ?n" "length (obj_relas obj) = ?n" using assms(1) by (simp_all add: tables_ok_def Let_def)
  have "for_each (mutate_section m u) [0..<?n] obj = Ret (obj\<lparr>obj_syms := map (\<lambda>sec. rebind_table ?up (nms sec) (obj_syms obj ! sec)) [0..<?n],
      obj_relas := map (\<lambda>sec. obj_relas obj ! sec) [0..<?n]\<rparr>)"
  proof (rule for_each_sections [OF _ len])
    fix sec ss rs
    assume sec: "sec < ?n" and l: "length ss = ?n" "length rs = ?n" "ss ! sec = obj_syms obj ! sec" "rs ! sec = obj_relas obj ! sec"
    let ?h = "shdrs obj ! sec"
    have rs: "rs[sec := obj_relas obj ! sec] = rs" using l(4) by (metis list_update_id)
    have ok: "table_ok ?h" "length (obj_syms obj ! sec) = (if sh_type ?h = SHT_SYMTAB then entry_count ?h else 0)"
      using assms(1) sec by (simp_all add: tables_ok_def Let_def)
    show "mutate_section m u sec (obj\<lparr>obj_syms := ss, obj_relas := rs\<rparr>) = Ret (obj\<lparr>obj_syms :=
        ss[sec := rebind_table ?up (nms sec) (obj_syms obj ! sec)], obj_relas := rs[sec := obj_relas obj ! sec]\<rparr>)"
    proof (cases "sh_type ?h = SHT_SYMTAB")
      case True
      have "unat (sh_link ?h) < length (segs obj)" "\<And>i. i < length (obj_syms obj ! sec) \<Longrightarrow> 0 < i \<Longrightarrow>
          cstr m (segs obj ! unat (sh_link ?h) + ucast (st_name (obj_syms obj ! sec ! i))) (nms sec i)"
        using assms(2) sec True by (simp_all add: names_ok_def)
      then show ?thesis
        using mutate_symbols [OF assms(3), of "obj\<lparr>obj_syms := ss, obj_relas := rs\<rparr>" sec "nms sec"] ok True l sec
        by (simp add: mutate_section_def count_symtab rs swap_tables)
    next
      case False
      then have e: "obj_syms obj ! sec = []" using ok by simp
      then have "ss[sec := []] = ss" using l(3) by (metis list_update_id)
      then show ?thesis using False by (simp add: mutate_section_def rs e rebind_table_def)
    qed
  qed
  moreover have "map (\<lambda>sec. obj_relas obj ! sec) [0..<?n] = obj_relas obj" using map_nth [of "obj_relas obj"] len by simp
  ultimately show ?thesis by (simp add: rebind_object_def len)
qed

lemma mutate_updates:
  assumes "tables_ok obj" "names_ok m obj nms" "updates_ok m us ups"
  shows "for_each (\<lambda>u obj. for_each (mutate_section m u) [0..<unat (e_shnum (ehdr obj))] obj) us obj =
    Ret (fold (rebind_object nms) ups obj)"
  using assms(3,1,2) unfolding updates_ok_def
proof (induction arbitrary: obj rule: list_all2_induct)
  case (Cons u us up ups)
  obtain s a where up: "up = (s, a)" by (cases up)
  with Cons(1) have u: "cstr m (bndg_name u) s" "bndg_address u = a" by auto
  show ?case
    using Cons.IH [of "rebind_object nms up obj"] tables_ok_rebind [OF Cons.prems(1)] names_ok_rebind [OF Cons.prems]
    by (simp add: mutate_sections [OF Cons.prems u(1)] u(2) up)
qed simp

lemma rebind_objects_keep:
  "relocatable obj \<Longrightarrow> relocatable (fold (rebind_object nms) ups obj) \<and>
   obj_relas (fold (rebind_object nms) ups obj) = obj_relas obj \<and> ehdr (fold (rebind_object nms) ups obj) = ehdr obj"
proof (induction ups arbitrary: obj)
  case (Cons up ups)
  from Cons.IH [OF relocatable_rebind [OF Cons.prems]] show ?case by simp
qed simp

text \<open>The last update with the name of an open symbol gives it its value.\<close>

lemma fold_rebind:
  "fold (\<lambda>up sy. rebind up nm sy) ups sy =
     (case find (\<lambda>up. fst up = nm) (rev ups) of
        Some up \<Rightarrow> if is_open sy \<and> is_visible sy then sy\<lparr>st_value := snd up\<rparr> else sy
      | None \<Rightarrow> sy)"
proof (induction ups rule: rev_induct)
  case (snoc up ups)
  then show ?case by (auto simp: rebind_def is_open_def is_visible_def split: option.splits)
qed simp

lemma fold_rebind_object:
  assumes "sec < length (obj_syms obj)" "0 < i" "i < length (obj_syms obj ! sec)"
  shows "obj_syms (fold (rebind_object nms) ups obj) ! sec ! i = fold (\<lambda>up sy. rebind up (nms sec i) sy) ups (obj_syms obj ! sec ! i)"
  using assms by (induction ups arbitrary: obj) auto

end
