(* ===== verification/Loading.thy ===== *)
theory Loading
  imports Objects_Correct
begin

text \<open>
  The whole of \<open>load\<close>: what it makes of a file whose tables refer to sections, symbols and fields
  that exist, and what later changes of bindings do to it. Ends with the properties of the loader.
\<close>

section \<open>Addends\<close>

definition stored_addend :: "Object \<Rightarrow> mem \<Rightarrow> nat \<Rightarrow> Elf64_Rela \<Rightarrow> Elf64_Sxword" where
  "stored_addend obj m sec r = (if sh_type (shdrs obj ! sec) = SHT_RELA then r_addend r
     else of_le (get_bytes m (r_offset r) (the (addend_width (ELF64_R_TYPE (r_info r))))))"

definition addend_ready :: "Object \<Rightarrow> nat \<Rightarrow> Elf64_Rela \<Rightarrow> bool" where
  "addend_ready obj sec r \<longleftrightarrow> sh_type (shdrs obj ! sec) = SHT_RELA \<or>
     (case addend_width (ELF64_R_TYPE (r_info r)) of None \<Rightarrow> False | Some n \<Rightarrow> in_segment obj (r_offset r) n)"

lemma addends_of_all:
  assumes "list_all (\<lambda>r. f r = Ret (g r)) rs" "\<forall>i \<in> set is. i < length rs"
  shows "addends_of f rs is = Ret (map (\<lambda>i. g (rs ! i)) is)"
  using assms(2) by (induction "is") (use assms(1) in \<open>auto simp: list_all_length\<close>)

lemma addends_of_table: "list_all (\<lambda>r. f r = Ret (g r)) rs \<Longrightarrow> addends_of f rs [0..<length rs] = Ret (map g rs)"
  by (subst addends_of_all [where g = g]) (auto intro!: nth_equalityI)

definition store_requests :: "Object \<Rightarrow> nat list \<Rightarrow> u64 list" where
  "store_requests obj secs = concat (map (\<lambda>sec. if is_rel (shdrs obj ! sec)
     then [of_nat (entry_count (shdrs obj ! sec)) * 8] else []) secs)"

lemma in_segment_addends [simp]: "in_segment (obj\<lparr>addends := as\<rparr>) a n = in_segment obj a n"
  by (simp add: in_segment_def segment_block_def)

lemma store_section_result:
  assumes "tables_ok obj" "sec < unat (e_shnum (ehdr obj))" "list_all (addend_ready obj sec) (obj_relas obj ! sec)"
    and "length as = length (addends obj)" "as ! sec = addends obj ! sec" "addends obj ! sec = []"
  shows "(store_section alloc m sec (obj\<lparr>addends := as\<rparr>, s) :: ('x, _) evaluation) =
    Ret (obj\<lparr>addends := as[sec := map (stored_addend obj m sec) (obj_relas obj ! sec)]\<rparr>,
         alloc_arrays alloc (store_requests obj [sec]) s)"
proof (cases "is_rel (shdrs obj ! sec)")
  case True
  let ?h = "shdrs obj ! sec"
  have ok: "table_ok ?h" "length (obj_relas obj ! sec) = entry_count ?h"
    using assms(1,2) True by (simp_all add: tables_ok_def Let_def)
  have ty: "sh_type ?h = SHT_RELA \<or> sh_type ?h = SHT_REL \<and> sh_type ?h \<noteq> SHT_RELA"
    using True by (auto simp: is_rel_def)
  have "list_all (\<lambda>r. (if sh_type ?h = SHT_RELA then (\<lambda>r. Ret (r_addend r)) else rel_addend (obj\<lparr>addends := as\<rparr>) m) r =
      (Ret (stored_addend obj m sec r) :: ('x, _) evaluation)) (obj_relas obj ! sec)"
    using assms(3) ty by (auto simp: list_all_iff addend_ready_def rel_addend_def stored_addend_def split: option.splits)
  from addends_of_table [OF this] show ?thesis using True ok
    by (simp add: store_section_def count_rel store_requests_def split: prod.splits if_splits)
next
  case False
  then have "length (obj_relas obj ! sec) = 0" using assms(1,2) by (simp add: tables_ok_def Let_def del: length_0_conv)
  then have e: "obj_relas obj ! sec = []" by simp
  have "as[sec := []] = as" using assms(5,6) by (metis list_update_id)
  then show ?thesis using False by (simp add: store_section_def store_requests_def e)
qed

lemma store_addends_result:
  assumes "tables_ok obj" "\<forall>sec < unat (e_shnum (ehdr obj)). list_all (addend_ready obj sec) (obj_relas obj ! sec)"
    and "addends obj = replicate (unat (e_shnum (ehdr obj))) []"
  shows "(store_addends alloc m (obj, s) :: ('x, _) evaluation) =
    Ret (obj\<lparr>addends := map (\<lambda>sec. map (stored_addend obj m sec) (obj_relas obj ! sec)) [0..<unat (e_shnum (ehdr obj))]\<rparr>,
         alloc_arrays alloc (store_requests obj [0..<unat (e_shnum (ehdr obj))]) s)"
proof -
  let ?n = "unat (e_shnum (ehdr obj))" and ?f = "\<lambda>sec. map (stored_addend obj m sec) (obj_relas obj ! sec)"
  have "(for_each (store_section alloc m) [0..<k] (obj, s) :: ('x, _) evaluation) =
      Ret (obj\<lparr>addends := map ?f [0..<k] @ drop k (addends obj)\<rparr>, alloc_arrays alloc (store_requests obj [0..<k]) s)"
    if "k \<le> ?n" for k
    using that
  proof (induction k)
    case 0
    show ?case by (simp add: store_requests_def)
  next
    case (Suc k)
    then have k: "k < ?n" by simp
    let ?as = "map ?f [0..<k] @ drop k (addends obj)"
    have as: "length ?as = length (addends obj)" "?as ! k = addends obj ! k" "addends obj ! k = []"
      using k assms(3) by (simp_all add: nth_append)
    note step = store_section_result [OF assms(1) k assms(2) [rule_format, OF k] as]
    have "?as[k := ?f k] = map ?f [0..<Suc k] @ drop (Suc k) (addends obj)"
    proof -
      have "k < length (addends obj)" using k assms(3) by simp
      then have "drop k (addends obj) = addends obj ! k # drop (Suc k) (addends obj)" by (simp add: Cons_nth_drop_Suc)
      then show ?thesis by (simp add: list_update_append)
    qed
    moreover have "store_requests obj [0..<Suc k] = store_requests obj [0..<k] @ store_requests obj [k]"
      by (simp add: store_requests_def)
    ultimately show ?case using Suc k
      by (simp only: for_each_upto_Suc) (simp add: step alloc_arrays_append del: upt_Suc)
  qed
  from this [of ?n] show ?thesis by (simp add: store_addends_def assms(3))
qed

section \<open>Files that load\<close>

text \<open>
  The sections that a table of relocations refers to exist; each relocation has a type that is
  handled, a symbol of the table that it is linked to, and a field within its section.
\<close>

definition link_ok :: "byte list \<Rightarrow> Elf64_Shdr \<Rightarrow> Elf64_Rela \<Rightarrow> bool" where
  "link_ok src h r \<longleftrightarrow> (case addend_width (ELF64_R_TYPE (r_info r)) of
      None \<Rightarrow> sh_type h = SHT_RELA
    | Some k \<Rightarrow> unat (ELF64_R_SYM (r_info r)) < length (source_syms src (unat (sh_link h))) \<and>
        unat (r_offset r) + k \<le> unat (sh_size (source_shdr src (unat (sh_info h)))))"

definition links_ok :: "byte list \<Rightarrow> nat \<Rightarrow> bool" where
  "links_ok src sec \<longleftrightarrow> (let h = source_shdr src sec; n = section_count src
     in list_all (sym_ok n) (source_syms src sec) \<and>
        (is_rel h \<longrightarrow> unat (sh_info h) < n \<and> unat (sh_link h) < n \<and>
           list_all (link_ok src h) (source_relas src sec)))"

definition loadable :: "byte list \<Rightarrow> bool" where
  "loadable src \<longleftrightarrow> source_ok src \<and> list_all (links_ok src) [0..<section_count src]"

definition plain_object :: "byte list \<Rightarrow> addr list \<Rightarrow> Object" where
  "plain_object src bases = (let n = section_count src
     in \<lparr>ehdr = source_ehdr src, shdrs = map (source_shdr src) [0..<n], obj_syms = map (source_syms src) [0..<n],
         obj_relas = map (source_relas src) [0..<n], addends = replicate n [], segs = bases\<rparr>)"

definition addressed_object :: "byte list \<Rightarrow> addr list \<Rightarrow> Object" where
  "addressed_object src bases = (let n = section_count src
     in (plain_object src bases)\<lparr>obj_syms := map (\<lambda>sec. map (loaded_sym bases) (source_syms src sec)) [0..<n],
          obj_relas := map (\<lambda>sec. map (loaded_rela bases (source_shdr src sec)) (source_relas src sec)) [0..<n]\<rparr>)"

definition loaded_object :: "byte list \<Rightarrow> addr list \<Rightarrow> mem \<Rightarrow> Object" where
  "loaded_object src bases m = (let obj = addressed_object src bases
     in obj\<lparr>addends := map (\<lambda>sec. map (stored_addend obj m sec) (obj_relas obj ! sec)) [0..<section_count src]\<rparr>)"

lemma object_fields [simp]:
  "ehdr (plain_object src bases) = source_ehdr src" "ehdr (addressed_object src bases) = source_ehdr src"
  "ehdr (loaded_object src bases m) = source_ehdr src"
  "segs (plain_object src bases) = bases" "segs (addressed_object src bases) = bases"
  "segs (loaded_object src bases m) = bases"
  "shdrs (plain_object src bases) = map (source_shdr src) [0..<section_count src]"
  "shdrs (addressed_object src bases) = map (source_shdr src) [0..<section_count src]"
  "shdrs (loaded_object src bases m) = map (source_shdr src) [0..<section_count src]"
  "obj_syms (plain_object src bases) = map (source_syms src) [0..<section_count src]"
  "obj_relas (plain_object src bases) = map (source_relas src) [0..<section_count src]"
  "addends (plain_object src bases) = replicate (section_count src) []"
  "addends (addressed_object src bases) = replicate (section_count src) []"
  "obj_syms (addressed_object src bases) = map (\<lambda>sec. map (loaded_sym bases) (source_syms src sec)) [0..<section_count src]"
  "obj_relas (addressed_object src bases) = map (\<lambda>sec. map (loaded_rela bases (source_shdr src sec)) (source_relas src sec)) [0..<section_count src]"
  "obj_syms (loaded_object src bases m) = obj_syms (addressed_object src bases)"
  "obj_relas (loaded_object src bases m) = obj_relas (addressed_object src bases)"
  by (simp_all add: plain_object_def addressed_object_def loaded_object_def Let_def)

lemma reading_plain:
  assumes "reading blocks src m0 bs0 (section_count src) obj m s"
  shows "obj = plain_object src (segs obj)"
proof -
  let ?n = "section_count src"
  have "shdrs obj = map (source_shdr src) [0..<?n]" "obj_syms obj = map (source_syms src) [0..<?n]"
      "obj_relas obj = map (source_relas src) [0..<?n]"
    using assms by (auto simp: reading_def intro!: nth_equalityI)
  then show ?thesis using assms by (simp add: plain_object_def reading_def Let_def)
qed

lemma length_table_entries [simp]: "length (table_entries dec n bs) = length bs div n"
  by (simp add: table_entries_def)

lemma source_tables_length:
  assumes "section_ok src sec"
  shows "length (source_syms src sec) = (if sh_type (source_shdr src sec) = SHT_SYMTAB then entry_count (source_shdr src sec) else 0)"
    and "length (source_relas src sec) = (if is_rel (source_shdr src sec) then entry_count (source_shdr src sec) else 0)"
proof -
  let ?h = "source_shdr src sec"
  have len: "sh_type ?h = SHT_SYMTAB \<or> is_rel ?h \<Longrightarrow> length (section_bytes src sec) = unat (sh_size ?h)"
    using length_section_bytes [OF assms] by (auto simp: is_rel_def section_types)
  show "length (source_syms src sec) = (if sh_type ?h = SHT_SYMTAB then entry_count ?h else 0)"
    using len by (simp add: source_syms_def syms_in_def entry_count_def entry_width_cases)
  show "length (source_relas src sec) = (if is_rel ?h then entry_count ?h else 0)"
  proof (cases "sh_type ?h = SHT_RELA")
    case True
    then show ?thesis using len by (simp add: source_relas_def relas_in_def entry_count_def entry_width_cases is_rel_def)
  next
    case False
    then show ?thesis using len by (simp add: source_relas_def relas_in_def entry_count_def entry_width_cases is_rel_def)
  qed
qed

lemma sym_ok_loaded [simp]: "sym_ok n (loaded_sym bases sy) = sym_ok n sy"
  by (simp add: sym_ok_def loaded_sym_def)

lemma loaded_tables_ok:
  assumes "loadable src" "length bases = section_count src"
  shows "tables_ok (plain_object src bases)" "tables_ok (addressed_object src bases)" "tables_ok (loaded_object src bases m)"
proof -
  have *: "section_ok src sec" "links_ok src sec" if "sec < section_count src" for sec
    using assms(1) that by (auto simp: loadable_def source_ok_def list_all_iff)
  have n: "unat (e_shnum (source_ehdr src)) = section_count src" by (simp add: section_count_def)
  have common: "table_ok (source_shdr src sec)" "list_all (sym_ok (section_count src)) (source_syms src sec)"
    "is_rel (source_shdr src sec) \<Longrightarrow> unat (sh_info (source_shdr src sec)) < section_count src \<and>
        unat (sh_link (source_shdr src sec)) < section_count src" if "sec < section_count src" for sec
    using * [OF that] by (auto simp: section_ok_def links_ok_def Let_def)
  show "tables_ok (plain_object src bases)"
    using common source_tables_length [OF *(1)] assms(2) by (simp add: tables_ok_def n)
  show "tables_ok (addressed_object src bases)"
    using common source_tables_length [OF *(1)] assms(2) by (simp add: tables_ok_def n list_all_length)
  show "tables_ok (loaded_object src bases m)"
    using common source_tables_length [OF *(1)] assms(2) by (simp add: tables_ok_def n list_all_length loaded_object_def Let_def)
qed

lemma addressed:
  assumes "loadable src" "length bases = section_count src"
  shows "offsets_to_addresses (plain_object src bases) = Ret (addressed_object src bases)"
proof -
  have n: "unat (e_shnum (source_ehdr src)) = section_count src" by (simp add: section_count_def)
  show ?thesis unfolding offsets_to_addresses_result [OF loaded_tables_ok(1) [OF assms]]
    by (simp add: addressed_object_def n comp_def Let_def cong: map_cong)
qed


text \<open>Segments that do not wrap around.\<close>

definition bases_ok :: "byte list \<Rightarrow> addr list \<Rightarrow> bool" where
  "bases_ok src bases \<longleftrightarrow> length bases = section_count src \<and>
     (\<forall>sec < section_count src. unat (bases ! sec) + unat (sh_size (source_shdr src sec)) \<le> 2 ^ 47)"

lemma in_segment_place:
  assumes "bases_ok src bases" "sec < section_count src" "unat (x :: addr) + k \<le> unat (sh_size (source_shdr src sec))"
  shows "block_within (unat (bases ! sec + x), k) (unat (bases ! sec), unat (sh_size (source_shdr src sec)))"
    and "unat (bases ! sec + x) = unat (bases ! sec) + unat x"
proof -
  have "unat (bases ! sec) + unat (sh_size (source_shdr src sec)) \<le> 2 ^ 47" using assms(1,2) by (simp add: bases_ok_def)
  then show *: "unat (bases ! sec + x) = unat (bases ! sec) + unat x"
    using assms(3) by (intro unat_add_small) simp
  show "block_within (unat (bases ! sec + x), k) (unat (bases ! sec), unat (sh_size (source_shdr src sec)))"
    using assms(3) by (simp add: *)
qed

lemma in_segmentI:
  assumes "bases_ok src bases" "sec < section_count src" "unat (x :: addr) + k \<le> unat (sh_size (source_shdr src sec))"
    and "segs obj = bases" "shdrs obj = map (source_shdr src) [0..<section_count src]"
  shows "in_segment obj (bases ! sec + x) k"
  using in_segment_place(1) [OF assms(1-3)] assms
  by (auto simp: in_segment_def segment_block_def list_ex_iff bases_ok_def)

lemma link_ready:
  assumes "loadable src" "bases_ok src bases" "sec < section_count src" "r \<in> set (source_relas src sec)"
  shows "addend_ready (addressed_object src bases) sec (loaded_rela bases (source_shdr src sec) r)"
    and "rela_ok (loaded_object src bases m) sec (loaded_rela bases (source_shdr src sec) r)"
proof -
  let ?h = "source_shdr src sec"
  have sec: "section_ok src sec" "links_ok src sec"
    using assms(1,3) by (auto simp: loadable_def source_ok_def list_all_iff)
  have "is_rel ?h"
  proof (rule ccontr)
    assume "\<not> is_rel ?h"
    then have "length (source_relas src sec) = 0" using source_tables_length(2) [OF sec(1)] by (simp del: length_0_conv)
    then show False using assms(4) by simp
  qed
  then have info: "unat (sh_info ?h) < section_count src" "unat (sh_link ?h) < section_count src" "link_ok src ?h r"
    using sec(2) assms(4) by (auto simp: links_ok_def list_all_iff Let_def)
  show "addend_ready (addressed_object src bases) sec (loaded_rela bases ?h r)"
    using info assms(3) in_segmentI [OF assms(2) info(1)]
    by (auto simp: addend_ready_def link_ok_def loaded_rela_def split: option.splits)
  show "rela_ok (loaded_object src bases m) sec (loaded_rela bases ?h r)"
    using info assms(3) in_segmentI [OF assms(2) info(1)]
    by (auto simp: rela_ok_def link_ok_def loaded_rela_def rela_symbol_def writes_field_def Let_def split: option.splits)
qed

lemma loaded_relocatable:
  assumes "loadable src" "bases_ok src bases"
  shows "relocatable (loaded_object src bases m)"
  using loaded_tables_ok(3) [OF assms(1)] link_ready(2) [OF assms] assms(2)
  by (auto simp: relocatable_def bases_ok_def list_all_iff loaded_object_def Let_def section_count_def)

text \<open>What \<open>load\<close> returns: the tables with addresses, and the bytes of the file relocated.\<close>

definition image_of :: "byte list \<Rightarrow> addr list \<Rightarrow> mem \<Rightarrow> bool" where
  "image_of src bases img \<longleftrightarrow> (\<forall>sec < section_count src. sh_type (source_shdr src sec) \<noteq> SHT_NOBITS \<longrightarrow>
     get_bytes img (bases ! sec) (unat (sh_size (source_shdr src sec))) = section_bytes src sec)"

definition segments_disjoint :: "byte list \<Rightarrow> addr list \<Rightarrow> bool" where
  "segments_disjoint src bases \<longleftrightarrow> (\<forall>i < section_count src. \<forall>j < i.
     block_disjoint (unat (bases ! i), unat (sh_size (source_shdr src i)))
       (unat (bases ! j), unat (sh_size (source_shdr src j))))"

context user_allocator
begin

lemma load_result:
  assumes "loadable src" "inv s" "all_served alloc can (read_requests src) s"
  shows "\<exists>bases img s'. (load alloc src (m, s) :: ('x, _) evaluation) =
      Ret (loaded_object src bases img, write_runs (object_writes (loaded_object src bases img)) img, s') \<and>
    bases_ok src bases \<and> image_of src bases img \<and> segments_disjoint src bases \<and>
    (\<forall>x. (\<forall>i < section_count src. x \<notin> run_of (bases ! i) (unat (sh_size (source_shdr src i)))) \<longrightarrow> img x = m x) \<and>
    (\<forall>i < section_count src. list_all (block_disjoint (unat (bases ! i), unat (sh_size (source_shdr src i)))) (blocks s))"
proof -
  let ?n = "section_count src" and ?bs0 = "blocks (alloc_arrays alloc (header_requests src) s)"
  have "source_ok src" using assms(1) by (simp add: loadable_def)
  from read_object_reads [OF this assms(2,3), of m] obtain obj img s1 where
    r: "(read_object alloc src (m, s) :: ('x, _) evaluation) = Ret (obj, img, s1)" "inv s1"
      "reading blocks src m ?bs0 ?n obj img s1" by blast
  define bases where "bases = segs obj"
  have obj: "obj = plain_object src bases" using reading_plain [OF r(3)] by (simp add: bases_def)
  have rd: "reading blocks src m ?bs0 ?n (plain_object src bases) img s1" using r(3) obj by simp
  have block: "segment_block (plain_object src bases) i = (unat (bases ! i), unat (sh_size (source_shdr src i)))"
    if "i < ?n" for i using that by (simp add: segment_block_def)
  have len: "length bases = ?n" using rd by (simp add: reading_def)
  have bok: "bases_ok src bases"
  proof -
    have "unat (bases ! i) + padded (unat (sh_size (source_shdr src i))) 8 \<le> 2 ^ 47" if "i < ?n" for i
      using rd that blocks_low [OF r(2)] by (simp add: reading_def)
    then show ?thesis using padded_8 len by (auto simp: bases_ok_def intro: order_trans [OF add_left_mono])
  qed
  have n: "unat (e_shnum (source_ehdr src)) = ?n" by (simp add: section_count_def)
  have ready: "\<forall>sec < unat (e_shnum (ehdr (addressed_object src bases))).
      list_all (addend_ready (addressed_object src bases) sec) (obj_relas (addressed_object src bases) ! sec)"
    using link_ready(1) [OF assms(1) bok] by (auto simp: n list_all_iff)
  have "(store_addends alloc img (addressed_object src bases, s1) :: ('x, _) evaluation) =
      Ret (loaded_object src bases img, alloc_arrays alloc (store_requests (addressed_object src bases) [0..<?n]) s1)"
    by (subst store_addends_result [OF loaded_tables_ok(2) [OF assms(1) len] ready]) (simp_all add: n loaded_object_def Let_def)
  then have "(load alloc src (m, s) :: ('x, _) evaluation) =
      Ret (loaded_object src bases img, write_runs (object_writes (loaded_object src bases img)) img,
        alloc_arrays alloc (store_requests (addressed_object src bases) [0..<?n]) s1)"
    by (simp add: load_def r(1) obj addressed [OF assms(1) len] do_relocations_writes [OF loaded_relocatable [OF assms(1) bok]])
  moreover have "image_of src bases img" using rd by (simp add: reading_def image_of_def)
  moreover have "segments_disjoint src bases" using rd by (auto simp: reading_def segments_disjoint_def block)
  moreover have "\<forall>x. (\<forall>i < ?n. x \<notin> run_of (bases ! i) (unat (sh_size (source_shdr src i)))) \<longrightarrow> img x = m x"
    using rd by (simp add: reading_def)
  moreover have "\<forall>i < ?n. list_all (block_disjoint (unat (bases ! i), unat (sh_size (source_shdr src i)))) (blocks s)"
  proof -
    have "all_served alloc can (header_requests src) s" using assms(3) by (simp only: read_requests_def all_served_append)
    then have "set (blocks s) \<subseteq> set ?bs0" using alloc_arrays_inv [OF assms(2)] by simp
    moreover have "\<forall>i < ?n. list_all (block_disjoint (unat (bases ! i), unat (sh_size (source_shdr src i)))) ?bs0"
      using rd by (simp add: reading_def block)
    ultimately show ?thesis by (auto simp: list_all_iff)
  qed
  ultimately show ?thesis using bok by blast
qed

end

section \<open>Writes stay within the segments\<close>

lemma rela_sites_in:
  "(a, n) \<in> set (rela_sites rs) \<Longrightarrow> \<exists>r \<in> set rs. a = r_offset r \<and>
     n = the (addend_width (ELF64_R_TYPE (r_info r))) \<and> writes_field (ELF64_R_TYPE (r_info r))"
  by (auto simp: rela_sites_def split: if_splits)

lemma relocation_inside:
  assumes ok: "loadable src" "bases_ok src bases"
    and x: "\<forall>i < section_count src. x \<notin> run_of (bases ! i) (unat (sh_size (source_shdr src i)))"
  shows "write_runs (object_writes (loaded_object src bases img)) m x = m x"
proof (rule write_runs_outside)
  let ?obj = "loaded_object src bases img"
  note rel = loaded_relocatable [OF ok, of img]
  fix a n assume "(a, n) \<in> set (run_sites (object_writes ?obj))"
  then obtain sec where sec: "sec < section_count src" "(a, n) \<in> set (rela_sites (obj_relas ?obj ! sec))"
    unfolding object_writes_sites [OF rel] set_concat set_map set_upt by (auto simp: section_count_def)
  from rela_sites_in [OF sec(2)] sec(1) obtain r where r: "sec < section_count src" "r \<in> set (obj_relas ?obj ! sec)" "a = r_offset r"
      "n = the (addend_width (ELF64_R_TYPE (r_info r)))" "writes_field (ELF64_R_TYPE (r_info r))"
    by blast
  have "rela_ok ?obj sec r" using rel r(1,2) by (auto simp: relocatable_def list_all_iff section_count_def)
  then have "in_segment ?obj a n" using r by (simp add: rela_ok_def)
  then obtain i where i: "i < section_count src"
      "block_within (unat a, n) (unat (bases ! i), unat (sh_size (source_shdr src i)))"
    using ok(2) by (auto simp: in_segment_def segment_block_def list_ex_iff bases_ok_def)
  have "unat (bases ! i) + unat (sh_size (source_shdr src i)) \<le> 2 ^ 47" using ok(2) i(1) by (simp add: bases_ok_def)
  then have fits: "run_fits (bases ! i) (unat (sh_size (source_shdr src i)))" "run_fits a n" using i(2) by auto
  show "x \<notin> run_of a n"
    using x [rule_format, OF i(1)] i(2) unfolding in_run [OF fits(1)] in_run [OF fits(2)] by auto
qed

section \<open>Properties of the loader\<close>

text \<open>C6. For a file whose sections, tables and links lie within it, \<open>load\<close>
over the region allocator returns: the bytes of each section are in a segment of its own,
symbols and relocations have addresses, the relocations were applied to the loaded image, and no
byte outside of the segments changed.\<close>

lemma load_correct:
  assumes "loadable src" "ginv reg s" "all_served (galloc mmap reg) (gcan mmap reg) (read_requests src) s"
  shows "\<exists>bases img m' s'. (load (galloc mmap reg) src (m, s) :: ('x, _) evaluation) = Ret (loaded_object src bases img, m', s') \<and>
    do_relocations (loaded_object src bases img) img = (Ret m' :: ('x, _) evaluation) \<and>
    bases_ok src bases \<and> image_of src bases img \<and> segments_disjoint src bases \<and>
    (\<forall>x. list_all (\<lambda>sec. x \<notin> run_of (bases ! sec) (unat (sh_size (source_shdr src sec)))) [0..<section_count src] \<longrightarrow> m' x = m x)"
proof -
  from ru.load_result [OF assms, of m] obtain bases img s' where
    l: "(load (galloc mmap reg) src (m, s) :: ('x, _) evaluation) =
      Ret (loaded_object src bases img, write_runs (object_writes (loaded_object src bases img)) img, s')"
    and b: "bases_ok src bases" "image_of src bases img" "segments_disjoint src bases"
    and out: "\<forall>x. (\<forall>i < section_count src. x \<notin> run_of (bases ! i) (unat (sh_size (source_shdr src i)))) \<longrightarrow> img x = m x"
    by blast
  show ?thesis
    using l b out relocation_inside [OF assms(1) b(1), of _ img img]
      do_relocations_writes [OF loaded_relocatable [OF assms(1) b(1)], of img, where ?'e = "'x evaluate_error"]
    by (intro exI [of _ bases] exI [of _ img] exI [of _ "write_runs (object_writes (loaded_object src bases img)) img"]
        exI [of _ s'] conjI) (simp_all add: list_all_iff)
qed

definition relocation_sites :: "Object \<Rightarrow> (addr \<times> nat) list" where
  "relocation_sites obj = concat (map (\<lambda>sec. rela_sites (obj_relas obj ! sec)) [0..<unat (e_shnum (ehdr obj))])"

text \<open>
  The relocations of the x86-64 ABI that the loader knows: the number of the type, the bytes of the field, and its
  value from the value \<open>S\<close> and size \<open>Z\<close> of the symbol, the addend \<open>A\<close> and the place \<open>P\<close> of the field.
\<close>

definition abi_relocations :: "(nat \<times> nat \<times> (int \<Rightarrow> int \<Rightarrow> int \<Rightarrow> int \<Rightarrow> int)) list" where
  "abi_relocations =
     [(1, 8, \<lambda>S Z A P. S + A), (2, 4, \<lambda>S Z A P. S + A - P), (6, 8, \<lambda>S Z A P. S), (7, 8, \<lambda>S Z A P. S),
      (10, 4, \<lambda>S Z A P. S + A), (11, 4, \<lambda>S Z A P. S + A), (12, 2, \<lambda>S Z A P. S + A), (13, 2, \<lambda>S Z A P. S + A - P),
      (14, 1, \<lambda>S Z A P. S + A), (15, 1, \<lambda>S Z A P. S + A - P), (32, 4, \<lambda>S Z A P. Z + A), (33, 8, \<lambda>S Z A P. Z + A)]"

definition abi_width :: "nat \<Rightarrow> nat option" where
  "abi_width t = map_option fst (map_of abi_relocations t)"

definition abi_sites :: "Object \<Rightarrow> (addr \<times> nat) list" where
  "abi_sites obj = concat (map (\<lambda>sec. concat (map (\<lambda>r.
     case abi_width (unat (ELF64_R_TYPE (r_info r))) of None \<Rightarrow> [] | Some k \<Rightarrow> [(r_offset r, k)]) (obj_relas obj ! sec)))
     [0..<unat (e_shnum (ehdr obj))])"

text \<open>The number that \<open>k\<close> bytes of the memory hold, the least significant first.\<close>

primrec field_value :: "mem \<Rightarrow> addr \<Rightarrow> nat \<Rightarrow> int" where
  "field_value m a 0 = 0"
| "field_value m a (Suc k) = uint (m a) + 256 * field_value m (a + 1) k"

lemma sum_value: "uint (x + a) = (uint x + sint a) mod 2 ^ 64" for x a :: u64
proof -
  have "uint (x + a) = uint (word_of_int (uint x + sint a) :: u64)" by simp
  then show ?thesis unfolding uint_word_of_int by simp
qed

lemma difference_value: "uint (x + a - p) = (uint x + sint a - uint p) mod 2 ^ 64" for x a p :: u64
proof -
  have "uint (x + a - p) = uint (word_of_int (uint x + sint a - uint p) :: u64)" by simp
  then show ?thesis unfolding uint_word_of_int by simp
qed

lemma abi_relocation:
  assumes "map_of abi_relocations (unat ty) = Some (k, f)"
  shows "writes_field ty \<and> addend_width ty = Some k \<and> k \<le> 8 \<and>
    (\<exists>v. relocated_value ty sy a p = Some (v, k) \<and> uint v = f (uint (st_value sy)) (uint (st_size sy)) (sint a) (uint p) mod 2 ^ 64)"
proof -
  have u: "unat ty = n \<Longrightarrow> ty = word_of_nat n" for n by auto
  have mods: "uint (x + a) = (uint x + sint a) mod 2 ^ 64" "uint (x + a - p) = (uint x + sint a - uint p) mod 2 ^ 64"
    "uint x mod 2 ^ 64 = uint x" for x :: u64
    unfolding sum_value difference_value using uint_lt2p [of x] by simp_all
  show ?thesis using assms
    by (auto simp: abi_relocations_def writes_field_def addend_width_def relocation_types relocated_value_def mods [simplified] dest!: u split: if_splits)
qed

lemma abi_none: "abi_width (unat ty) = None \<longleftrightarrow> \<not> writes_field (ty :: u64)"
proof
  show "abi_width (unat ty) = None \<Longrightarrow> \<not> writes_field ty"
    by (auto simp: abi_width_def abi_relocations_def writes_field_def addend_width_def relocation_types split: if_splits)
  show "\<not> writes_field ty \<Longrightarrow> abi_width (unat ty) = None"
    using abi_relocation [of ty] by (cases "abi_width (unat ty)") (auto simp: abi_width_def)
qed

lemma abi_sites_eq: "abi_sites obj = relocation_sites obj"
proof -
  have "(case abi_width (unat (ELF64_R_TYPE (r_info r))) of None \<Rightarrow> [] | Some k \<Rightarrow> [(r_offset r, k)]) =
      (if writes_field (ELF64_R_TYPE (r_info r)) then [(r_offset r, the (addend_width (ELF64_R_TYPE (r_info r))))] else [])" for r :: Elf64_Rela
    using abi_relocation [of "ELF64_R_TYPE (r_info r)"] abi_none [of "ELF64_R_TYPE (r_info r)"]
    by (auto simp: abi_width_def split: option.splits)
  then show ?thesis unfolding abi_sites_def relocation_sites_def rela_sites_def by (simp only:)
qed

lemma field_value_bytes: "get_bytes m a k = le_bytes k (v :: u64) \<Longrightarrow> field_value m a k = uint v mod 256 ^ k"
proof (induction k arbitrary: a v)
  case (Suc k)
  have "field_value m (a + 1) k = uint (drop_bit 8 v) mod 256 ^ k" using Suc by simp
  also have "uint (drop_bit 8 v) = uint v div 256"
    by (simp add: drop_bit_eq_div uint_div_distrib)
  finally have 1: "field_value m (a + 1) k = uint v div 256 mod 256 ^ k" .
  have "m a = ucast v" using Suc.prems by simp
  then have "uint (m a) = uint v mod 256" by (simp add: unsigned_ucast_eq take_bit_eq_mod)
  with 1 show ?case by (simp add: zmod_zmult2_eq)
qed simp


text \<open>C12. When the fields of its relocations do not overlap, relocating an object stores
in the field of each relocation the value that the x86-64 ABI gives for its type from symbol,
addend and place (a table of the formulas of the ABI), and changes no byte outside of these
fields.\<close>

lemma relocated_field_value:
  assumes ok: "relocatable obj" and dis: "sites_disjoint (abi_sites obj)"
    and r: "sec < unat (e_shnum (ehdr obj))" "i < length (obj_relas obj ! sec)" "obj_relas obj ! sec ! i = r"
    and abi: "map_of abi_relocations (unat (ELF64_R_TYPE (r_info r))) = Some (k, calc)"
    and sy: "rela_symbol obj sec r = Some sy"
  shows "\<exists>m'. do_relocations obj m = (Ret m' :: ('e, _) outcome) \<and>
    field_value m' (r_offset r) k =
      calc (uint (st_value sy)) (uint (st_size sy)) (sint (addends obj ! sec ! i)) (uint (r_offset r)) mod 256 ^ k \<and>
    (\<forall>x. list_all (\<lambda>(a, n). x \<notin> run_of a n) (abi_sites obj) \<longrightarrow> m' x = m x)"
proof (intro exI conjI)
  let ?ws = "object_writes obj"
  obtain v where v: "writes_field (ELF64_R_TYPE (r_info r))" "k \<le> 8"
      "relocated_value (ELF64_R_TYPE (r_info r)) sy (addends obj ! sec ! i) (r_offset r) = Some (v, k)"
      "uint v = calc (uint (st_value sy)) (uint (st_size sy)) (sint (addends obj ! sec ! i)) (uint (r_offset r)) mod 2 ^ 64"
    using abi_relocation [OF abi] by blast
  show "do_relocations obj m = Ret (write_runs ?ws m)" by (rule do_relocations_writes [OF ok])
  have sites: "run_sites ?ws = abi_sites obj"
    unfolding abi_sites_eq relocation_sites_def by (rule object_writes_sites [OF ok])
  have "(r_offset r, le_bytes k v) \<in> set (relocation_write obj sec i)"
    using v sy by (simp add: relocation_write_def r(3) Let_def)
  then have "(r_offset r, le_bytes k v) \<in> set ?ws"
    using r(1,2) unfolding object_writes_def section_writes_def set_concat set_map set_upt
    by (intro UN_I [OF imageI, of sec]) (auto intro!: bexI [of _ i])
  from write_runs_get [OF dis [folded sites] object_writes_short this]
  have field: "get_bytes (write_runs ?ws m) (r_offset r) k = le_bytes k v" by simp
  have d: "(256 :: int) ^ k dvd 2 ^ 64" using le_imp_power_dvd [OF v(2), of "256 :: int"] by simp
  from field_value_bytes [OF field] v(4) show "field_value (write_runs ?ws m) (r_offset r) k =
      calc (uint (st_value sy)) (uint (st_size sy)) (sint (addends obj ! sec ! i)) (uint (r_offset r)) mod 256 ^ k"
    using mod_mod_cancel [OF d] by simp
  show "\<forall>x. list_all (\<lambda>(a, n). x \<notin> run_of a n) (abi_sites obj) \<longrightarrow> write_runs ?ws m x = m x"
    by (intro allI impI write_runs_outside) (auto simp: list_all_iff sites)
qed

text \<open>C8. \<open>mutate_bindings\<close> gives open visible symbols the last address that
the updates name for them, and the memory afterwards is the memory that relocating the original
image with these addresses gives: nothing of earlier relocations is left.\<close>

lemma mutate_bindings_relinks:
  assumes ok: "relocatable obj" and m: "do_relocations obj img = (Ret m :: ('e, _) outcome)"
    and names: "names_ok m obj nms" "updates_ok m us ups"
  shows "\<exists>obj' m'. mutate_bindings us (obj, m) = (Ret (obj', m') :: ('e, _) outcome) \<and>
    do_relocations obj' img = (Ret m' :: ('e, _) outcome) \<and> relocatable obj' \<and>
    (\<forall>sec i. sec < unat (e_shnum (ehdr obj)) \<longrightarrow> 0 < i \<longrightarrow> i < length (obj_syms obj ! sec) \<longrightarrow>
      obj_syms obj' ! sec ! i = (case find (\<lambda>up. fst up = nms sec i) (rev ups) of
          Some up \<Rightarrow> if is_open (obj_syms obj ! sec ! i) \<and> is_visible (obj_syms obj ! sec ! i)
            then (obj_syms obj ! sec ! i)\<lparr>st_value := snd up\<rparr> else obj_syms obj ! sec ! i
        | None \<Rightarrow> obj_syms obj ! sec ! i))"
proof -
  let ?obj = "fold (rebind_object nms) ups obj"
  have tab: "tables_ok obj" using ok by (simp add: relocatable_def)
  note keep = rebind_objects_keep [OF ok, of nms ups]
  then have ok': "relocatable ?obj" by simp
  have m_eq: "m = write_runs (object_writes obj) img"
    using m unfolding do_relocations_writes [OF ok, where ?'e = 'e] by simp
  have "run_sites (object_writes obj) = run_sites (object_writes ?obj)"
    using object_writes_sites [OF ok] object_writes_sites [OF ok'] keep by simp
  then have again: "write_runs (object_writes ?obj) m = write_runs (object_writes ?obj) img"
    unfolding m_eq by (intro write_runs_twice object_writes_short)
  have "mutate_bindings us (obj, m) = (Ret (?obj, write_runs (object_writes ?obj) img) :: ('e, _) outcome)"
    by (simp add: mutate_bindings_def mutate_updates [OF tab names] do_relocations_writes [OF ok'] again)
  moreover have "do_relocations ?obj img = (Ret (write_runs (object_writes ?obj) img) :: ('e, _) outcome)"
    by (rule do_relocations_writes [OF ok'])
  moreover have "length (obj_syms obj) = unat (e_shnum (ehdr obj))" using tab by (simp add: tables_ok_def Let_def)
  then have "obj_syms ?obj ! sec ! i = fold (\<lambda>up sy. rebind up (nms sec i) sy) ups (obj_syms obj ! sec ! i)"
    if "sec < unat (e_shnum (ehdr obj))" "0 < i" "i < length (obj_syms obj ! sec)" for sec i
    using fold_rebind_object [of sec obj i nms ups] that by simp
  ultimately show ?thesis using ok' unfolding fold_rebind by blast
qed

section \<open>Bindings of an object\<close>

definition symbol_binding :: "Object \<Rightarrow> nat \<Rightarrow> Elf64_Sym \<Rightarrow> binding" where
  "symbol_binding obj sec sy = make_binding (segs obj ! unat (sh_link (shdrs obj ! sec)) + ucast (st_name sy)) (st_value sy)"

definition binding_symbols :: "bool \<Rightarrow> Object \<Rightarrow> (nat \<times> Elf64_Sym) list" where
  "binding_symbols flag obj = concat (map (\<lambda>sec. map (Pair sec) (filter (\<lambda>sy. is_open sy = flag \<and> is_visible sy)
     (drop 1 (obj_syms obj ! sec)))) [0..<unat (e_shnum (ehdr obj))])"

definition links_exist :: "Object \<Rightarrow> bool" where
  "links_exist obj \<longleftrightarrow> list_all (\<lambda>sec. sh_type (shdrs obj ! sec) = SHT_SYMTAB \<longrightarrow>
     unat (sh_link (shdrs obj ! sec)) < length (segs obj)) [0..<unat (e_shnum (ehdr obj))]"

lemma collect_binding_step:
  "unat (sh_link (shdrs obj ! sec)) < length (segs obj) \<Longrightarrow> i < length (obj_syms obj ! sec) \<Longrightarrow>
   collect_binding flag obj sec i bs = Ret (if is_open (obj_syms obj ! sec ! i) = flag \<and> is_visible (obj_syms obj ! sec ! i)
     then symbol_binding obj sec (obj_syms obj ! sec ! i) # bs else bs)"
  by (auto simp: collect_binding_def name_of_def symbol_binding_def Let_def)

lemma collect_bindings:
  assumes "unat (sh_link (shdrs obj ! sec)) < length (segs obj)" "k \<le> length (obj_syms obj ! sec)"
  shows "(for_each (collect_binding flag obj sec) [1..<k] bs :: ('e, _) outcome) =
    Ret (rev (map (symbol_binding obj sec) (filter (\<lambda>sy. is_open sy = flag \<and> is_visible sy)
      (drop 1 (take k (obj_syms obj ! sec))))) @ bs)"
  using assms(2)
proof (induction k)
  case (Suc k)
  show ?case
  proof (cases "k = 0")
    case True
    have "drop 1 (take (Suc 0) (obj_syms obj ! sec)) = []" by simp
    then show ?thesis using True by simp
  next
    case False
    have "drop 1 (take (Suc k) (obj_syms obj ! sec)) = drop 1 (take k (obj_syms obj ! sec)) @ [obj_syms obj ! sec ! k]"
      using Suc.prems False by (simp add: take_Suc_conv_app_nth)
    then show ?thesis using Suc assms(1) False
      by (subst upt_Suc) (simp add: for_each_append collect_binding_step del: upt_Suc)
  qed
qed simp

text \<open>C25. \<open>bindings\<close> returns the names and addresses of exactly the visible
symbols that are open or, for the other flag, defined; the last one comes first.\<close>

lemma bindings_of_object:
  assumes "tables_ok obj" "links_exist obj"
  shows "(bindings flag obj :: ('e, _) outcome) =
    Ret (rev (map (\<lambda>(sec, sy). symbol_binding obj sec sy) (binding_symbols flag obj)))"
proof -
  let ?n = "unat (e_shnum (ehdr obj))"
  let ?bs = "\<lambda>sec. map (symbol_binding obj sec) (filter (\<lambda>sy. is_open sy = flag \<and> is_visible sy) (drop 1 (obj_syms obj ! sec)))"
  have sec: "(collect_section flag obj sec bs :: ('e, _) outcome) = Ret (rev (?bs sec) @ bs)" if "sec < ?n" for sec bs
  proof -
    have ok: "table_ok (shdrs obj ! sec)" "length (obj_syms obj ! sec) =
        (if sh_type (shdrs obj ! sec) = SHT_SYMTAB then entry_count (shdrs obj ! sec) else 0)"
      using assms(1) that by (simp_all add: tables_ok_def Let_def)
    show ?thesis
    proof (cases "sh_type (shdrs obj ! sec) = SHT_SYMTAB")
      case True
      then have "unat (sh_link (shdrs obj ! sec)) < length (segs obj)" using assms(2) that by (auto simp: links_exist_def list_all_iff)
      then show ?thesis using True ok collect_bindings [of obj sec "entry_count (shdrs obj ! sec)" flag bs, where ?'e = 'e]
        by (simp add: collect_section_def count_symtab)
    next
      case False
      then have "length (obj_syms obj ! sec) = 0" using ok(2) by (simp del: length_0_conv)
      then show ?thesis using False by (simp add: collect_section_def)
    qed
  qed
  have "(for_each (collect_section flag obj) [0..<k] [] :: ('e, _) outcome) = Ret (rev (concat (map ?bs [0..<k])))" if "k \<le> ?n" for k
    using that by (induction k) (simp_all only: for_each_upto_Suc, simp_all add: sec)
  from this [of ?n] show ?thesis
    by (simp add: bindings_def binding_symbols_def map_concat comp_def)
qed

text \<open>A small loaded object: its code has a field that holds the address of an undefined symbol plus 5.\<close>

definition demo_header :: "Elf64_Word \<Rightarrow> nat \<Rightarrow> nat \<Rightarrow> nat \<Rightarrow> Elf64_Shdr" where
  "demo_header ty k width link = zero_shdr\<lparr>sh_type := ty, sh_size := of_nat k, sh_entsize := of_nat width, sh_link := of_nat link\<rparr>"

definition demo_symbol :: Elf64_Sym where
  "demo_symbol = \<lparr>st_name = 1, st_info = 0x10, st_other = 0, st_shndx = 0, st_value = 0, st_size = 0\<rparr>"

definition demo_object :: Object where
  "demo_object =
     \<lparr>ehdr = \<lparr>e_ident = [], e_type = 0, e_machine = 0, e_version = 0, e_entry = 0, e_phoff = 0, e_shoff = 0,
        e_flags = 0, e_ehsize = 0, e_phentsize = 0, e_phnum = 0, e_shentsize = 0, e_shnum = 4, e_shstrndx = 0\<rparr>,
      shdrs = [demo_header SHT_PROGBITS 16 0 0, demo_header SHT_STRTAB 3 0 0, demo_header SHT_SYMTAB 48 24 1,
        demo_header SHT_RELA 24 24 2],
      obj_syms = [[], [], [demo_symbol\<lparr>st_name := 0, st_info := 0\<rparr>, demo_symbol], []],
      obj_relas = [[], [], [], [\<lparr>r_offset = 0x1002, r_info = ELF64_R_INFO 1 R_X86_64_64, r_addend = 5\<rparr>]],
      addends = [[], [], [], [5]], segs = [0x1000, 0x2000, 0x3000, 0x4000]\<rparr>"

lemma less_4: "(i :: nat) < 4 \<longleftrightarrow> i \<in> {0, 1, 2, 3}" "[0..<4] = [0, 1, 2, 3 :: nat]"
  by (auto simp: upt_rec)

lemma demo_info [simp]:
  "ELF64_R_TYPE (ELF64_R_INFO 1 R_X86_64_64) = R_X86_64_64" "ELF64_R_SYM (ELF64_R_INFO 1 R_X86_64_64) = 1"
  "ELF64_R_TYPE (ELF64_R_INFO 1 1) = 1" "ELF64_R_SYM (ELF64_R_INFO 1 1) = 1"
  by (simp_all add: ELF64_R_TYPE_def ELF64_R_SYM_def ELF64_R_INFO_def relocation_types)

lemma demo_tables: "tables_ok demo_object"
  by (auto simp: tables_ok_def demo_object_def demo_header_def less_4 table_ok_def entry_width_def entry_count_def
      section_types elf_sizes is_rel_def zero_shdr_def sym_ok_def demo_symbol_def Let_def)

lemma demo_relocatable: "relocatable demo_object"
  using demo_tables
  by (auto simp: relocatable_def demo_object_def demo_header_def less_4 rela_ok_def rela_symbol_def in_segment_def
      segment_block_def zero_shdr_def addend_width_def relocation_types Let_def)

lemma demo_sites: "relocation_sites demo_object = [(0x1002, 8)]"
  by (simp add: relocation_sites_def demo_object_def rela_sites_def writes_field_def addend_width_def relocation_types less_4)

lemma relocated_field_value_witness:
  "\<exists>m'. do_relocations demo_object (\<lambda>a. 0) = (Ret m' :: (nat, _) outcome) \<and> field_value m' 0x1002 8 = 5"
proof -
  have dis: "sites_disjoint (abi_sites demo_object)" by (simp add: abi_sites_eq demo_sites sites_disjoint_def)
  show ?thesis
    using relocated_field_value [OF demo_relocatable dis, of 3 0 "obj_relas demo_object ! 3 ! 0" 8 "\<lambda>S Z A P. S + A" demo_symbol "\<lambda>a. 0", where ?'e = nat]
    by (auto simp: demo_object_def rela_symbol_def demo_header_def demo_symbol_def abi_relocations_def relocation_types Let_def)
qed

lemma mutate_bindings_relinks_witness:
  "\<exists>obj m m'. do_relocations demo_object (upd_bytes (\<lambda>a. 0) 0x2001 [97, 0]) = (Ret m :: (nat, _) outcome) \<and>
    mutate_bindings [make_binding 0x2001 0x5000] (demo_object, m) = (Ret (obj, m') :: (nat, _) outcome) \<and>
    st_value (obj_syms obj ! 2 ! 1) = 0x5000"
proof -
  let ?img = "upd_bytes (\<lambda>a. 0) 0x2001 [97, 0]"
  obtain m where m: "do_relocations demo_object ?img = (Ret m :: (nat, _) outcome)"
    using do_relocations_writes [OF demo_relocatable, where ?'e = nat] by blast
  have "m x = ?img x" if "x \<notin> run_of 0x1002 8" for x
    using m that demo_sites write_runs_outside [of "object_writes demo_object" x ?img]
    unfolding do_relocations_writes [OF demo_relocatable] object_writes_sites [OF demo_relocatable] relocation_sites_def
    by auto
  then have "cstr m 0x2001 ''a''" by (simp add: in_run byte_of_def)
  then have "names_ok m demo_object (\<lambda>sec i. ''a'')" "updates_ok m [make_binding 0x2001 0x5000] [(''a'', 0x5000)]"
    by (simp_all add: names_ok_def updates_ok_def demo_object_def less_4 demo_header_def section_types demo_symbol_def
       make_binding_def)
  from mutate_bindings_relinks [OF demo_relocatable m this] obtain obj m' where
    r: "mutate_bindings [make_binding 0x2001 0x5000] (demo_object, m) = (Ret (obj, m') :: (nat, _) outcome)"
    and s: "\<forall>sec i. sec < unat (e_shnum (ehdr demo_object)) \<longrightarrow> 0 < i \<longrightarrow> i < length (obj_syms demo_object ! sec) \<longrightarrow>
      obj_syms obj ! sec ! i = (case find (\<lambda>up. fst up = ''a'') (rev [(''a'', 0x5000 :: addr)]) of
          Some up \<Rightarrow> if is_open (obj_syms demo_object ! sec ! i) \<and> is_visible (obj_syms demo_object ! sec ! i)
            then (obj_syms demo_object ! sec ! i)\<lparr>st_value := snd up\<rparr> else obj_syms demo_object ! sec ! i
        | None \<Rightarrow> obj_syms demo_object ! sec ! i)" by blast
  from s [rule_format, of 2 1] have "st_value (obj_syms obj ! 2 ! 1) = 0x5000"
    by (simp add: demo_object_def demo_symbol_def is_open_def is_visible_def SHN_UNDEF_def ELF64_ST_BIND_def STB_GLOBAL_def)
  with m r show ?thesis by blast
qed

lemma bindings_of_object_witness:
  "(mutable_bindings demo_object :: (nat, _) outcome) = Ret [make_binding 0x2001 0]"
proof -
  have "links_exist demo_object" by (simp add: links_exist_def demo_object_def demo_header_def section_types less_4)
  from bindings_of_object [OF demo_tables this, of True, where ?'e = nat] show ?thesis
    by (simp add: mutable_bindings_def binding_symbols_def demo_object_def demo_symbol_def is_open_def is_visible_def
        SHN_UNDEF_def ELF64_ST_BIND_def STB_GLOBAL_def SHN_COMMON_def STB_WEAK_def symbol_binding_def demo_header_def less_4)
qed

end
