(* ===== verification/Object_Files.thy ===== *)
theory Object_Files
  imports Elf_Writer_Correct Loading
begin

text \<open>
  The writer and the loader together: the file that \<open>write_elf\<close> makes of a linked program can be
  loaded, the loaded object has the tables that were written, and \<open>binding_aug_offsets_to_addresses\<close>
  turns the offsets of bindings into the addresses that the loaded symbols have.
\<close>

section \<open>Offsets to addresses\<close>

text \<open>
  The parameters \<open>bss_name\<close> and \<open>text_name\<close> are the addresses of the literals \<open>".bss"\<close> and \<open>".text"\<close>.
\<close>

definition move_binding :: "u64 \<Rightarrow> addr \<Rightarrow> 's world \<Rightarrow> 's world" where
  "move_binding base b w = w\<lparr>augs := (augs w)(b := (augs w b)\<lparr>offset := offset (augs w b) + base\<rparr>)\<rparr>"

definition move_static :: "mem \<Rightarrow> Object \<Rightarrow> addr \<Rightarrow> addr \<Rightarrow> 's world \<Rightarrow> ('e, 's world) outcome" where
  "move_static m obj bss_name b w =
     (if aug_type (augs w b) = absolute_storage \<and> state (augs w b) = defined_state
      then bindO (segment m obj bss_name) (\<lambda>base. Ret (move_binding base b w))
      else Ret w)"

definition move_label :: "mem \<Rightarrow> Object \<Rightarrow> addr \<Rightarrow> expr \<Rightarrow> 's world \<Rightarrow> ('e, 's world) outcome" where
  "move_label m obj text_name l w =
     (if is_label l
      then bindO (nth_arg 0 l) (\<lambda>label_ref. bindO (binding_of w label_ref) (\<lambda>b.
           bindO (segment m obj text_name) (\<lambda>base. Ret (move_binding base b w))))
      else Ret w)"

definition binding_aug_offsets_to_addresses ::
  "mem \<Rightarrow> addr \<Rightarrow> addr \<Rightarrow> expr list \<Rightarrow> addr list \<Rightarrow> Object \<Rightarrow> 's world \<Rightarrow> ('e, 's world) outcome" where
  "binding_aug_offsets_to_addresses m bss_name text_name asms static_bindings obj w =
     bindO (for_each (move_static m obj bss_name) static_bindings w) (\<lambda>w.
     for_each (move_label m obj text_name) asms w)"

section \<open>The sections of a written file\<close>

lemma SHSTRTAB_sizes: "length SHSTRTAB = 49" "pad 49 = 56"
  by (simp_all add: SHSTRTAB_def pad_def pad_size_def ALIGNMENT_def)

lemma slice_of_concat:
  "i = length xs \<Longrightarrow> k \<le> length ys \<Longrightarrow> take k (drop i (xs @ ys @ zs)) = take k ys"
  by simp

text \<open>The positions of the parts; they are small.\<close>

definition text_at :: nat where "text_at = 568"
definition strtab_at :: "expr list \<Rightarrow> nat" where "strtab_at ns = text_at + pad (MAX_INSTR_LEN * length ns)"
definition symtab_at :: "expr list \<Rightarrow> addr list \<Rightarrow> addr list \<Rightarrow> 's world \<Rightarrow> nat" where
  "symtab_at ns ub sb w = strtab_at ns + pad (measure_strtab w ns ub sb)"
definition rela_at :: "expr list \<Rightarrow> addr list \<Rightarrow> addr list \<Rightarrow> 's world \<Rightarrow> nat" where
  "rela_at ns ub sb w = symtab_at ns ub sb w + ELF64_SYM * measure_symtab ns ub sb"

lemmas file_positions = text_at_def strtab_at_def symtab_at_def rela_at_def

text \<open>The pieces behind the headers.\<close>

definition file_symbols ::
  "(nat \<Rightarrow> Elf64_Sym) \<Rightarrow> (nat \<Rightarrow> byte) \<Rightarrow> expr list \<Rightarrow> addr list \<Rightarrow> addr list \<Rightarrow> 's world \<Rightarrow> Elf64_Sym list" where
  "file_symbols junk_sym junk ns ub sb w = snd (placed junk_sym junk ns ub sb w)"

lemma written_lengths:
  assumes ok: "linked_program ns ub sb w"
  shows "length (file_symbols junk_sym junk ns ub sb w) = measure_symtab ns ub sb"
    "length (strtab (final_tables junk_sym junk ns ub sb w)) = pad (measure_strtab w ns ub sb)"
    "length (file_text ns) = pad (MAX_INSTR_LEN * length ns)"
    "length (file_relas junk_sym junk ns ub sb w) \<le> length ns"
    "length (program_code ns) \<le> pad (MAX_INSTR_LEN * length ns)"
    "length (program_code ns) \<le> MAX_INSTR_LEN * length ns"
proof -
  note tables = final_tables_facts [OF ok refl, of junk_sym junk]
  show "length (file_symbols junk_sym junk ns ub sb w) = measure_symtab ns ub sb"
    by (simp add: file_symbols_def placed_def Let_def place_labels_length tables(1))
  show "length (strtab (final_tables junk_sym junk ns ub sb w)) = pad (measure_strtab w ns ub sb)" by (rule tables(2))
  show *: "length (program_code ns) \<le> MAX_INSTR_LEN * length ns"
    using length_program_code [of ns] by (simp add: MAX_INSTR_LEN_def)
  also have "\<dots> \<le> pad (MAX_INSTR_LEN * length ns)" using ok by (intro pad_facts) (simp add: linked_program_def)
  finally show "length (program_code ns) \<le> pad (MAX_INSTR_LEN * length ns)" .
  then show "length (file_text ns) = pad (MAX_INSTR_LEN * length ns)" by (simp add: file_text_def)
  show "length (file_relas junk_sym junk ns ub sb w) \<le> length ns"
    by (simp add: file_relas_def length_program_relas)
qed

lemma file_bytes_parts:
  "file_bytes junk_sym junk junk' ns ub sb w = ehdr_bytes file_header @
     concat (map shdr_bytes (file_headers junk_sym junk ns ub sb w)) @
     (map byte_of SHSTRTAB @ map junk' [length SHSTRTAB..<pad (length SHSTRTAB)]) @
     file_text ns @ strtab (final_tables junk_sym junk ns ub sb w) @
     concat (map sym_bytes (file_symbols junk_sym junk ns ub sb w)) @
     concat (map rela_bytes (file_relas junk_sym junk ns ub sb w))"
  by (simp add: file_bytes_def file_symbols_def)

lemma headers_length: "length (concat (map shdr_bytes (file_headers junk_sym junk ns ub sb w))) = 448"
  using shdr.table_length [of "file_headers junk_sym junk ns ub sb w"]
  by (simp add: list_all_iff file_headers_def elf_sizes SH_COUNT_def)

lemma written_header:
  "source_ehdr (file_bytes junk_sym junk junk' ns ub sb w) = file_header"
  "section_count (file_bytes junk_sym junk junk' ns ub sb w) = 7"
  "shdr_pos (file_bytes junk_sym junk junk' ns ub sb w) sec = 64 + 64 * sec"
proof -
  show h: "source_ehdr (file_bytes junk_sym junk junk' ns ub sb w) = file_header"
  proof -
    have "ehdr_ok file_header" by (simp add: file_header_def)
    then show ?thesis by (simp add: source_ehdr_def file_bytes_def ehdr.dec_enc_exact)
  qed
  show "section_count (file_bytes junk_sym junk junk' ns ub sb w) = 7"
    by (simp add: section_count_def h file_header_def SH_COUNT_def)
  show "shdr_pos (file_bytes junk_sym junk junk' ns ub sb w) sec = 64 + 64 * sec"
    by (simp add: shdr_pos_def h file_header_def elf_sizes)
qed

lemma written_shdr:
  assumes "sec < 7"
  shows "source_shdr (file_bytes junk_sym junk junk' ns ub sb w) sec = file_headers junk_sym junk ns ub sb w ! sec"
proof -
  let ?hs = "file_headers junk_sym junk ns ub sb w"
  obtain rest where rest: "file_bytes junk_sym junk junk' ns ub sb w = ehdr_bytes file_header @ concat (map shdr_bytes ?hs) @ rest"
    by (simp add: file_bytes_parts)
  have "drop (64 + 64 * sec) (file_bytes junk_sym junk junk' ns ub sb w) = drop (ELF64_SHDR * sec) (concat (map shdr_bytes ?hs) @ rest)"
    unfolding rest by (simp add: elf_sizes del: drop_append) (simp add: elf_sizes)
  moreover have "length ?hs = 7" by (simp add: file_headers_def SH_COUNT_def)
  ultimately have "take ELF64_SHDR (drop (64 + 64 * sec) (file_bytes junk_sym junk junk' ns ub sb w)) = shdr_bytes (?hs ! sec)"
    using shdr.table_slice [of ?hs sec rest] assms by (simp only: list_all_iff) simp
  then show ?thesis by (simp add: source_shdr_def written_header shdr.dec_enc_exact)
qed

text \<open>The parts start at these positions.\<close>

lemma written_parts:
  assumes ok: "linked_program ns ub sb w" and src_def: "src = file_bytes junk_sym junk junk' ns ub sb w"
  shows "take 49 (drop 512 src) = map byte_of SHSTRTAB"
    "k \<le> pad (MAX_INSTR_LEN * length ns) \<Longrightarrow> take k (drop text_at src) = take k (file_text ns)"
    "k \<le> pad (measure_strtab w ns ub sb) \<Longrightarrow>
       take k (drop (strtab_at ns) src) = take k (strtab (final_tables junk_sym junk ns ub sb w))"
    "take (ELF64_SYM * measure_symtab ns ub sb) (drop (symtab_at ns ub sb w) src) =
       concat (map sym_bytes (file_symbols junk_sym junk ns ub sb w))"
    "drop (rela_at ns ub sb w) src = concat (map rela_bytes (file_relas junk_sym junk ns ub sb w))"
    "length src = rela_at ns ub sb w + ELF64_RELA * length (file_relas junk_sym junk ns ub sb w)"
proof -
  note len = written_lengths [OF ok]
  have front: "length (ehdr_bytes file_header @ concat (map shdr_bytes (file_headers junk_sym junk ns ub sb w))) = 512"
    by (simp add: headers_length del: length_concat length_map map_map) (simp add: elf_sizes)
  let ?A = "ehdr_bytes file_header @ concat (map shdr_bytes (file_headers junk_sym junk ns ub sb w))"
  let ?N = "map byte_of SHSTRTAB @ map junk' [length SHSTRTAB..<pad (length SHSTRTAB)]"
  let ?T = "file_text ns" and ?S = "strtab (final_tables junk_sym junk ns ub sb w)"
  let ?Y = "concat (map sym_bytes (file_symbols junk_sym junk ns ub sb w))"
  let ?R = "concat (map rela_bytes (file_relas junk_sym junk ns ub sb w))"
  have src: "src = ?A @ ?N @ ?T @ ?S @ ?Y @ ?R" by (simp add: src_def file_bytes_parts)
  have N: "length ?N = 56" unfolding length_append length_map length_upt SHSTRTAB_sizes by simp
  have Y: "length ?Y = ELF64_SYM * measure_symtab ns ub sb"
    using elf_sym.table_length [of "file_symbols junk_sym junk ns ub sb w"] len(1) by (simp add: list_all_iff)
  have R: "length ?R = ELF64_RELA * length (file_relas junk_sym junk ns ub sb w)"
    using rela.table_length [of "file_relas junk_sym junk ns ub sb w"] by (simp add: list_all_iff)
  show "take 49 (drop 512 src) = map byte_of SHSTRTAB"
    unfolding src using slice_of_concat [OF front [symmetric], of 49 ?N] by (simp add: SHSTRTAB_sizes)
  have at: "drop text_at src = ?T @ ?S @ ?Y @ ?R"
    unfolding src append_assoc [of ?A ?N, symmetric] using front N by (simp add: text_at_def)
  show "k \<le> pad (MAX_INSTR_LEN * length ns) \<Longrightarrow> take k (drop text_at src) = take k ?T" by (simp add: at len)
  have "drop (strtab_at ns) src = drop (pad (MAX_INSTR_LEN * length ns)) (drop text_at src)"
    by (simp add: strtab_at_def add.commute)
  then have at2: "drop (strtab_at ns) src = ?S @ ?Y @ ?R" by (simp add: at len)
  then show "k \<le> pad (measure_strtab w ns ub sb) \<Longrightarrow> take k (drop (strtab_at ns) src) = take k ?S" by (simp add: len)
  have "drop (symtab_at ns ub sb w) src = drop (pad (measure_strtab w ns ub sb)) (drop (strtab_at ns) src)"
    by (simp add: symtab_at_def add.commute)
  then have at3: "drop (symtab_at ns ub sb w) src = ?Y @ ?R" by (simp add: at2 len)
  then show "take (ELF64_SYM * measure_symtab ns ub sb) (drop (symtab_at ns ub sb w) src) = ?Y" using Y by simp
  have "drop (rela_at ns ub sb w) src = drop (ELF64_SYM * measure_symtab ns ub sb) (drop (symtab_at ns ub sb w) src)"
    by (simp add: rela_at_def add.commute)
  then show "drop (rela_at ns ub sb w) src = ?R" using Y by (simp add: at3)
  show "length src = rela_at ns ub sb w + ELF64_RELA * length (file_relas junk_sym junk ns ub sb w)"
    unfolding src length_append [of ?A] using front N len Y R
    by (simp add: file_positions del: length_concat length_map map_map)
qed

lemma written_headers:
  fixes w :: "'s world"
  assumes "hs = file_headers junk_sym junk ns ub sb w"
  shows "map sh_name hs = [0, 1, 11, 17, 25, 33, 38]"
    "map sh_type hs = [SHT_NULL, SHT_STRTAB, SHT_PROGBITS, SHT_STRTAB, SHT_SYMTAB, SHT_NOBITS, SHT_RELA]"
    "map sh_offset hs = [0, 512, of_nat text_at, of_nat (strtab_at ns), of_nat (symtab_at ns ub sb w),
       of_nat (rela_at ns ub sb w), of_nat (rela_at ns ub sb w)]"
    "map sh_size hs = [0, 49, of_nat (length (program_code ns)), of_nat (measure_strtab w ns ub sb),
       of_nat (ELF64_SYM * measure_symtab ns ub sb), bss_size sb w,
       of_nat (ELF64_RELA * length (file_relas junk_sym junk ns ub sb w))]"
    "map sh_entsize hs = [0, 0, 0, 0, of_nat ELF64_SYM, 0, of_nat ELF64_RELA]"
    "sh_link (hs ! 4) = 3" "sh_link (hs ! 6) = 4" "sh_info (hs ! 6) = 2" "length hs = 7"
  unfolding assms
  by (simp_all add: file_headers_def section_headers_def Let_def undef_shdr_def shstrtab_shdr_def text_shdr_def
      strtab_shdr_def symtab_shdr_def bss_shdr_def rela_shdr_def SHSTRTAB_sizes elf_sizes SH_COUNT_def file_positions
      mult.commute)

lemma written_small:
  assumes ok: "linked_program ns ub sb w" and R: "R \<le> length ns"
  shows "rela_at ns ub sb w + ELF64_RELA * R < 2 ^ 31" "ELF64_SYM * measure_symtab ns ub sb < 2 ^ 31"
    "ELF64_RELA * R < 2 ^ 31" "measure_strtab w ns ub sb < 2 ^ 31" "length (program_code ns) < 2 ^ 31"
    "symtab_at ns ub sb w < 2 ^ 31" "strtab_at ns < 2 ^ 31" "rela_at ns ub sb w < 2 ^ 31"
proof -
  have sum: "1024 + MAX_INSTR_LEN * length ns + measure_strtab w ns ub sb + ELF64_SYM * measure_symtab ns ub sb +
       ELF64_RELA * MAX_INSTR_FIELDS * length ns < 2 ^ 31" using ok by (simp add: linked_program_def)
  have p1: "pad (MAX_INSTR_LEN * length ns) < MAX_INSTR_LEN * length ns + 8"
    and p2: "pad (measure_strtab w ns ub sb) < measure_strtab w ns ub sb + 8"
    using pad_facts(2) [of "MAX_INSTR_LEN * length ns"] pad_facts(2) [of "measure_strtab w ns ub sb"] sum by simp_all
  have r: "ELF64_RELA * R \<le> ELF64_RELA * MAX_INSTR_FIELDS * length ns"
    using R by (simp add: MAX_INSTR_FIELDS_def)
  show *: "rela_at ns ub sb w + ELF64_RELA * R < 2 ^ 31"
    using sum p1 p2 r unfolding file_positions by linarith
  show "ELF64_SYM * measure_symtab ns ub sb < 2 ^ 31" "ELF64_RELA * R < 2 ^ 31" "measure_strtab w ns ub sb < 2 ^ 31"
      "symtab_at ns ub sb w < 2 ^ 31" "strtab_at ns < 2 ^ 31" "rela_at ns ub sb w < 2 ^ 31"
    using * sum unfolding file_positions by linarith+
  show "length (program_code ns) < 2 ^ 31" using written_lengths(6) [OF ok] sum by linarith
qed

lemma unat_small: "n < 2 ^ 31 \<Longrightarrow> unat (of_nat n :: u64) = n"
  by (simp add: unat_of_nat)

lemma written_sections:
  assumes ok: "linked_program ns ub sb w" and src: "src = file_bytes junk_sym junk junk' ns ub sb w"
  shows "section_bytes src 1 = map byte_of SHSTRTAB" "section_bytes src 2 = program_code ns"
    "section_bytes src 3 = 0 # entry_strings (all_entries ns ub sb w)"
    "section_bytes src 4 = concat (map sym_bytes (file_symbols junk_sym junk ns ub sb w))"
    "section_bytes src 6 = concat (map rela_bytes (file_relas junk_sym junk ns ub sb w))"
proof -
  let ?hs = "file_headers junk_sym junk ns ub sb w"
  note hs = written_headers [OF refl, of junk_sym junk ns ub sb w]
  note small = written_small [OF ok written_lengths(4) [OF ok, of junk_sym junk]]
  note parts = written_parts [OF ok src]
  have size: "sh_size (?hs ! i) = map sh_size ?hs ! i" "sh_offset (?hs ! i) = map sh_offset ?hs ! i" if "i < 7" for i
    using that hs(9) by simp_all
  have sb: "section_bytes src i = take (unat (map sh_size ?hs ! i)) (drop (unat (map sh_offset ?hs ! i)) src)" if "i < 7" for i
    using that by (simp add: section_bytes_def src written_shdr size Let_def del: nth_map)
  show "section_bytes src 1 = map byte_of SHSTRTAB" using parts(1) by (simp add: sb hs)
  have t: "take (length (program_code ns)) (file_text ns) = program_code ns" by (simp add: file_text_def)
  show "section_bytes src 2 = program_code ns"
    using parts(2) [OF written_lengths(5) [OF ok]] small by (simp add: sb hs unat_small t text_at_def)
  have "measure_strtab w ns ub sb \<le> pad (measure_strtab w ns ub sb)" using small(4) by (intro pad_facts) simp
  from parts(3) [OF this] show "section_bytes src 3 = 0 # entry_strings (all_entries ns ub sb w)"
    using final_tables_facts(4) [OF ok refl, of junk_sym junk] small by (simp add: sb hs unat_small)
  show "section_bytes src 4 = concat (map sym_bytes (file_symbols junk_sym junk ns ub sb w))"
    using parts(4) small by (simp add: sb hs unat_small del: of_nat_mult)
  have "length (concat (map rela_bytes (file_relas junk_sym junk ns ub sb w))) =
      ELF64_RELA * length (file_relas junk_sym junk ns ub sb w)"
    using rela.table_length [of "file_relas junk_sym junk ns ub sb w"] by (simp add: list_all_iff)
  then show "section_bytes src 6 = concat (map rela_bytes (file_relas junk_sym junk ns ub sb w))"
    using parts(5) small by (simp add: sb hs unat_small del: length_concat of_nat_mult)
qed

context codec
begin

lemma table_of_concat:
  assumes "list_all valid xs" "0 < width"
  shows "table_entries dec width (concat (map enc xs)) = xs"
proof (rule nth_equalityI)
  show len: "length (table_entries dec width (concat (map enc xs))) = length xs"
    using assms by (simp add: table_length del: length_concat)
  fix i assume "i < length (table_entries dec width (concat (map enc xs)))"
  with len have i: "i < length xs" by simp
  then have "valid (xs ! i)" using assms(1) by (simp add: list_all_length)
  then show "table_entries dec width (concat (map enc xs)) ! i = xs ! i"
    using table_slice [OF assms(1) i, of "[]"] i len by (simp add: table_entries_def dec_enc_exact del: length_concat)
qed

end

lemma written_tables:
  assumes ok: "linked_program ns ub sb w" and src: "src = file_bytes junk_sym junk junk' ns ub sb w" and sec: "sec < 7"
  shows "source_syms src sec = (if sec = 4 then file_symbols junk_sym junk ns ub sb w else [])"
    "source_relas src sec = (if sec = 6 then file_relas junk_sym junk ns ub sb w else [])"
proof -
  let ?hs = "file_headers junk_sym junk ns ub sb w"
  note hs = written_headers [OF refl, of junk_sym junk ns ub sb w]
  have ty: "sh_type (source_shdr src sec) = map sh_type ?hs ! sec" using sec hs(9) by (simp add: src written_shdr)
  have secs: "sec \<in> {0, 1, 2, 3, 4, 5, 6}" using sec by auto
  show "source_syms src sec = (if sec = 4 then file_symbols junk_sym junk ns ub sb w else [])"
    using secs elf_sym.table_of_concat [of "file_symbols junk_sym junk ns ub sb w"]
    by (auto simp: source_syms_def syms_in_def ty hs section_types written_sections [OF ok src] list_all_iff elf_sizes)
  show "source_relas src sec = (if sec = 6 then file_relas junk_sym junk ns ub sb w else [])"
    using secs rela.table_of_concat [of "file_relas junk_sym junk ns ub sb w"]
    by (auto simp: source_relas_def relas_in_def ty hs section_types written_sections [OF ok src] list_all_iff elf_sizes)
qed

section \<open>Written files load\<close>

definition refers_to :: "(addr \<Rightarrow> nat option) \<Rightarrow> Elf64_Rela \<Rightarrow> bool" where
  "refers_to c r \<longleftrightarrow> (\<exists>i \<in> ran c. r_info r = ELF64_R_INFO (of_nat i) R_X86_64_64 \<or>
     r_info r = ELF64_R_INFO (of_nat i) R_X86_64_PC32)"

lemma reference_entry:
  "reference_ok P w e \<Longrightarrow> \<forall>b. P b \<longrightarrow> b \<in> dom c \<Longrightarrow> \<exists>i \<in> ran c. index_of w c e = of_nat i"
  by (fastforce simp: reference_ok_def index_of_def ran_def split: expr.splits option.splits)

lemma operand_refers:
  assumes "operand_ok P w k e" "\<forall>b. P b \<longrightarrow> b \<in> dom c" "k \<in> {Displacement, Address}" "r \<in> set (operand_relas w c p e)"
  shows "refers_to c r"
proof (cases "k = Address")
  case True
  then have "operand_ok P w Address e" using assms(1) by simp
  then show ?thesis using assms(4)
    by (cases rule: address_okE) (auto simp: operand_relas_def refers_to_def dest!: reference_entry [OF _ assms(2)])
next
  case False
  then have "operand_ok P w Displacement e" using assms(1,3) by simp
  then show ?thesis using assms(4)
    by (cases rule: displacement_okE) (auto simp: operand_relas_def refers_to_def dest!: reference_entry [OF _ assms(2)])
qed

lemma relas_refer:
  assumes "instruction_ok P w n" "\<forall>b. P b \<longrightarrow> b \<in> dom c" "r \<in> set (relas_of w c p n)"
  shows "refers_to c r"
  using assms(1)
proof (cases rule: instruction_okE)
  case (Lea a x y z)
  show ?thesis by (rule operand_refers [OF Lea(2) assms(2)]) (use assms(3) in \<open>auto simp: Lea relas_of_def opcode_defs\<close>)
next
  case (Load a x y z)
  show ?thesis by (rule operand_refers [OF Load(2) assms(2)]) (use assms(3) in \<open>auto simp: Load relas_of_def opcode_defs\<close>)
next
  case (Store a x y z)
  show ?thesis by (rule operand_refers [OF Store(3) assms(2)]) (use assms(3) in \<open>auto simp: Store relas_of_def opcode_defs\<close>)
next
  case (Jmp a x)
  show ?thesis by (rule operand_refers [OF Jmp(2) assms(2)]) (use assms(3) in \<open>auto simp: Jmp relas_of_def opcode_defs\<close>)
next
  case (Je a x)
  show ?thesis by (rule operand_refers [OF Je(2) assms(2)]) (use assms(3) in \<open>auto simp: Je relas_of_def opcode_defs\<close>)
next
  case (Mov_imm a x y)
  show ?thesis by (rule operand_refers [OF Mov_imm(2) assms(2)]) (use assms(3) in \<open>auto simp: Mov_imm relas_of_def opcode_defs\<close>)
qed (use assms(3) in \<open>auto simp: relas_of_def opcode_defs\<close>)

lemma program_relas_refer:
  "list_all (instruction_ok P w) ns \<Longrightarrow> \<forall>b. P b \<longrightarrow> b \<in> dom c \<Longrightarrow> r \<in> set (program_relas w c p ns) \<Longrightarrow> refers_to c r"
  by (induction ns arbitrary: p) (auto dest: relas_refer)

lemma refers_toE:
  assumes "refers_to c r" "ran c \<subseteq> {1..<n}" "n < 2 ^ 31"
  shows "unat (ELF64_R_SYM (r_info r)) < n" "addend_width (ELF64_R_TYPE (r_info r)) = Some (field_width r)"
    "writes_field (ELF64_R_TYPE (r_info r))"
proof -
  from assms obtain i ty where i: "i < n" "r_info r = ELF64_R_INFO (of_nat i) ty" "ty = R_X86_64_64 \<or> ty = R_X86_64_PC32"
    by (fastforce simp: refers_to_def)
  have t: "take_bit 32 ty = ty" using i(3) by (auto simp: relocation_types)
  have f: "ELF64_R_SYM (r_info r) = take_bit 32 (of_nat i)" "ELF64_R_TYPE (r_info r) = ty"
    unfolding i(2) R_SYM_INFO R_TYPE_INFO t by simp_all
  have "unat (take_bit 32 (of_nat i) :: u64) = i"
    using i(1) assms(3) by (simp add: unsigned_take_bit_eq unat_of_nat take_bit_nat_eq_self)
  then show "unat (ELF64_R_SYM (r_info r)) < n" unfolding f using i(1) by simp
  show *: "addend_width (ELF64_R_TYPE (r_info r)) = Some (field_width r)"
    using i(3) unfolding addend_width_def field_width_def f by (auto simp: relocation_types)
  show "writes_field (ELF64_R_TYPE (r_info r))"
    using i(3) * unfolding writes_field_def f by (auto simp: relocation_types)
qed

text \<open>Symbols of a written file lie in section 2 or 5, or are undefined.\<close>

lemma place_labels_shndx: "map st_shndx (snd (place_labels c p ns (w, symtab))) = map st_shndx symtab"
proof (induction ns arbitrary: p w symtab)
  case (Cons n ns)
  have "map st_shndx (symtab[i := (symtab ! i)\<lparr>st_value := v\<rparr>]) = map st_shndx symtab" for i v symtab
    by (cases "i < length symtab") (simp_all add: map_update list_update_same_conv list_update_beyond)
  with Cons show ?case by (auto split: option.splits)
qed simp

lemma entry_symbols_shndx: "map st_shndx (entry_symbols p es) = map ent_shndx es"
  by (induction es arbitrary: p) (auto simp: entry_symbol_def)

lemma static_entries_shndx: "e \<in> set (static_entries sel bd bs w p) \<Longrightarrow> ent_shndx e = 5"
  by (induction bs arbitrary: p) (auto split: if_splits simp: Let_def)

lemma label_entries_shndx: "e \<in> set (label_entries scp bd ns w) \<Longrightarrow> ent_shndx e = 2"
  by (induction ns) (auto split: if_splits option.splits expr.splits list.splits simp: Let_def)

lemma undefined_entries_shndx: "e \<in> set (undefined_entries bs w) \<Longrightarrow> ent_shndx e = SHN_UNDEF"
  by (induction bs) (auto split: if_splits)

lemma file_symbols_shndx:
  assumes "linked_program ns ub sb w"
  shows "st_shndx ` set (file_symbols junk_sym junk ns ub sb w) \<subseteq> {0, 2, 5}"
proof -
  have "map st_shndx (file_symbols junk_sym junk ns ub sb w) = SHN_UNDEF # map ent_shndx (all_entries ns ub sb w)"
    by (simp add: file_symbols_def placed_def Let_def place_labels_shndx final_tables_facts(3) [OF assms refl]
        entry_symbols_shndx null_symbol_def)
  then have "st_shndx ` set (file_symbols junk_sym junk ns ub sb w) = insert SHN_UNDEF (ent_shndx ` set (all_entries ns ub sb w))"
    by (metis list.set_map list.simps(15))
  moreover have "ent_shndx e \<in> {0, 2, 5}" if "e \<in> set (all_entries ns ub sb w)" for e
    using that undefined_entries_shndx [unfolded SHN_UNDEF_def]
    by (auto simp: all_entries_def local_entries_def global_entries_def local_statics_def global_statics_def
        dest: static_entries_shndx label_entries_shndx)
  ultimately show ?thesis by (auto simp: SHN_UNDEF_def)
qed

lemma less_7: "sec < (7 :: nat) \<longleftrightarrow> sec \<in> {0, 1, 2, 3, 4, 5, 6}"
  by auto

lemma ident_valid: "valid_ident ident_bytes"
  by (simp add: valid_ident_def ident_bytes_def elf_ident_constants EI_NIDENT_def upt_rec)

lemma written_relas:
  assumes ok: "linked_program ns ub sb w" and r: "r \<in> set (file_relas junk_sym junk ns ub sb w)"
  shows "unat (ELF64_R_SYM (r_info r)) < measure_symtab ns ub sb"
    "addend_width (ELF64_R_TYPE (r_info r)) = Some (field_width r)"
    "unat (r_offset r) + field_width r \<le> length (program_code ns)"
proof -
  let ?c = "contexts (final_tables junk_sym junk ns ub sb w)"
  have ctx: "?c = entry_contexts 1 (all_entries ns ub sb w) (\<lambda>b. None)" by (rule final_tables_facts(5) [OF ok refl])
  let ?P = "\<lambda>b. b \<in> set ub \<or> b \<in> set sb \<or> b \<in> set (label_bindings w ns)"
  have ins: "list_all (instruction_ok ?P w) ns" using ok by (simp add: linked_program_def)
  have dom: "\<forall>b. ?P b \<longrightarrow> b \<in> dom ?c" unfolding ctx dom_entry_contexts all_entries_fill(3) [OF ok] by auto
  have ran: "ran ?c \<subseteq> {1..<measure_symtab ns ub sb}" unfolding ctx by (rule contexts_of_program(2) [OF ok])
  have small: "measure_symtab ns ub sb < 2 ^ 31" using ok by (simp add: linked_program_def elf_sizes)
  have r': "r \<in> set (program_relas w ?c 0 ns)" using r by (simp add: file_relas_def)
  note to = refers_toE [OF program_relas_refer [OF ins dom r'] ran small]
  show "unat (ELF64_R_SYM (r_info r)) < measure_symtab ns ub sb" "addend_width (ELF64_R_TYPE (r_info r)) = Some (field_width r)"
    by (fact to(1), fact to(2))
  from program_relas_site [OF ins r'] obtain xs ys where
    s: "program_code ns = xs @ replicate (field_width r) 0 @ ys" "r_offset r = of_nat (length xs)" by auto
  have "length (program_code ns) < 2 ^ 31" by (rule written_small(5) [OF ok le_refl])
  then have "length xs < 2 ^ 31" using s(1) by simp
  then show "unat (r_offset r) + field_width r \<le> length (program_code ns)" unfolding s by (simp add: unat_small)
qed

lemma written_loadable:
  assumes ok: "linked_program ns ub sb w" and src: "src = file_bytes junk_sym junk junk' ns ub sb w"
  shows "loadable src"
proof -
  let ?hs = "file_headers junk_sym junk ns ub sb w"
  note hs = written_headers [OF refl, of junk_sym junk ns ub sb w]
  note small = written_small [OF ok written_lengths(4) [OF ok, of junk_sym junk]]
  note pos = file_positions
  have n7: "section_count src = 7" by (simp add: src written_header(2))
  have at: "source_shdr src sec = ?hs ! sec" if "sec < 7" for sec using that by (simp add: src written_shdr)
  have fld: "sh_type (?hs ! i) = map sh_type ?hs ! i" "sh_size (?hs ! i) = map sh_size ?hs ! i"
    "sh_offset (?hs ! i) = map sh_offset ?hs ! i" "sh_entsize (?hs ! i) = map sh_entsize ?hs ! i" if "i < 7" for i
    using that hs(9) by simp_all
  have len: "length src = rela_at ns ub sb w + ELF64_RELA * length (file_relas junk_sym junk ns ub sb w)"
    by (rule written_parts(6) [OF ok src])
  have big: "568 \<le> length src" by (simp add: len pos)
  have code: "text_at + length (program_code ns) \<le> strtab_at ns"
    using written_lengths(5) [OF ok] by (simp add: strtab_at_def)
  have strs: "strtab_at ns + measure_strtab w ns ub sb \<le> symtab_at ns ub sb w"
    using pad_facts(1) [of "measure_strtab w ns ub sb"] small(4) by (simp add: symtab_at_def)
  have order: "strtab_at ns \<le> symtab_at ns ub sb w" "symtab_at ns ub sb w + ELF64_SYM * measure_symtab ns ub sb = rela_at ns ub sb w"
    by (simp_all add: symtab_at_def rela_at_def)
  have "section_ok src sec" if "sec < 7" for sec
  proof -
    have p: "shdr_pos src sec + ELF64_SHDR \<le> length src"
      using that big by (simp add: src written_header elf_sizes)
    have t: "table_ok (?hs ! sec)"
      using that small fld [OF that] unfolding less_7
      by (auto simp: table_ok_def entry_width_def hs section_types unat_small elf_sizes simp del: of_nat_mult)
    have "sh_type (?hs ! sec) = SHT_NOBITS \<or> unat (sh_offset (?hs ! sec)) + unat (sh_size (?hs ! sec)) \<le> length src"
      using that small fld [OF that] code strs order len big unfolding less_7
      by (auto simp: hs unat_small text_at_def simp del: of_nat_mult)
    with p t show ?thesis by (simp add: section_ok_def at [OF that])
  qed
  then have "source_ok src"
    using big ident_valid by (auto simp: source_ok_def src written_header file_header_def list_all_iff elf_sizes)
  moreover have "links_ok src sec" if "sec < 7" for sec
  proof -
    have syms: "list_all (sym_ok 7) (file_symbols junk_sym junk ns ub sb w)"
      using file_symbols_shndx [OF ok, of junk_sym junk] by (fastforce simp: list_all_iff sym_ok_def)
    have "link_ok src (?hs ! 6) r" if r: "r \<in> set (file_relas junk_sym junk ns ub sb w)" for r
      using written_relas [OF ok r] small fld [of 2] written_lengths(1) [OF ok, of junk_sym junk]
      by (simp add: link_ok_def hs written_tables [OF ok src] at unat_small)
    moreover have "is_rel (?hs ! sec) \<Longrightarrow> sec = 6"
      using that fld(1) [OF that] unfolding less_7 by (auto simp: is_rel_def hs section_types)
    ultimately show ?thesis using syms that at [OF that]
      by (auto simp: links_ok_def n7 written_tables [OF ok src] hs Let_def list_all_iff)
  qed
  ultimately show ?thesis by (simp add: loadable_def list_all_iff n7)
qed

lemma written_requests:
  assumes ok: "linked_program ns ub sb w" and src: "src = file_bytes junk_sym junk junk' ns ub sb w"
  shows "read_requests src = [48, 64, 448, 56, 56, 56, 56, 0, 49, of_nat (length (program_code ns)),
    of_nat (measure_strtab w ns ub sb), of_nat (ELF64_SYM * measure_symtab ns ub sb), of_nat (measure_symtab ns ub sb) * 24,
    bss_size sb w, of_nat (ELF64_RELA * length (file_relas junk_sym junk ns ub sb w)),
    of_nat (length (file_relas junk_sym junk ns ub sb w)) * 24]"
proof -
  let ?hs = "file_headers junk_sym junk ns ub sb w"
  note hs = written_headers [OF refl, of junk_sym junk ns ub sb w]
  note small = written_small [OF ok written_lengths(4) [OF ok, of junk_sym junk]]
  have at: "source_shdr src sec = ?hs ! sec" if "sec < 7" for sec using that by (simp add: src written_shdr)
  have fld: "sh_type (?hs ! i) = map sh_type ?hs ! i" "sh_size (?hs ! i) = map sh_size ?hs ! i" if "i < 7" for i
    using that hs(9) by simp_all
  have n7: "section_count src = 7" by (simp add: src written_header(2))
  have none: "section_requests (?hs ! i) = [map sh_size ?hs ! i]" if "i < 7" "i \<noteq> 4" "i \<noteq> 6" for i
    using that(2,3) fld [OF that(1)] that(1) unfolding less_7
    by (elim insertE emptyE) (simp_all add: section_requests_def entry_width_def hs section_types)
  have four: "section_requests (?hs ! 4) = [of_nat (ELF64_SYM * measure_symtab ns ub sb), of_nat (measure_symtab ns ub sb) * 24]"
    using fld [of 4] small(2) by (simp add: section_requests_def entry_width_def entry_count_def hs section_types
        unat_small elf_sizes del: of_nat_mult)
  have six: "section_requests (?hs ! 6) = [of_nat (ELF64_RELA * length (file_relas junk_sym junk ns ub sb w)),
      of_nat (length (file_relas junk_sym junk ns ub sb w)) * 24]"
    using fld [of 6] small(3) by (simp add: section_requests_def entry_width_def entry_count_def hs section_types
        unat_small elf_sizes del: of_nat_mult)
  have "[0..<7] = [0, 1, 2, 3, 4, 5, 6 :: nat]" by (simp add: upt_rec)
  then show ?thesis
    by (simp add: read_requests_def header_requests_def n7 Let_def at none four six hs elf_sizes del: of_nat_mult)
qed

lemma nth_7: "[0..<7] = [0, 1, 2, 3, 4, 5, 6 :: nat]"
  by (simp add: upt_rec)

text \<open>C11. The file that \<open>write_elf\<close> makes of a linked program can be loaded:
the loaded object has the symbols and relocations of the program, with addresses for offsets,
and its text segment is the code of the program with the relocations applied.\<close>

lemma written_object_loads:
  assumes ok: "linked_program ns ub sb w"
    and wr: "(write_elf junk_sym junk junk' ns ub sb w :: ('e, _) outcome) = Ret (file, p, w')"
    and s: "ginv reg s" "all_served (galloc mmap reg) (gcan mmap reg) (read_requests (take p file)) s"
  shows "\<exists>obj img m' s'. (load (galloc mmap reg) (take p file) (m, s) :: ('x, _) evaluation) = Ret (obj, m', s') \<and>
    do_relocations obj img = (Ret m' :: ('x, _) evaluation) \<and> relocatable obj \<and>
    length (segs obj) = 7 \<and> segments_disjoint (take p file) (segs obj) \<and>
    get_bytes img (segs obj ! 2) (length (program_code ns)) = program_code ns \<and>
    obj_syms obj ! 4 = map (loaded_sym (segs obj)) (snd (placed junk_sym junk ns ub sb w)) \<and>
    obj_relas obj ! 6 = map (\<lambda>r. r\<lparr>r_offset := segs obj ! 2 + r_offset r\<rparr>) (file_relas junk_sym junk ns ub sb w) \<and>
    addends obj ! 6 = map r_addend (file_relas junk_sym junk ns ub sb w)"
proof -
  let ?hs = "file_headers junk_sym junk ns ub sb w"
  obtain src where src: "src = file_bytes junk_sym junk junk' ns ub sb w" "take p file = src"
    using write_elf_in_bounds [OF ok, of junk_sym junk junk', where ?'e = 'e] wr by auto
  note ld = written_loadable [OF ok src(1)]
  from ru.load_result [OF ld s [unfolded src(2)], of m] obtain bases img s' where
    l: "(load (galloc mmap reg) src (m, s) :: ('x, _) evaluation) =
      Ret (loaded_object src bases img, write_runs (object_writes (loaded_object src bases img)) img, s')"
    and b: "bases_ok src bases" "image_of src bases img" "segments_disjoint src bases" by blast
  note rel = loaded_relocatable [OF ld b(1), of img]
  have n7: "section_count src = 7" by (simp add: src written_header(2))
  have h: "source_shdr src sec = ?hs ! sec" if "sec < 7" for sec using that by (simp add: src written_shdr)
  note hs = written_headers [OF refl, of junk_sym junk ns ub sb w]
  have ty: "sh_type (?hs ! 2) = SHT_PROGBITS" "sh_size (?hs ! 2) = of_nat (length (program_code ns))" "sh_type (?hs ! 6) = SHT_RELA"
    using hs(2,4,9) by (simp_all add: file_headers_def section_headers_def Let_def text_shdr_def rela_shdr_def)
  note small = written_small [OF ok le_refl]
  have code: "get_bytes img (bases ! 2) (length (program_code ns)) = program_code ns"
    using b(2) unfolding image_of_def n7
    by (drule_tac x = 2 in spec) (simp add: h ty written_sections [OF ok src(1)] section_types unat_small [OF small(5)])
  note tabs = written_tables [OF ok src(1)]
  have syms: "obj_syms (loaded_object src bases img) ! 4 = map (loaded_sym bases) (snd (placed junk_sym junk ns ub sb w))"
    by (simp add: n7 tabs file_symbols_def)
  have relas: "obj_relas (loaded_object src bases img) ! 6 =
      map (\<lambda>r. r\<lparr>r_offset := bases ! 2 + r_offset r\<rparr>) (file_relas junk_sym junk ns ub sb w)"
    by (simp add: n7 tabs h loaded_rela_def hs)
  have adds: "addends (loaded_object src bases img) ! 6 = map r_addend (file_relas junk_sym junk ns ub sb w)"
    by (simp add: loaded_object_def Let_def n7 tabs h ty stored_addend_def loaded_rela_def comp_def)
  show ?thesis unfolding src(2)
    using l b rel code syms relas adds do_relocations_writes [OF rel, of img, where ?'e = "'x evaluate_error"] n7
    by (intro exI [of _ "loaded_object src bases img"] exI [of _ img] exI [of _ s'] exI conjI)
      (simp_all add: bases_ok_def)
qed

definition small_file :: "byte list" where
  "small_file = file_bytes (\<lambda>i. small_symbol) (\<lambda>i. 1) (\<lambda>i. 1) small_program [] [200, 201] static_world"

lemma small_sizes:
  "length (program_code small_program) = 9" "measure_strtab static_world small_program [] [200, 201] = 6"
  "measure_symtab small_program [] [200, 201] = 4" "bss_size [200, 201] static_world = 24"
  "length (file_relas junk_sym junk small_program [] [200, 201] static_world) = 1"
proof -
  show "length (program_code small_program) = 9"
    by (simp add: small_program_def code_of_def insn_of_def opcode_defs static_of_def reg_of_def register_defs
        direct_def program_code_def)
  show "measure_strtab static_world small_program [] [200, 201] = 6"
    by (simp add: measure_strtab_def small_program_def is_label_def opcode_defs static_world_def small_world_def
        name_size_def label_name_def label_ref_def)
  show "measure_symtab small_program [] [200, 201] = 4"
    by (simp add: measure_symtab_def small_program_def is_label_def opcode_defs)
  show "bss_size [200, 201] static_world = 24"
    by (simp add: bss_size_def entries_size_def local_statics_def global_statics_def static_world_def small_world_def
        pad_size_def WORD_SIZE_def Let_def)
  show "length (file_relas junk_sym junk small_program [] [200, 201] static_world) = 1"
    by (simp add: file_relas_def small_program_def relas_of_def opcode_defs operand_relas_def)
qed

lemma small_requests:
  "read_requests small_file = [48, 64, 448, 56, 56, 56, 56, 0, 49, 9, 6, 96, 96, 24, 24, 24]"
  unfolding written_requests [OF static_world_linked small_file_def] small_sizes by (simp add: elf_sizes)

lemma small_served: "all_served (galloc bump_mmap 0x10000) (gcan bump_mmap 0x10000) (read_requests small_file)
   ([0x10000], [], snd (create_region bump_mmap 0 boot_state))"
  unfolding small_requests by (simp add: region_eval)

lemma small_ginv: "ginv 0x10000 ([0x10000], [], snd (create_region bump_mmap 0 boot_state))"
  using create_region_inv [OF _ granted created] by (simp add: ginv_def)

lemma written_object_loads_witness:
  "\<exists>obj m' s'. (load (galloc bump_mmap 0x10000) small_file
      (\<lambda>a. 0, [0x10000], [], snd (create_region bump_mmap 0 boot_state)) :: (nat, _) evaluation) = Ret (obj, m', s') \<and>
    obj_relas obj ! 6 = [\<lparr>r_offset = segs obj ! 2 + 1, r_info = ELF64_R_INFO 2 R_X86_64_PC32, r_addend = - 4\<rparr>]"
proof -
  obtain img p w' where r: "(write_elf (\<lambda>i. small_symbol) (\<lambda>i. 1) (\<lambda>i. 1) small_program [] [200, 201] static_world
        :: (nat, _) outcome) = Ret (img, p, w')" "take p img = small_file"
    using write_elf_in_bounds [OF static_world_linked, where ?'e = nat, of "\<lambda>i. small_symbol" "\<lambda>i. 1" "\<lambda>i. 1"]
    by (auto simp: small_file_def)
  have "file_relas junk_sym junk small_program [] [200, 201] static_world =
      [\<lparr>r_offset = 1, r_info = ELF64_R_INFO 2 R_X86_64_PC32, r_addend = - 4\<rparr>]" for junk_sym junk
    apply (simp add: with_entries_def all_entries_def local_entries_def local_statics_def is_label_def initial_tables_def binding_of_def label_binding_def global_entries_def global_statics_def file_relas_def small_program_def relas_of_def opcode_defs operand_relas_def code_of_def insn_of_def
      index_of_def small_world_def static_world_def final_tables_def)
    done
  then show ?thesis
    using written_object_loads [OF static_world_linked r(1) small_ginv small_served [folded r(2)],
        of "\<lambda>a. 0", where ?'x = nat] unfolding r(2) by fastforce
qed

end
