(* ===== verification/Linked_Addresses.thy ===== *)
theory Linked_Addresses
  imports Object_Files
begin

text \<open>
  What the linked program sees: the segments that \<open>segment\<close> finds in a loaded file of \<open>write_elf\<close>, and
  that \<open>binding_aug_offsets_to_addresses\<close> gives every binding the address of its loaded symbol.
\<close>

section \<open>Moving offsets\<close>

lemma fold_move_fields [simp]:
  "nodes (fold (move_binding base) bs w) = nodes w"
  "aug_type (augs (fold (move_binding base) bs w) b) = aug_type (augs w b)"
  "state (augs (fold (move_binding base) bs w) b) = state (augs w b)"
  by (induction bs arbitrary: w) (auto simp: move_binding_def)

lemma fold_move_other: "b \<notin> set bs \<Longrightarrow> offset (augs (fold (move_binding base) bs w) b) = offset (augs w b)"
  by (induction bs arbitrary: w) (auto simp: move_binding_def)

lemma fold_move_offset:
  "distinct bs \<Longrightarrow> b \<in> set bs \<Longrightarrow> offset (augs (fold (move_binding base) bs w) b) = offset (augs w b) + base"
  by (induction bs arbitrary: w) (auto simp: fold_move_other, auto simp: move_binding_def)

lemma move_statics:
  assumes "segment m obj bss_name = (Ret base :: ('e, _) outcome)"
    and "list_all (\<lambda>b. aug_type (augs w b) = absolute_storage \<and> state (augs w b) = defined_state) sb"
  shows "for_each (move_static m obj bss_name) sb w = (Ret (fold (move_binding base) sb w) :: ('e, 's world) outcome)"
  using assms(2)
proof (induction sb arbitrary: w)
  case (Cons b sb)
  have "list_all (\<lambda>c. aug_type (augs (move_binding base b w) c) = absolute_storage \<and>
      state (augs (move_binding base b w) c) = defined_state) sb"
    using Cons.prems by (auto simp: move_binding_def list_all_iff)
  with Cons show ?case by (simp add: move_static_def assms(1))
qed simp

lemma move_labels:
  assumes "segment m obj text_name = (Ret base :: ('e, _) outcome)" "list_all (instruction_ok P w) ns"
    and "nodes w' = nodes w"
  shows "for_each (move_label m obj text_name) ns w' =
    (Ret (fold (move_binding base) (label_bindings w ns) w') :: ('e, 's world) outcome)"
  using assms(2,3)
proof (induction ns arbitrary: w')
  case (Cons n ns)
  then have n: "instruction_ok P w n" by simp
  show ?case
  proof (cases "is_label n")
    case True
    with label_shape(1) [OF n] obtain a c nm b where
      l: "n = Assembly a LABEL [Symbol c nm]" "symbol_aug (nodes w c) = Some b" "label_binding w n = Some b" by blast
    have "move_label m obj text_name n w' = (Ret (move_binding base b w') :: ('e, _) outcome)"
      using True by (simp add: move_label_def l nth_arg_def binding_of_def Cons.prems(2) assms(1))
    moreover have "nodes (move_binding base b w') = nodes w" using Cons.prems by (simp add: move_binding_def)
    ultimately show ?thesis using Cons l(3) by simp
  next
    case False
    then have "move_label m obj text_name n w' = (Ret w' :: ('e, _) outcome)" by (simp add: move_label_def)
    then show ?thesis using Cons label_shape(2) [OF n False] by simp
  qed
qed simp

lemma moved_bindings:
  assumes "segment m obj bss_name = (Ret bss :: ('e, _) outcome)" "segment m obj text_name = (Ret code :: ('e, _) outcome)"
    and "list_all (\<lambda>b. aug_type (augs w' b) = absolute_storage \<and> state (augs w' b) = defined_state) sb"
    and "list_all (instruction_ok P w) ns" "nodes w' = nodes w"
  shows "binding_aug_offsets_to_addresses m bss_name text_name ns sb obj w' = (Ret (fold (move_binding code)
    (label_bindings w ns) (fold (move_binding bss) sb w')) :: ('e, 's world) outcome)"
  using move_statics [OF assms(1,3)] move_labels [OF assms(2,4), of "fold (move_binding bss) sb w'"] assms(5)
  by (simp add: binding_aug_offsets_to_addresses_def)

section \<open>The segments of a loaded program\<close>

definition section_names :: "string list" where
  "section_names = ['''', ''.shstrtab'', ''.text'', ''.strtab'', ''.symtab'', ''.bss'', ''.rela.text'']"

lemma find_segment_result:
  assumes "list_all (\<lambda>sec. cstr m (names + ucast (sh_name (shdrs obj ! sec))) (nm sec)) secs" "cstr m name s"
    and "find (\<lambda>sec. nm sec = s) secs = Some k"
  shows "find_segment m names obj name secs = Ret (segs obj ! k)"
  using assms(1,3)
proof (induction secs)
  case (Cons sec secs)
  have "cstr m (names + ucast (sh_name (shdrs obj ! sec))) (nm sec)" using Cons.prems(1) by simp
  from strcmp_cstr [OF this assms(2)] obtain d where
    "strcmp m (names + ucast (sh_name (shdrs obj ! sec))) name = Some d" "d = 0 \<longleftrightarrow> nm sec = s" by blast
  with Cons show ?case by (auto split: if_splits)
qed simp

lemma section_name_strings:
  assumes "get_bytes m names 49 = map byte_of SHSTRTAB" "sec < 7"
  shows "cstr m (names + of_nat ([0, 1, 11, 17, 25, 33, 38] ! sec)) (section_names ! sec)"
proof -
  let ?p = "[0, 1, 11, 17, 25, 33, 38] ! sec" and ?s = "section_names ! sec"
  have "?p + Suc (length ?s) \<le> 49" and sl: "take (Suc (length ?s)) (drop ?p SHSTRTAB) = ?s @ [CHR 0x00]"
      and z: "CHR 0x00 \<notin> set ?s"
    using assms(2) unfolding less_7 by (auto simp: section_names_def SHSTRTAB_def)
  from get_bytes_part [OF this(1), of m names] have
    "get_bytes m (names + of_nat ?p) (Suc (length ?s)) = map byte_of (take (Suc (length ?s)) (drop ?p SHSTRTAB))"
    by (simp only: assms(1) take_map drop_map)
  then show ?thesis unfolding cstr_get_bytes sl using z by simp
qed

lemma written_relas_place:
  assumes ok: "linked_program ns ub sb w" and r: "r \<in> set (file_relas junk_sym junk ns ub sb w)"
  shows "unat (r_offset r) + the (addend_width (ELF64_R_TYPE (r_info r))) \<le> length (program_code ns)"
  using written_relas [OF ok r] by simp

lemma names_survive:
  assumes ok: "linked_program ns ub sb w" and src: "src = file_bytes junk_sym junk junk' ns ub sb w"
    and b: "bases_ok src bases" "image_of src bases img" "segments_disjoint src bases"
  shows "get_bytes (write_runs (object_writes (loaded_object src bases img)) img) (bases ! 1) 49 = map byte_of SHSTRTAB"
proof -
  let ?obj = "loaded_object src bases img" and ?hs = "file_headers junk_sym junk ns ub sb w"
  note rel = loaded_relocatable [OF written_loadable [OF ok src] b(1), of img]
  note hs = written_headers [OF refl, of junk_sym junk ns ub sb w]
  note small = written_small [OF ok le_refl]
  have n7: "section_count src = 7" by (simp add: src written_header(2))
  have h: "source_shdr src sec = ?hs ! sec" if "sec < 7" for sec using that by (simp add: src written_shdr)
  have ty: "sh_type (?hs ! 1) = SHT_STRTAB" "sh_size (?hs ! 1) = 49" "unat (sh_size (?hs ! 2)) = length (program_code ns)"
    using small(5) by (simp_all add: file_headers_def section_headers_def Let_def text_shdr_def shstrtab_shdr_def
        SHSTRTAB_sizes unat_small)
  have "get_bytes img (bases ! 1) 49 = map byte_of SHSTRTAB"
    using b(2) unfolding image_of_def n7
    by (drule_tac x = 1 in spec) (simp add: h ty written_sections [OF ok src] section_types del: One_nat_def)
  moreover have "write_runs (object_writes ?obj) img x = img x" if x: "x \<in> run_of (bases ! 1) 49" for x
  proof (rule write_runs_outside)
    fix a n assume "(a, n) \<in> set (run_sites (object_writes ?obj))"
    then have "(a, n) \<in> set (rela_sites (map (loaded_rela bases (?hs ! 6)) (file_relas junk_sym junk ns ub sb w)))"
      unfolding object_writes_sites [OF rel]
      by (auto simp: n7 written_tables [OF ok src] h section_count_def [symmetric] rela_sites_def split: if_splits)
    then obtain r where r: "r \<in> set (file_relas junk_sym junk ns ub sb w)" "a = bases ! 2 + r_offset r"
        "n = the (addend_width (ELF64_R_TYPE (r_info r)))"
      by (auto simp: rela_sites_def loaded_rela_def hs split: if_splits)
    have fit: "unat (r_offset r) + n \<le> unat (sh_size (source_shdr src 2))"
      using written_relas_place [OF ok r(1)] by (simp add: r(3) h ty)
    from in_segment_place [OF b(1) _ fit] have p: "unat a = unat (bases ! 2) + unat (r_offset r)"
      by (simp add: n7 r(2))
    have low: "unat (bases ! i) + unat (sh_size (source_shdr src i)) \<le> 2 ^ 47" if "i < 7" for i
      using b(1) that by (simp add: bases_ok_def n7)
    have "block_disjoint (unat (bases ! 2), unat (sh_size (source_shdr src 2))) (unat (bases ! 1), 49)"
      using b(3) unfolding segments_disjoint_def n7
      by (drule_tac x = 2 in spec) (auto simp: h ty simp del: One_nat_def dest: spec [of _ 1])
    then have "block_disjoint (unat a, n) (unat (bases ! 1), 49)" using fit p by auto
    from runs_disjoint [OF this] have "run_of a n \<inter> run_of (bases ! 1) 49 = {}"
      using low [of 1] low [of 2] fit p by (simp add: h ty del: One_nat_def)
    with x show "x \<notin> run_of a n" by blast
  qed
  ultimately show ?thesis by (metis get_bytes_cong)
qed

lemma written_segments:
  assumes ok: "linked_program ns ub sb w" and src: "src = file_bytes junk_sym junk junk' ns ub sb w"
    and m: "get_bytes m (bases ! 1) 49 = map byte_of SHSTRTAB" and len: "length bases = 7"
    and nm: "cstr m name (section_names ! k)" "k < 7"
  shows "segment m (loaded_object src bases img) name = (Ret (bases ! k) :: ('e, _) outcome)"
proof -
  let ?obj = "loaded_object src bases img"
  have eh: "e_shstrndx (source_ehdr src) = 1" "unat (e_shnum (source_ehdr src)) = 7"
    by (simp_all add: src written_header(1) file_header_def SH_COUNT_def)
  have n7: "section_count src = 7" by (simp add: src written_header(2))
  have "ucast (sh_name (shdrs ?obj ! sec)) = (of_nat ([0, 1, 11, 17, 25, 33, 38] ! sec) :: addr)" if "sec < 7" for sec
  proof -
    note hs = written_headers [OF refl, of junk_sym junk ns ub sb w]
    have "sh_name (source_shdr src sec) = map sh_name (file_headers junk_sym junk ns ub sb w) ! sec"
      using that hs(9) by (simp add: src written_shdr)
    then have "sh_name (shdrs ?obj ! sec) = [0, 1, 11, 17, 25, 33, 38] ! sec" using that by (simp add: n7 hs(1))
    then show ?thesis using that unfolding less_7 by auto
  qed
  then have "list_all (\<lambda>sec. cstr m (bases ! 1 + ucast (sh_name (shdrs ?obj ! sec))) (section_names ! sec)) [0..<7]"
    using section_name_strings [OF m] by (auto simp: list_all_iff)
  moreover have "find (\<lambda>sec. section_names ! sec = section_names ! k) [0..<7] = Some k"
    using nm(2) unfolding less_7 by (auto simp: section_names_def nth_7)
  ultimately have "find_segment m (bases ! 1) ?obj name [0..<7] = (Ret (segs ?obj ! k) :: ('e, _) outcome)"
    by (rule find_segment_result [OF _ nm(1)])
  then show ?thesis by (simp add: segment_def eh len SHN_UNDEF_def)
qed

section \<open>Offsets become the addresses of symbols\<close>

lemma entry_index:
  assumes "distinct (map ent_binding es)" "b \<in> ent_binding ` set es"
  shows "\<exists>k < length es. entry_contexts i es c b = Some (i + k) \<and> ent_binding (es ! k) = b"
proof -
  from assms(2) obtain k where "k < length es" "ent_binding (es ! k) = b" by (auto simp: in_set_conv_nth)
  with entry_contexts_nth [OF assms(1) this(1), of i c] show ?thesis by auto
qed

lemma entry_index_inj:
  assumes "distinct (map ent_binding es)"
  shows "inj_on (entry_contexts i es c) (ent_binding ` set es)"
proof (rule inj_onI)
  fix a b assume "a \<in> ent_binding ` set es" "b \<in> ent_binding ` set es" "entry_contexts i es c a = entry_contexts i es c b"
  with entry_index [OF assms, of a i c] entry_index [OF assms, of b i c] show "a = b" by auto
qed

lemma all_entries_distinct:
  assumes ok: "linked_program ns ub sb w" and dist: "distinct (ub @ sb @ label_bindings w ns)"
  shows "distinct (map ent_binding (all_entries ns ub sb w))"
proof (rule card_distinct)
  note fill = all_entries_fill [OF ok]
  have labels: "length (filter is_label ns) = length (label_bindings w ns)"
  proof -
    from ok obtain P where "list_all (instruction_ok P w) ns" by (auto simp: linked_program_def)
    then show ?thesis
    proof (induction ns)
      case (Cons n ns)
      then show ?case using label_shape [of P w n] by (cases "is_label n") auto
    qed simp
  qed
  have "card (set (map ent_binding (all_entries ns ub sb w))) = card (set (ub @ sb @ label_bindings w ns))"
    using fill(3) by (simp add: Un_assoc)
  also have "\<dots> = length (ub @ sb @ label_bindings w ns)" by (rule distinct_card [OF dist])
  also have "\<dots> = length (map ent_binding (all_entries ns ub sb w))" using fill(1) labels by (simp add: measure_symtab_def)
  finally show "card (set (map ent_binding (all_entries ns ub sb w))) = length (map ent_binding (all_entries ns ub sb w))" .
qed

lemma entry_symbols_nth:
  "k < length es \<Longrightarrow> st_value (entry_symbols p es ! k) = ent_value (es ! k) \<and> st_shndx (entry_symbols p es ! k) = ent_shndx (es ! k)"
proof (induction es arbitrary: p k)
  case (Cons e es)
  then show ?case by (cases k) (auto simp: entry_symbol_def)
qed simp

text \<open>The symbol of a static binding or label: its section and its offset there.\<close>

lemma placed_symbol:
  fixes w :: "'s world"
  assumes ok: "linked_program ns ub sb w" and dist: "distinct (ub @ sb @ label_bindings w ns)"
    and b: "b \<in> set sb \<union> set (label_bindings w ns)"
  shows "\<exists>i < measure_symtab ns ub sb. contexts (final_tables junk_sym junk ns ub sb w) b = Some i \<and>
    st_value (snd (placed junk_sym junk ns ub sb w) ! i) = offset (augs (fst (placed junk_sym junk ns ub sb w)) b) \<and>
    st_shndx (snd (placed junk_sym junk ns ub sb w) ! i) = (if b \<in> set sb then 5 else 2)"
proof -
  let ?es = "all_entries ns ub sb w" and ?st = "final_tables junk_sym junk ns ub sb w"
  let ?pl = "placed junk_sym junk ns ub sb w"
  note T = final_tables_facts [OF ok refl, of junk_sym junk]
  note d = all_entries_distinct [OF ok dist]
  have set: "ent_binding ` set ?es = set ub \<union> set sb \<union> set (label_bindings w ns)" by (rule all_entries_fill(3) [OF ok])
  with b have "b \<in> ent_binding ` set ?es" by blast
  from entry_index [OF d this, of 1 "\<lambda>b. None"] obtain k where
    k: "k < length ?es" "contexts ?st b = Some (1 + k)" "ent_binding (?es ! k) = b" using T(5) by auto
  have len: "1 + length ?es = measure_symtab ns ub sb" by (rule all_entries_fill(1) [OF ok])
  note nodes = place_statics_labels [of sb w ns]
  have inj: "inj_on (contexts ?st) (set ub \<union> set sb \<union> set (label_bindings w ns))"
    using entry_index_inj [OF d, of 1 "\<lambda>b. None"] by (simp only: T(5) set)
  have sec: "st_shndx (snd ?pl ! (1 + k)) = ent_shndx (?es ! k)"
  proof -
    have "map st_shndx (snd ?pl) ! (1 + k) = map st_shndx (syms ?st) ! (1 + k)"
      by (simp add: placed_def Let_def place_labels_shndx)
    then show ?thesis using k(1) len by (simp add: placed_def Let_def place_labels_length T entry_symbols_nth)
  qed
  have e: "?es ! k \<in> set ?es" using k(1) by simp
  have src: "(b \<in> set sb \<longrightarrow> ?es ! k \<in> set (all_statics sb w)) \<and>
      (b \<notin> set sb \<longrightarrow> (\<exists>scp bd. ?es ! k \<in> set (label_entries scp bd ns w)))"
  proof -
    from ok obtain P where P: "list_all (instruction_ok P w) ns" by (auto simp: linked_program_def)
    have lab: "ent_binding x \<in> set (label_bindings w ns)" if "x \<in> set (label_entries scp bd ns w)" for x scp bd
    proof (cases scp)
      case local_scope
      then show ?thesis using label_entries_partition(3) [OF P, of bd bd] that by blast
    next
      case global_scope
      then show ?thesis using label_entries_partition(3) [OF P, of bd bd] that by blast
    qed
    have und: "ent_binding x \<in> set ub" if "x \<in> set (undefined_entries ub w)" for x
      using undefined_entries_all(3) [of w ub] ok that by (auto simp: linked_program_def)
    have stat: "ent_binding x \<in> set sb" if "x \<in> set (all_statics sb w)" for x
      using all_statics_bindings(1) [of w sb] ok that by (auto simp: linked_program_def)
    from e consider "?es ! k \<in> set (all_statics sb w)" | "?es ! k \<in> set (undefined_entries ub w)"
      | "\<exists>scp bd. ?es ! k \<in> set (label_entries scp bd ns w)"
      by (auto simp: all_entries_def local_entries_def global_entries_def all_statics_def)
    then show ?thesis
    proof cases
      case 1
      then show ?thesis using stat [OF 1] k(3) by simp
    next
      case 2
      then show ?thesis using und [OF 2] k(3) b dist by auto
    next
      case 3
      then show ?thesis using lab k(3) dist by fastforce
    qed
  qed
  show ?thesis
  proof (cases "b \<in> set sb")
    case True
    then have st: "?es ! k \<in> set (all_statics sb w)" using src by blast
    then have "ent_shndx (?es ! k) = 5"
      by (auto simp: all_statics_def local_statics_def global_statics_def dest: static_entries_shndx)
    moreover have "offset (augs (fst ?pl) (ent_binding (?es ! k))) = ent_value (?es ! k)"
      by (rule static_offset [OF _ _ _ st]) (use ok dist in \<open>auto simp: linked_program_def\<close>)
    moreover have "Some (1 + k) \<notin> contexts ?st ` set (label_bindings (place_statics sb w) ns)"
    proof
      assume "Some (1 + k) \<in> contexts ?st ` set (label_bindings (place_statics sb w) ns)"
      then obtain x where "x \<in> set (label_bindings w ns)" "contexts ?st b = contexts ?st x" using k(2) nodes by auto
      then show False using inj_onD [OF inj, of b x] True dist by auto
    qed
    then have "st_value (snd ?pl ! (1 + k)) = ent_value (?es ! k)"
      unfolding placed_def Let_def using k(1) by (simp add: place_labels_other_symbol T entry_symbols_nth)
    ultimately show ?thesis using True k sec len by auto
  next
    case False
    then have two: "ent_shndx (?es ! k) = 2" using src by (auto dest: label_entries_shndx)
    from False b have bl: "b \<in> set (label_bindings (place_statics sb w) ns)" unfolding nodes by blast
    then obtain j where j: "j < length ns" "label_binding (place_statics sb w) (ns ! j) = Some b"
      by (auto simp: label_bindings_def in_set_conv_nth split: option.splits)
    have "inj_on (contexts ?st) (set (label_bindings (place_statics sb w) ns))"
      unfolding nodes by (rule inj_on_subset [OF inj]) blast
    moreover have "distinct (label_bindings (place_statics sb w) ns)" unfolding nodes using dist by simp
    moreover have "1 + k < length (syms ?st)" using k(1) len T(1) by simp
    ultimately have "st_value (snd ?pl ! (1 + k)) = offset (augs (fst ?pl) b)"
      unfolding placed_def Let_def
      using place_labels_at [OF j, of "contexts ?st" "1 + k" "syms ?st" 0] k(2) by simp
    then show ?thesis using two False k sec len by auto
  qed
qed

text \<open>C7. After \<open>write_elf\<close>, \<open>load\<close> and
\<open>binding_aug_offsets_to_addresses\<close> the offset of every static binding and label of
the program is the address that the symbol of the binding has in the loaded object, which lies
in the segment of its section.\<close>

lemma linked_addresses:
  assumes ok: "linked_program ns ub sb w" and dist: "distinct (ub @ sb @ label_bindings w ns)"
    and stat: "list_all (\<lambda>b. aug_type (augs w b) = absolute_storage \<and> state (augs w b) = defined_state) sb"
    and wr: "(write_elf junk_sym junk junk' ns ub sb w :: ('e, _) outcome) = Ret (file, p, w')"
    and s: "ginv reg s" "all_served (galloc mmap reg) (gcan mmap reg) (read_requests (take p file)) s"
    and ld: "(load (galloc mmap reg) (take p file) (m, s) :: ('x, _) evaluation) = Ret (obj, m', s')"
    and lits: "cstr m' bss_name ''.bss''" "cstr m' text_name ''.text''"
    and b: "b \<in> set sb \<union> set (label_bindings w ns)"
  shows "\<exists>w'' i. (binding_aug_offsets_to_addresses m' bss_name text_name ns sb obj w' :: ('e, _) outcome) = Ret w'' \<and>
    contexts (final_tables junk_sym junk ns ub sb w) b = Some i \<and> i < length (obj_syms obj ! 4) \<and>
    offset (augs w'' b) = st_value (obj_syms obj ! 4 ! i) \<and>
    offset (augs w'' b) = segs obj ! (if b \<in> set sb then 5 else 2) + offset (augs w' b)"
proof -
  let ?pl = "placed junk_sym junk ns ub sb w"
  obtain src where src: "src = file_bytes junk_sym junk junk' ns ub sb w" "take p file = src"
    using write_elf_in_bounds [OF ok, of junk_sym junk junk', where ?'e = 'e] wr by auto
  from ru.load_result [OF written_loadable [OF ok src(1)] s [unfolded src(2)], of m] obtain bases img s'' where
    "(load (galloc mmap reg) src (m, s) :: ('x, _) evaluation) =
      Ret (loaded_object src bases img, write_runs (object_writes (loaded_object src bases img)) img, s'')"
    and bs: "bases_ok src bases" "image_of src bases img" "segments_disjoint src bases" by blast
  with ld have obj: "obj = loaded_object src bases img" and m': "m' = write_runs (object_writes obj) img"
    by (auto simp: src(2))
  have n7: "section_count src = 7" by (simp add: src written_header(2))
  then have len: "length bases = 7" using bs(1) by (simp add: bases_ok_def)
  have w': "w' = fst ?pl" using wr unfolding write_elf_result(1) [OF ok] Let_def by simp
  note names = names_survive [OF ok src(1) bs, folded obj, folded m']
  have seg: "segment m' obj bss_name = (Ret (bases ! 5) :: ('e, _) outcome)"
      "segment m' obj text_name = (Ret (bases ! 2) :: ('e, _) outcome)"
    using written_segments [OF ok src(1) names len, of bss_name 5 img, where ?'e = 'e]
      written_segments [OF ok src(1) names len, of text_name 2 img, where ?'e = 'e] lits
    by (simp_all add: section_names_def obj)
  have nodes: "nodes w' = nodes w"
    by (simp add: w' placed_def Let_def place_labels_nodes but_offsetsD(1) [OF but_offsets_place_statics])
  have keep: "list_all (\<lambda>b. aug_type (augs w' b) = absolute_storage \<and> state (augs w' b) = defined_state) sb"
  proof -
    note labels = place_statics_labels [of sb w ns]
    have "augs w' b = augs (place_statics sb w) b" if "b \<in> set sb" for b
      unfolding w' placed_def Let_def
      by (rule place_labels_other) (use that dist labels in auto)
    then show ?thesis using stat but_offsets_place_statics [of w sb] by (simp add: list_all_iff but_offsets_def)
  qed
  from ok obtain P where P: "list_all (instruction_ok P w) ns" by (auto simp: linked_program_def)
  note moved = moved_bindings [OF seg keep P nodes]
  from placed_symbol [OF ok dist b, of junk_sym junk] obtain i where i: "i < measure_symtab ns ub sb"
    "contexts (final_tables junk_sym junk ns ub sb w) b = Some i" "st_value (snd ?pl ! i) = offset (augs w' b)"
    "st_shndx (snd ?pl ! i) = (if b \<in> set sb then 5 else 2)" unfolding w' by blast
  have sy: "obj_syms obj ! 4 = map (loaded_sym bases) (snd ?pl)"
    by (simp add: obj n7 written_tables [OF ok src(1)] file_symbols_def)
  have il: "i < length (snd ?pl)" using i(1) written_lengths(1) [OF ok, of junk_sym junk] by (simp add: file_symbols_def)
  have "st_value (obj_syms obj ! 4 ! i) = bases ! (if b \<in> set sb then 5 else 2) + offset (augs w' b)"
    using il i(3,4) by (simp add: sy loaded_sym_def loaded_value_def SHN_ABS_def SHN_COMMON_def SHN_UNDEF_def)
  moreover have "offset (augs (fold (move_binding (bases ! 2)) (label_bindings w ns) (fold (move_binding (bases ! 5)) sb w')) b) =
      bases ! (if b \<in> set sb then 5 else 2) + offset (augs w' b)"
  proof (cases "b \<in> set sb")
    case True
    then have "b \<notin> set (label_bindings w ns)" using dist by auto
    then show ?thesis using True dist by (simp add: fold_move_other fold_move_offset)
  next
    case False
    then have "b \<in> set (label_bindings w ns)" using b by simp
    then show ?thesis using False dist by (simp add: fold_move_other fold_move_offset)
  qed
  ultimately show ?thesis using moved i(2) il sy by (auto simp: obj)
qed

definition literal_mem :: mem where
  "literal_mem = upd_bytes (upd_bytes (\<lambda>a. 0) 0x4000000000000 (map byte_of ''.bss'' @ [0])) 0x8000000000000 (map byte_of ''.text'' @ [0])"

lemma literals: "cstr literal_mem 0x4000000000000 ''.bss''" "cstr literal_mem 0x8000000000000 ''.text''"
  by (simp_all add: literal_mem_def)

lemma linked_addresses_witness:
  "\<exists>obj m' s' w' w'' i. (load (galloc bump_mmap 0x10000) small_file
      (literal_mem, [0x10000], [], snd (create_region bump_mmap 0 boot_state)) :: (nat, _) evaluation) = Ret (obj, m', s') \<and>
    (binding_aug_offsets_to_addresses m' 0x4000000000000 0x8000000000000 small_program [200, 201] obj w' :: (nat, unit world) outcome) = Ret w'' \<and>
    offset (augs w'' 201) = st_value (obj_syms obj ! 4 ! i)"
proof -
  let ?s = "([0x10000], [], snd (create_region bump_mmap 0 boot_state))"
  obtain img p w' where r: "(write_elf (\<lambda>i. small_symbol) (\<lambda>i. 1) (\<lambda>i. 1) small_program [] [200, 201] static_world
        :: (nat, _) outcome) = Ret (img, p, w')" "take p img = small_file"
    using write_elf_in_bounds [OF static_world_linked, where ?'e = nat, of "\<lambda>i. small_symbol" "\<lambda>i. 1" "\<lambda>i. 1"]
    by (auto simp: small_file_def)
  note ld = written_loadable [OF static_world_linked small_file_def]
  from ru.load_result [OF ld small_ginv small_served, of literal_mem] obtain bases im s' where
    l: "(load (galloc bump_mmap 0x10000) small_file (literal_mem, ?s) :: (nat, _) evaluation) =
      Ret (loaded_object small_file bases im, write_runs (object_writes (loaded_object small_file bases im)) im, s')"
    and b: "bases_ok small_file bases"
    and out: "\<forall>x. (\<forall>i < section_count small_file. x \<notin> run_of (bases ! i) (unat (sh_size (source_shdr small_file i)))) \<longrightarrow> im x = literal_mem x"
    by blast
  let ?m = "write_runs (object_writes (loaded_object small_file bases im)) im"
  have high: "?m x = literal_mem x" if "2 ^ 47 \<le> unat x" for x
  proof -
    have "x \<notin> run_of (bases ! i) (unat (sh_size (source_shdr small_file i)))" if "i < section_count small_file" for i
    proof -
      have "unat (bases ! i) + unat (sh_size (source_shdr small_file i)) \<le> 2 ^ 47" using b that by (simp add: bases_ok_def)
      then show ?thesis using \<open>2 ^ 47 \<le> unat x\<close> by (subst in_run) auto
    qed
    then show ?thesis using out relocation_inside [OF ld b, of x im im] by simp
  qed
  have lits: "cstr ?m 0x4000000000000 ''.bss''" "cstr ?m 0x8000000000000 ''.text''"
    using literals by (simp_all add: high)
  have l': "(load (galloc bump_mmap 0x10000) (take p img) (literal_mem, ?s) :: (nat, _) evaluation) =
      Ret (loaded_object small_file bases im, ?m, s')" unfolding r(2) by (rule l)
  have side: "distinct ([] @ [200, 201] @ label_bindings static_world small_program)"
    "list_all (\<lambda>b. aug_type (augs static_world b) = absolute_storage \<and> state (augs static_world b) = defined_state) [200, 201]"
    "201 \<in> set [200, 201] \<union> set (label_bindings static_world small_program)"
    by (simp_all add: static_world_def label_bindings_def small_program_def label_binding_def opcode_defs small_world_def)
  from linked_addresses [OF static_world_linked side(1,2) r(1) small_ginv small_served [folded r(2)] l' lits side(3)] obtain w'' i where
    "(binding_aug_offsets_to_addresses ?m 0x4000000000000 0x8000000000000 small_program [200, 201]
      (loaded_object small_file bases im) w' :: (nat, _) outcome) = Ret w''"
    "offset (augs w'' 201) = st_value (obj_syms (loaded_object small_file bases im) ! 4 ! i)" by (elim exE conjE)
  then show ?thesis by (intro exI conjI) (rule l, assumption+)
qed

lemma load_correct_witness:
  "\<exists>bases img m' s'. (load (galloc bump_mmap 0x10000) small_file
      (literal_mem, [0x10000], [], snd (create_region bump_mmap 0 boot_state)) :: (nat, _) evaluation) =
      Ret (loaded_object small_file bases img, m', s') \<and> bases_ok small_file bases"
  using load_correct [OF written_loadable [OF static_world_linked small_file_def] small_ginv small_served, of literal_mem, where ?'x = nat]
  by blast

end
