(* ===== verification/Visitors.thy ===== *)
theory Visitors
  imports Expressions
begin

text \<open>
  The traversals of \<open>bootstrap/analysis.c\<close>, and its first pass: the check that no construct declares
  a name twice.
\<close>

section \<open>Visiting\<close>

text \<open>
  \<open>visit_expressions\<close> of \<open>bootstrap/analysis.c\<close> replaces every expression by what the visitor makes
  of it, innermost first. The union gives \<open>function.expression\<close> and \<open>constrain.expression\<close>, and
  \<open>storage.arguments\<close>, \<open>jump.arguments\<close> and \<open>invoke.arguments\<close>, the same place.
\<close>

type_synonym ('e, 't) visitor = "expr \<Rightarrow> 't \<Rightarrow> ('e, expr \<times> 't) outcome"

fun visit_expressions :: "('e, 't) visitor \<Rightarrow> expr \<Rightarrow> 't \<Rightarrow> ('e, expr \<times> 't) outcome"
and visit_all :: "('e, 't) visitor \<Rightarrow> expr list \<Rightarrow> 't \<Rightarrow> ('e, expr list \<times> 't) outcome" where
  "visit_expressions v (If a c t f) s =
     bindO (visit_expressions v c s) (\<lambda>(c, s).
     bindO (visit_expressions v t s) (\<lambda>(t, s).
     bindO (visit_expressions v f s) (\<lambda>(f, s). v (If a c t f) s)))"
| "visit_expressions v (Function a r b ps) s =
     bindO (visit_expressions v b s) (\<lambda>(b, s). v (Function a r b ps) s)"
| "visit_expressions v (Continuation a r b ps) s =
     bindO (visit_expressions v b s) (\<lambda>(b, s). v (Continuation a r b ps) s)"
| "visit_expressions v (With a r b ps) s =
     bindO (visit_expressions v b s) (\<lambda>(b, s). v (With a r b ps) s)"
| "visit_expressions v (Constrain a r b) s =
     bindO (visit_expressions v b s) (\<lambda>(b, s). v (Constrain a r b) s)"
| "visit_expressions v (Jump a r as) s =
     bindO (visit_expressions v r s) (\<lambda>(r, s).
     bindO (visit_all v as s) (\<lambda>(as, s). v (Jump a r as) s))"
| "visit_expressions v (Invoke a r as) s =
     bindO (visit_expressions v r s) (\<lambda>(r, s).
     bindO (visit_all v as s) (\<lambda>(as, s). v (Invoke a r as) s))"
| "visit_expressions v (Storage a r as) s =
     bindO (visit_all v as s) (\<lambda>(as, s). v (Storage a r as) s)"
| "visit_expressions v (Literal a n) s = v (Literal a n) s"
| "visit_expressions v (Symbol a n) s = v (Symbol a n) s"
| "visit_expressions v (Assembly a oc as) s = v (Assembly a oc as) s"
| "visit_expressions v (Meta a r) s = v (Meta a r) s"
| "visit_all v [] s = Ret ([], s)"
| "visit_all v (e # es) s =
     bindO (visit_expressions v e s) (\<lambda>(e, s). bindO (visit_all v es s) (\<lambda>(es, s). Ret (e # es, s)))"

text \<open>
  \<open>pre_visit_expressions\<close> goes on with what the visitor returned, which may be larger: it may run
  forever and gets fuel.
\<close>

fun pre_visit_expressions :: "nat \<Rightarrow> ('e, 't) visitor \<Rightarrow> expr \<Rightarrow> 't \<Rightarrow> ('e, expr \<times> 't) outcome"
and pre_visit_all :: "nat \<Rightarrow> ('e, 't) visitor \<Rightarrow> expr list \<Rightarrow> 't \<Rightarrow> ('e, expr list \<times> 't) outcome" where
  "pre_visit_expressions 0 v e s = NoFuel"
| "pre_visit_expressions (Suc n) v e s =
     bindO (v e s) (\<lambda>(e, s). case e of
       If a c t f \<Rightarrow>
         bindO (pre_visit_expressions n v c s) (\<lambda>(c, s).
         bindO (pre_visit_expressions n v t s) (\<lambda>(t, s).
         bindO (pre_visit_expressions n v f s) (\<lambda>(f, s). Ret (If a c t f, s))))
     | Function a r b ps \<Rightarrow>
         bindO (pre_visit_expressions n v b s) (\<lambda>(b, s). Ret (Function a r b ps, s))
     | Continuation a r b ps \<Rightarrow>
         bindO (pre_visit_expressions n v b s) (\<lambda>(b, s). Ret (Continuation a r b ps, s))
     | With a r b ps \<Rightarrow>
         bindO (pre_visit_expressions n v b s) (\<lambda>(b, s). Ret (With a r b ps, s))
     | Constrain a r b \<Rightarrow>
         bindO (pre_visit_expressions n v b s) (\<lambda>(b, s). Ret (Constrain a r b, s))
     | Jump a r as \<Rightarrow>
         bindO (pre_visit_expressions n v r s) (\<lambda>(r, s).
         bindO (pre_visit_all n v as s) (\<lambda>(as, s). Ret (Jump a r as, s)))
     | Invoke a r as \<Rightarrow>
         bindO (pre_visit_expressions n v r s) (\<lambda>(r, s).
         bindO (pre_visit_all n v as s) (\<lambda>(as, s). Ret (Invoke a r as, s)))
     | Storage a r as \<Rightarrow>
         bindO (pre_visit_all n v as s) (\<lambda>(as, s). Ret (Storage a r as, s))
     | _ \<Rightarrow> Ret (e, s))"
| "pre_visit_all 0 v es s = NoFuel"
| "pre_visit_all (Suc n) v [] s = Ret ([], s)"
| "pre_visit_all (Suc n) v (e # es) s =
     bindO (pre_visit_expressions n v e s) (\<lambda>(e, s).
     bindO (pre_visit_all n v es s) (\<lambda>(es, s). Ret (e # es, s)))"

text \<open>The expressions that a visit reaches, in the order in which the visitor sees them.\<close>

fun postorder :: "expr \<Rightarrow> expr list" where
  "postorder (If a c t f) = postorder c @ postorder t @ postorder f @ [If a c t f]"
| "postorder (Function a r b ps) = postorder b @ [Function a r b ps]"
| "postorder (Continuation a r b ps) = postorder b @ [Continuation a r b ps]"
| "postorder (With a r b ps) = postorder b @ [With a r b ps]"
| "postorder (Constrain a r b) = postorder b @ [Constrain a r b]"
| "postorder (Jump a r as) = postorder r @ concat (map postorder as) @ [Jump a r as]"
| "postorder (Invoke a r as) = postorder r @ concat (map postorder as) @ [Invoke a r as]"
| "postorder (Storage a r as) = concat (map postorder as) @ [Storage a r as]"
| "postorder e = [e]"

fun preorder :: "expr \<Rightarrow> expr list" where
  "preorder (If a c t f) = If a c t f # preorder c @ preorder t @ preorder f"
| "preorder (Function a r b ps) = Function a r b ps # preorder b"
| "preorder (Continuation a r b ps) = Continuation a r b ps # preorder b"
| "preorder (With a r b ps) = With a r b ps # preorder b"
| "preorder (Constrain a r b) = Constrain a r b # preorder b"
| "preorder (Jump a r as) = Jump a r as # preorder r @ concat (map preorder as)"
| "preorder (Invoke a r as) = Invoke a r as # preorder r @ concat (map preorder as)"
| "preorder (Storage a r as) = Storage a r as # concat (map preorder as)"
| "preorder e = [e]"

text \<open>A visitor that keeps the expression: the visit is a loop over the expressions.\<close>

definition keeping :: "(expr \<Rightarrow> 't \<Rightarrow> ('e, 't) outcome) \<Rightarrow> ('e, 't) visitor" where
  "keeping g e s = bindO (g e s) (\<lambda>s. Ret (e, s))"

lemma bindO_unchain: "bindO (bindO m (\<lambda>s. Ret (e, s))) (\<lambda>(x, s). k x s) = bindO m (k e)"
  by (cases m) auto

lemma visit_all_keeping:
  "(\<And>e s. e \<in> set es \<Longrightarrow> visit_expressions (keeping g) e s = bindO (for_each g (postorder e) s) (\<lambda>s. Ret (e, s))) \<Longrightarrow>
   visit_all (keeping g) es s = bindO (for_each g (concat (map postorder es)) s) (\<lambda>s. Ret (es, s))"
  by (induction es arbitrary: s) (simp_all add: for_each_append bindO_assoc)

lemma visit_keeping:
  "visit_expressions (keeping g) e s = bindO (for_each g (postorder e) s) (\<lambda>s. Ret (e, s))"
  by (induction e arbitrary: s)
    (simp_all add: visit_all_keeping keeping_def for_each_append bindO_assoc)

section \<open>Multiple definitions\<close>

text \<open>A null name equals no name. The lists are in a region of their own, which does not matter here.\<close>

definition defined_string_equals :: "string option \<Rightarrow> string option \<Rightarrow> bool" where
  "defined_string_equals a b \<longleftrightarrow> a \<noteq> None \<and> b \<noteq> None \<and> a = b"

definition reference_named :: "expr \<Rightarrow> string option \<Rightarrow> bool" where
  "reference_named e ctx = defined_string_equals (symbol_name e) ctx"

definition reference_equals :: "expr \<Rightarrow> expr \<Rightarrow> bool" where
  "reference_equals a b \<longleftrightarrow> a = b \<or> defined_string_equals (symbol_name a) (symbol_name b)"

text \<open>The loop over \<open>ref_with_params\<close>: the first name that a later symbol has, too.\<close>

fun find_repeated :: "expr list \<Rightarrow> string option" where
  "find_repeated [] = None"
| "find_repeated (t # rest) =
     (if list_ex (\<lambda>e. reference_named e (symbol_name t)) rest then symbol_name t else find_repeated rest)"

definition vfind_multiple_definitions :: "(('x evaluate_error), 't) visitor" where
  "vfind_multiple_definitions e s = (case e of
      Continuation a r b ps \<Rightarrow>
        (case find_repeated (r # ps) of None \<Rightarrow> Ret (e, s) | Some name \<Rightarrow> throw_multiple_definition name)
    | Function a r b ps \<Rightarrow>
        (case find_repeated (r # ps) of None \<Rightarrow> Ret (e, s) | Some name \<Rightarrow> throw_multiple_definition name)
    | _ \<Rightarrow> Ret (e, s))"

text \<open>The names that a construct declares together.\<close>

definition declared_names :: "expr \<Rightarrow> string list" where
  "declared_names e = (case e of
      Continuation a r b ps \<Rightarrow> List.map_filter symbol_name (r # ps)
    | Function a r b ps \<Rightarrow> List.map_filter symbol_name (r # ps)
    | _ \<Rightarrow> [])"

lemma map_filter_Cons: "List.map_filter f (x # xs) = (case f x of None \<Rightarrow> [] | Some y \<Rightarrow> [y]) @ List.map_filter f xs"
  by (simp add: List.map_filter_simps split: option.split)

lemma set_map_filter: "x \<in> set (List.map_filter f xs) \<longleftrightarrow> (\<exists>y \<in> set xs. f y = Some x)"
  by (induction xs) (auto simp: map_filter_Cons List.map_filter_simps(2) split: option.splits)

lemma find_repeated_None: "find_repeated ts = None \<longleftrightarrow> distinct (List.map_filter symbol_name ts)"
proof (induction ts)
  case Nil
  show ?case by (simp add: List.map_filter_simps)
next
  case (Cons t ts)
  then show ?case
    by (cases "symbol_name t")
      (auto simp: map_filter_Cons set_map_filter list_ex_iff reference_named_def defined_string_equals_def)
qed

lemma find_repeated_Some:
  "find_repeated ts = Some n \<Longrightarrow> \<not> distinct (List.map_filter symbol_name ts) \<and> 2 \<le> count_list (List.map_filter symbol_name ts) n"
proof (induction ts)
  case (Cons t ts)
  show ?case
  proof (cases "list_ex (\<lambda>e. reference_named e (symbol_name t)) ts")
    case True
    then have t: "symbol_name t = Some n" using Cons.prems by simp
    with True have n: "n \<in> set (List.map_filter symbol_name ts)"
      by (auto simp: set_map_filter list_ex_iff reference_named_def defined_string_equals_def)
    then have "0 < count_list (List.map_filter symbol_name ts) n" by (simp add: count_list_0_iff neq0_conv [symmetric] del: neq0_conv)
    with n t show ?thesis by (simp add: map_filter_Cons)
  next
    case False
    then have "find_repeated ts = Some n" using Cons.prems by simp
    with Cons.IH show ?thesis by (auto simp: map_filter_Cons split: option.splits)
  qed
qed simp

lemma vfind_multiple_definitions_keeping:
  "vfind_multiple_definitions = keeping (\<lambda>e s. case find_repeated (case e of
      Continuation a r b ps \<Rightarrow> r # ps | Function a r b ps \<Rightarrow> r # ps | _ \<Rightarrow> []) of
     None \<Rightarrow> Ret s | Some name \<Rightarrow> throw_multiple_definition name)"
  by (intro ext) (auto simp: vfind_multiple_definitions_def keeping_def throw_defs split: expr.split option.split)

lemma for_each_check:
  assumes "\<And>i s. f i s = (case g i of None \<Rightarrow> Ret s | Some x \<Rightarrow> Throw (h x))"
  shows "for_each f is s = (case find (\<lambda>i. g i \<noteq> None) is of None \<Rightarrow> Ret s | Some i \<Rightarrow> Throw (h (the (g i))))"
  by (induction "is") (auto simp: assms split: option.splits)

text \<open>C26. The visit with \<open>vfind_multiple_definitions\<close> returns the expression
unchanged when no function or continuation in it declares a name twice; otherwise it throws a
multiple definition error with a name that one of them declares twice.\<close>

lemma multiple_definitions_found:
  "(if list_all (\<lambda>x. distinct (declared_names x)) (postorder e)
    then (visit_expressions vfind_multiple_definitions e s :: ('x evaluate_error, _) outcome) = Ret (e, s)
    else \<exists>x \<in> set (postorder e). \<exists>name. 2 \<le> count_list (declared_names x) name \<and>
      (visit_expressions vfind_multiple_definitions e s :: ('x evaluate_error, _) outcome) = throw_multiple_definition name)"
proof -
  let ?names = "\<lambda>e. case e of Continuation a r b ps \<Rightarrow> r # ps | Function a r b ps \<Rightarrow> r # ps | _ \<Rightarrow> []"
  have dn: "declared_names x = List.map_filter symbol_name (?names x)" for x
    by (simp add: declared_names_def List.map_filter_simps split: expr.split)
  let ?f = "find (\<lambda>x. find_repeated (?names x) \<noteq> None) (postorder e)"
  have v: "(visit_expressions vfind_multiple_definitions e s :: ('x evaluate_error, _) outcome) =
     (case ?f of None \<Rightarrow> Ret (e, s) | Some x \<Rightarrow> throw_multiple_definition (the (find_repeated (?names x))))"
    unfolding vfind_multiple_definitions_keeping visit_keeping throw_defs
    by (subst for_each_check) (auto split: option.split)
  show ?thesis
  proof (cases ?f)
    case None
    then have "list_all (\<lambda>x. distinct (declared_names x)) (postorder e)"
      by (auto simp: find_None_iff dn find_repeated_None list_all_iff)
    then show ?thesis using v None by simp
  next
    case (Some x)
    then have x: "x \<in> set (postorder e)" "find_repeated (?names x) \<noteq> None" by (auto simp: find_Some_iff)
    then obtain n where n: "find_repeated (?names x) = Some n" by auto
    note r = find_repeated_Some [OF n, folded dn]
    with x(1) have "\<not> list_all (\<lambda>x. distinct (declared_names x)) (postorder e)" by (auto simp: list_all_iff)
    moreover have "(visit_expressions vfind_multiple_definitions e s :: ('x evaluate_error, _) outcome) = throw_multiple_definition n"
      using v Some n by simp
    ultimately show ?thesis using r x(1) by auto
  qed
qed

end
