(* ===== verification/Containment.thy ===== *)
theory Containment
  imports Visitors
begin

text \<open>
  \<open>containment_analysis\<close> of \<open>bootstrap/analysis.c\<close>: whether the evaluation of the parts of an
  invocation or a jump may be left by a jump or a with, which decides where the generated code keeps
  the values of the arguments. The flags are sound for the ways in which evaluation may end.
\<close>

unbundle bit_operations_syntax

section \<open>Containment\<close>

text \<open>
  The flags of invocations and jumps are written on the way; the bodies of functions,
  continuations and withs are visited for their own flags, and their result is dropped.
\<close>

fun containment_analysis :: "expr \<Rightarrow> 's world \<Rightarrow> u64 \<times> 's world"
and containment_all :: "u64 \<Rightarrow> expr list \<Rightarrow> 's world \<Rightarrow> u64 \<times> 's world" where
  "containment_analysis (Constrain a r b) w =
     (let (fl, w) = containment_analysis b w in (CONTAINS_NONE OR fl, w))"
| "containment_analysis (If a c t f) w =
     (let (fl, w) = containment_analysis c w;
          contains_flag = CONTAINS_NONE OR fl;
          (consequent_flag, w) = containment_analysis t w;
          (alternate_flag, w) = containment_analysis f w
      in if consequent_flag + alternate_flag = 1 then (CONTAINS_WITH, w)
         else ((contains_flag OR consequent_flag) OR alternate_flag, w))"
| "containment_analysis (Function a r b ps) w =
     (let (_, w) = containment_analysis b w in (CONTAINS_NONE, w))"
| "containment_analysis (Continuation a r b ps) w =
     (let (_, w) = containment_analysis b w in (CONTAINS_NONE, w))"
| "containment_analysis (With a r b ps) w =
     (let (_, w) = containment_analysis b w in (CONTAINS_WITH, w))"
| "containment_analysis (Storage a r as) w = containment_all CONTAINS_NONE as w"
| "containment_analysis (Jump a r as) w =
     (let (fl, w) = containment_analysis r w;
          (contains_fl, w) = containment_all (CONTAINS_NONE OR fl) as w
      in (CONTAINS_JUMP, set_node a (\<lambda>n. n\<lparr>contains_flag := contains_fl\<rparr>) w))"
| "containment_analysis (Invoke a r as) w =
     (let (fl, w) = containment_analysis r w;
          (contains_fl, w) = containment_all (CONTAINS_NONE OR fl) as w
      in (contains_fl, set_node a (\<lambda>n. n\<lparr>contains_flag := contains_fl\<rparr>) w))"
| "containment_analysis (Literal a n) w = (CONTAINS_NONE, w)"
| "containment_analysis (Symbol a n) w = (CONTAINS_NONE, w)"
| "containment_analysis (Assembly a oc as) w = (CONTAINS_NONE, w)"
| "containment_analysis (Meta a r) w = (CONTAINS_NONE, w)"
| "containment_all fl [] w = (fl, w)"
| "containment_all fl (t # ts) w =
     (let (fl', w) = containment_analysis t w in containment_all (fl OR fl') ts w)"

text \<open>The flag of an expression does not depend on the objects.\<close>

fun flag_of :: "expr \<Rightarrow> u64" where
  "flag_of (Constrain a r b) = flag_of b"
| "flag_of (If a c t f) =
     (if flag_of t + flag_of f = 1 then CONTAINS_WITH else (flag_of c OR flag_of t) OR flag_of f)"
| "flag_of (With a r b ps) = CONTAINS_WITH"
| "flag_of (Storage a r as) = fold (\<lambda>t fl. fl OR flag_of t) as CONTAINS_NONE"
| "flag_of (Jump a r as) = CONTAINS_JUMP"
| "flag_of (Invoke a r as) = fold (\<lambda>t fl. fl OR flag_of t) as (flag_of r)"
| "flag_of e = CONTAINS_NONE"

definition parts_flag :: "expr \<Rightarrow> expr list \<Rightarrow> u64" where
  "parts_flag r as = fold (\<lambda>t fl. fl OR flag_of t) as (flag_of r)"

text \<open>The flags that are written, in order.\<close>

fun flags_written :: "expr \<Rightarrow> (addr \<times> u64) list" where
  "flags_written (Constrain a r b) = flags_written b"
| "flags_written (If a c t f) = flags_written c @ flags_written t @ flags_written f"
| "flags_written (Function a r b ps) = flags_written b"
| "flags_written (Continuation a r b ps) = flags_written b"
| "flags_written (With a r b ps) = flags_written b"
| "flags_written (Storage a r as) = concat (map flags_written as)"
| "flags_written (Jump a r as) = flags_written r @ concat (map flags_written as) @ [(a, parts_flag r as)]"
| "flags_written (Invoke a r as) = flags_written r @ concat (map flags_written as) @ [(a, parts_flag r as)]"
| "flags_written e = []"

definition write_flag :: "addr \<times> u64 \<Rightarrow> 's world \<Rightarrow> 's world" where
  "write_flag af w = set_node (fst af) (\<lambda>n. n\<lparr>contains_flag := snd af\<rparr>) w"

lemma containment_all_result:
  fixes w :: "'s world"
  assumes "\<And>t (w :: 's world). t \<in> set ts \<Longrightarrow> containment_analysis t w = (flag_of t, fold write_flag (flags_written t) w)"
  shows "containment_all fl ts w = (fold (\<lambda>t fl. fl OR flag_of t) ts fl, fold write_flag (concat (map flags_written ts)) w)"
  using assms by (induction ts arbitrary: fl w) simp_all

lemma containment_result:
  "containment_analysis e w = (flag_of e, fold write_flag (flags_written e) w)"
  by (induction e arbitrary: w)
    (simp_all add: containment_all_result CONTAINS_NONE_def parts_flag_def write_flag_def Let_def)


section \<open>What the flags mean\<close>

text \<open>
  How the evaluation of an expression within its frame may end, with the calls that it makes
  returning: with a value, or by leaving through a jump. Arguments are evaluated before the
  reference; either branch of an if may be taken; a with gets the value of its body or the
  value of a jump to its continuation.
\<close>

datatype ending = Value | Leaving

inductive ends :: "expr \<Rightarrow> ending \<Rightarrow> bool"
and ends_all :: "expr list \<Rightarrow> ending \<Rightarrow> bool" where
  "ends (Literal a n) Value"
| "ends (Symbol a n) Value"
| "ends (Function a r b ps) Value"
| "ends (Continuation a r b ps) Value"
| "ends b x \<Longrightarrow> ends (Constrain a r b) x"
| "ends c Leaving \<Longrightarrow> ends (If a c t f) Leaving"
| "ends c Value \<Longrightarrow> ends t x \<Longrightarrow> ends (If a c t f) x"
| "ends c Value \<Longrightarrow> ends f x \<Longrightarrow> ends (If a c t f) x"
| "ends b x \<Longrightarrow> ends (With a r b ps) x"
| "ends b Leaving \<Longrightarrow> ends (With a r b ps) Value"
| "ends_all as x \<Longrightarrow> ends (Storage a r as) x"
| "ends_all (as @ [r]) x \<Longrightarrow> ends (Invoke a r as) x"
| "ends_all (as @ [r]) x \<Longrightarrow> ends (Jump a r as) Leaving"
| "ends_all [] Value"
| "ends t Leaving \<Longrightarrow> ends_all (t # ts) Leaving"
| "ends t Value \<Longrightarrow> ends_all ts x \<Longrightarrow> ends_all (t # ts) x"

lemmas contains_defs = CONTAINS_NONE_def CONTAINS_JUMP_def CONTAINS_WITH_def

text \<open>A flag is a set of two bits: it may leave, and it may do either.\<close>

definition is_flag :: "u64 \<Rightarrow> bool" where
  "is_flag x \<longleftrightarrow> x = CONTAINS_NONE \<or> x = CONTAINS_JUMP \<or> x = CONTAINS_WITH"

lemma flag_bits:
  assumes "is_flag x"
  shows "x = CONTAINS_NONE \<longleftrightarrow> \<not> bit x 0" "x = CONTAINS_JUMP \<longleftrightarrow> bit x 0 \<and> \<not> bit x 1" "bit x 1 \<Longrightarrow> bit x 0"
  using assms by (auto simp: is_flag_def contains_defs bit_numeral_rec)

lemma is_flag_OR [intro]: "is_flag x \<Longrightarrow> is_flag y \<Longrightarrow> is_flag (x OR y)"
  by (elim is_flag_def [THEN iffD1, THEN disjE] disjE) (simp_all add: is_flag_def contains_defs)

lemma is_flag_join: "(\<And>t. t \<in> set ts \<Longrightarrow> is_flag (flag_of t)) \<Longrightarrow> is_flag fl \<Longrightarrow> is_flag (fold (\<lambda>t fl. fl OR flag_of t) ts fl)"
  by (induction ts arbitrary: fl) auto

lemma is_flag_consts [simp]: "is_flag CONTAINS_NONE" "is_flag CONTAINS_JUMP" "is_flag CONTAINS_WITH"
  by (simp_all add: is_flag_def)

lemma is_flag_of [simp]: "is_flag (flag_of e)"
  by (induction e) (auto intro: is_flag_join)

lemma bit_join: "bit (fold (\<lambda>t fl. fl OR flag_of t) ts fl) n \<longleftrightarrow> bit fl n \<or> (\<exists>t \<in> set ts. bit (flag_of t) n)"
  by (induction ts arbitrary: fl) (auto simp: bit_or_iff)

lemma is_flag_parts [simp]: "is_flag (parts_flag r as)" "is_flag (fold (\<lambda>t fl. fl OR flag_of t) as CONTAINS_NONE)"
  by (simp_all add: parts_flag_def is_flag_join)

lemma sum_flags: "is_flag x \<Longrightarrow> is_flag y \<Longrightarrow> x + y = 1 \<longleftrightarrow> (bit x 0 \<and> \<not> bit x 1 \<and> \<not> bit y 0) \<or> (bit y 0 \<and> \<not> bit y 1 \<and> \<not> bit x 0)"
  by (elim is_flag_def [THEN iffD1, THEN disjE] disjE) (simp_all add: contains_defs bit_numeral_rec)

definition bits_allow :: "bool \<Rightarrow> bool \<Rightarrow> ending \<Rightarrow> bool" where
  "bits_allow leaves either x \<longleftrightarrow> (\<not> leaves \<longrightarrow> x = Value) \<and> (leaves \<and> \<not> either \<longrightarrow> x = Leaving)"

definition flag_allows :: "u64 \<Rightarrow> ending \<Rightarrow> bool" where
  "flag_allows fl x \<longleftrightarrow> (fl = CONTAINS_NONE \<longrightarrow> x = Value) \<and> (fl = CONTAINS_JUMP \<longrightarrow> x = Leaving)"

lemma flag_allows_bits: "is_flag fl \<Longrightarrow> flag_allows fl x \<longleftrightarrow> bits_allow (bit fl 0) (bit fl 1) x"
  by (simp add: flag_allows_def bits_allow_def flag_bits)

lemma ends_bits:
  "ends e x \<Longrightarrow> bits_allow (bit (flag_of e) 0) (bit (flag_of e) 1) x"
  "ends_all ts x \<Longrightarrow> bits_allow (\<exists>t \<in> set ts. bit (flag_of t) 0) (\<exists>t \<in> set ts. bit (flag_of t) 1) x"
proof (induction rule: ends_ends_all.inducts)
qed (auto simp: bits_allow_def bit_join bit_or_iff sum_flags contains_defs bit_numeral_rec
    dest: flag_bits(3) [OF is_flag_of, unfolded One_nat_def])

text \<open>The flag that an invocation or a jump keeps is about its arguments and its reference.\<close>

lemma parts_flag_allows:
  assumes "ends_all (as @ [r]) x"
  shows "flag_allows (parts_flag r as) x"
  using ends_bits(2) [OF assms] unfolding flag_allows_bits [OF is_flag_parts(1)]
  by (auto simp: parts_flag_def bit_join bits_allow_def)

lemma flags_written_of:
  "n \<in> set (postorder e) \<Longrightarrow> n = Invoke a r as \<or> n = Jump a r as \<Longrightarrow> (a, parts_flag r as) \<in> set (flags_written e)"
  by (induction e) auto

lemma fold_write_flag:
  "contains_flag (nodes (fold write_flag fs w) a) =
     (case find (\<lambda>af. fst af = a) (rev fs) of None \<Rightarrow> contains_flag (nodes w a) | Some af \<Rightarrow> snd af)"
  by (induction fs rule: rev_induct) (simp_all add: write_flag_def set_node_def)

lemma find_distinct_key: "distinct (map fst fs) \<Longrightarrow> (a, v) \<in> set fs \<Longrightarrow> find (\<lambda>af. fst af = a) fs = Some (a, v)"
  by (induction fs) (auto simp: image_iff)

text \<open>C27. The flag that \<open>containment_analysis\<close> stores in an invocation or a
jump allows every way in which the evaluation of its parts may end: no jump leaves it when the
flag is none, and it never ends with a value when the flag is jump.\<close>

lemma containment_flags_sound:
  assumes "distinct (map fst (flags_written e))" "n \<in> set (postorder e)" "n = Invoke a r as \<or> n = Jump a r as"
    and "ends_all (as @ [r]) x"
  shows "flag_allows (contains_flag (nodes (snd (containment_analysis e w)) a)) x"
  using parts_flag_allows [OF assms(4)] 
    find_distinct_key [of "rev (flags_written e)" a "parts_flag r as"] flags_written_of [OF assms(2,3)] assms(1)
  by (simp add: containment_result fold_write_flag rev_map [symmetric])

lemma containment_flags_sound_witness:
  "flag_allows (contains_flag (nodes (snd (containment_analysis
     (Invoke 1 (Symbol 2 None) [Jump 3 (Symbol 4 None) [Literal 5 0]]) (\<lparr>nodes = (\<lambda>a. zero_node), augs = (\<lambda>a. undefined), sigs = Var, region_state = ()\<rparr> :: unit world))) 1)) Leaving"
  by (rule containment_flags_sound [where n = "Invoke 1 (Symbol 2 None) [Jump 3 (Symbol 4 None) [Literal 5 0]]"
        and r = "Symbol 2 None" and as = "[Jump 3 (Symbol 4 None) [Literal 5 0]]"])
    (auto intro!: ends_ends_all.intros)

end
