(* ===== verification/Binding_Passes.thy ===== *)
theory Binding_Passes
  imports Assembler Visitors
begin

text \<open>
  The passes of \<open>bootstrap/analysis.c\<close> over bindings: where the storage of bindings is, which binding
  a symbol means, and which continuations escape.
\<close>

section \<open>Bindings\<close>

definition set_aug :: "addr \<Rightarrow> (binding_aug \<Rightarrow> binding_aug) \<Rightarrow> 's world \<Rightarrow> 's world" where
  "set_aug b f w = w\<lparr>augs := (augs w)(b := f (augs w b))\<rparr>"

lemma set_aug_simps [simp]:
  "nodes (set_aug b f w) = nodes w" "sigs (set_aug b f w) = sigs w" "region_state (set_aug b f w) = region_state w"
  "augs (set_aug b f w) c = (if c = b then f (augs w b) else augs w c)"
  by (simp_all add: set_aug_def)

lemma set_node_simps [simp]:
  "augs (set_node a f w) = augs w" "sigs (set_node a f w) = sigs w" "region_state (set_node a f w) = region_state w"
  "nodes (set_node a f w) c = (if c = a then f (nodes w a) else nodes w c)"
  by (simp_all add: set_node_def)

text \<open>A null pointer is not followed.\<close>

definition deref :: "'a option \<Rightarrow> ('e, 'a) outcome" where
  "deref p = (case p of None \<Rightarrow> Undef | Some x \<Rightarrow> Ret x)"

lemma deref_simps [simp]: "deref (Some x) = Ret x" "deref None = Undef"
  by (simp_all add: deref_def)

fun bindings_of :: "'s world \<Rightarrow> expr list \<Rightarrow> ('e, addr list) outcome" where
  "bindings_of w [] = Ret []"
| "bindings_of w (p # ps) = bindO (binding_of w p) (\<lambda>b. bindO (bindings_of w ps) (\<lambda>bs. Ret (b # bs)))"

section \<open>Classification\<close>

definition set_type :: "expr \<Rightarrow> binding_aug_type \<Rightarrow> 's world \<Rightarrow> ('e, 's world) outcome" where
  "set_type ref ty w = bindO (binding_of w ref) (\<lambda>b. Ret (set_aug b (\<lambda>g. g\<lparr>aug_type := ty\<rparr>) w))"

definition set_temp_type :: "addr \<Rightarrow> binding_aug_type \<Rightarrow> 's world \<Rightarrow> ('e, 's world) outcome" where
  "set_temp_type a ty w =
     bindO (deref (temp_storage_bndg (nodes w a))) (\<lambda>b. Ret (set_aug b (\<lambda>g. g\<lparr>aug_type := ty\<rparr>) w))"

fun classify_program_binding_augs :: "expr \<Rightarrow> 's world \<Rightarrow> ('e, 's world) outcome" where
  "classify_program_binding_augs (Constrain a r b) w = classify_program_binding_augs b w"
| "classify_program_binding_augs (Storage a r as) w =
     bindO (set_type r absolute_storage w) (for_each classify_program_binding_augs as)"
| "classify_program_binding_augs (Jump a r as) w =
     bindO (set_temp_type a absolute_storage w) (\<lambda>w.
     bindO (classify_program_binding_augs r w) (for_each classify_program_binding_augs as))"
| "classify_program_binding_augs (Invoke a r as) w =
     bindO (set_temp_type a absolute_storage w) (\<lambda>w.
     bindO (classify_program_binding_augs r w) (for_each classify_program_binding_augs as))"
| "classify_program_binding_augs (Continuation a r b ps) w =
     bindO (set_type r absolute_storage w) (\<lambda>w.
     bindO (for_each (\<lambda>t. set_type t absolute_storage) ps w) (classify_program_binding_augs b))"
| "classify_program_binding_augs (With a r b ps) w =
     bindO (set_type r absolute_storage w) (\<lambda>w.
     bindO (for_each (\<lambda>t. set_type t absolute_storage) ps w) (classify_program_binding_augs b))"
| "classify_program_binding_augs (If a c t f) w =
     bindO (classify_program_binding_augs c w) (\<lambda>w.
     bindO (classify_program_binding_augs t w) (classify_program_binding_augs f))"
| "classify_program_binding_augs e w = Ret w"

section \<open>Linking\<close>

text \<open>The bindings of top-level functions and storage become global; the last one comes first.\<close>

definition global_binding_aug_of :: "expr \<Rightarrow> addr list \<times> 's world \<Rightarrow> ('e, addr list \<times> 's world) outcome" where
  "global_binding_aug_of t = (\<lambda>(binding_augs, w).
     if type_of t = function_t \<or> type_of t = storage_t
     then bindO (binding_of w (reference t)) (\<lambda>b.
          Ret (b # binding_augs, set_aug b (\<lambda>g. g\<lparr>scope := global_scope\<rparr>) w))
     else Ret (binding_augs, w))"

definition global_binding_augs_of :: "expr list \<Rightarrow> 's world \<Rightarrow> ('e, addr list \<times> 's world) outcome" where
  "global_binding_augs_of exprs w = for_each global_binding_aug_of exprs ([], w)"

definition vunlink_symbols :: "addr option list \<Rightarrow> ('e, 's world) visitor" where
  "vunlink_symbols blacklist s w = (case s of
      Symbol a n \<Rightarrow> Ret (s, if symbol_aug (nodes w a) \<in> set blacklist
                            then set_node a (\<lambda>n. n\<lparr>symbol_aug := None\<rparr>) w else w)
    | _ \<Rightarrow> Ret (s, w))"

fun assign_binding :: "addr \<Rightarrow> string option \<Rightarrow> addr list \<Rightarrow> 's world \<Rightarrow> 's world option" where
  "assign_binding a name [] w = None"
| "assign_binding a name (ba # bindings) w =
     (if defined_string_equals (aug_name (augs w ba)) name
      then Some (set_node a (\<lambda>n. n\<lparr>symbol_aug := Some ba\<rparr>) w)
      else assign_binding a name bindings w)"

text \<open>
  The undefined bindings so far, the storage objects that were made for them, and the world.
\<close>

type_synonym 's links = "addr list \<times> expr list \<times> 's world"

definition link_symbol ::
  "'s alloc_fun \<Rightarrow> addr list \<Rightarrow> addr list \<Rightarrow> addr \<Rightarrow> string option \<Rightarrow> 's links \<Rightarrow> ('e, 's links) outcome" where
  "link_symbol alloc static_bindings dynamic_bindings a name = (\<lambda>(undefined_bindings, made, w).
     if symbol_aug (nodes w a) \<noteq> None then Ret (undefined_bindings, made, w)
     else case assign_binding a name dynamic_bindings w of Some w \<Rightarrow> Ret (undefined_bindings, made, w)
     | None \<Rightarrow> (case assign_binding a name static_bindings w of Some w \<Rightarrow> Ret (undefined_bindings, made, w)
     | None \<Rightarrow> (case assign_binding a name undefined_bindings w of Some w \<Rightarrow> Ret (undefined_bindings, made, w)
     | None \<Rightarrow>
        let (sb, w) = make_symbol alloc name None None w;
            (stg, w) = make_storage alloc sb [] None None w
        in bindO (binding_of w (reference stg)) (\<lambda>bndg.
           let w = set_aug bndg (\<lambda>g. g\<lparr>aug_type := absolute_storage, scope := global_scope, state := undefined_state\<rparr>) w
           in Ret (bndg # undefined_bindings, stg # made, set_node a (\<lambda>n. n\<lparr>symbol_aug := Some bndg\<rparr>) w)))))"

text \<open>The bindings of a continuation or a with go to the static or to the dynamic ones.\<close>

fun link_symbols ::
  "'s alloc_fun \<Rightarrow> bool \<Rightarrow> addr list \<Rightarrow> addr list \<Rightarrow> expr \<Rightarrow> 's links \<Rightarrow> ('e, 's links) outcome" where
  "link_symbols alloc static_storage stc dyn (Function a r b ps) l =
     bindO (binding_of (snd (snd l)) r) (\<lambda>f. bindO (bindings_of (snd (snd l)) ps) (\<lambda>bs.
     link_symbols alloc False (f # stc) (rev bs) b l))"
| "link_symbols alloc static_storage stc dyn (With a r b ps) l =
     bindO (binding_of (snd (snd l)) r) (\<lambda>f. bindO (bindings_of (snd (snd l)) ps) (\<lambda>bs.
     if static_storage then link_symbols alloc static_storage (rev bs @ f # stc) dyn b l
     else link_symbols alloc static_storage stc (rev bs @ f # dyn) b l))"
| "link_symbols alloc static_storage stc dyn (Continuation a r b ps) l =
     bindO (binding_of (snd (snd l)) r) (\<lambda>f. bindO (bindings_of (snd (snd l)) ps) (\<lambda>bs.
     if static_storage then link_symbols alloc static_storage (rev bs @ f # stc) dyn b l
     else link_symbols alloc static_storage stc (rev bs @ f # dyn) b l))"
| "link_symbols alloc static_storage stc dyn (Storage a r as) l =
     bindO (binding_of (snd (snd l)) r) (\<lambda>f.
     if static_storage then for_each (link_symbols alloc static_storage (f # stc) dyn) as l
     else for_each (link_symbols alloc static_storage stc (f # dyn)) as l)"
| "link_symbols alloc static_storage stc dyn (Symbol a name) l = link_symbol alloc stc dyn a name l"
| "link_symbols alloc static_storage stc dyn (If a c t f) l =
     bindO (link_symbols alloc static_storage stc dyn c l) (\<lambda>l.
     bindO (link_symbols alloc static_storage stc dyn t l) (link_symbols alloc static_storage stc dyn f))"
| "link_symbols alloc static_storage stc dyn (Invoke a r as) l =
     bindO (link_symbols alloc static_storage stc dyn r l) (for_each (link_symbols alloc static_storage stc dyn) as)"
| "link_symbols alloc static_storage stc dyn (Jump a r as) l =
     bindO (link_symbols alloc static_storage stc dyn r l) (for_each (link_symbols alloc static_storage stc dyn) as)"
| "link_symbols alloc static_storage stc dyn (Constrain a r b) l = link_symbols alloc static_storage stc dyn b l"
| "link_symbols alloc static_storage stc dyn (Literal a n) l = Ret l"
| "link_symbols alloc static_storage stc dyn (Assembly a oc as) l = Ret l"
| "link_symbols alloc static_storage stc dyn (Meta a r) l = Ret l"

section \<open>Escapes\<close>

text \<open>\<open>objs\<close> gives the expression at an address; the passes reach other expressions through bindings.\<close>

type_synonym objects = "addr \<Rightarrow> expr option"

definition target_of :: "objects \<Rightarrow> 's world \<Rightarrow> addr \<Rightarrow> ('e, expr) outcome" where
  "target_of objs w b = bindO (deref (aug_expression (augs w b))) (\<lambda>t. deref (objs t))"

text \<open>The binding of the reference of a continuation or a with, and not of a parameter of it.\<close>

definition is_return_point :: "'s world \<Rightarrow> addr \<Rightarrow> expr \<Rightarrow> bool" where
  "is_return_point w b t \<longleftrightarrow> (type_of t = continuation_t \<or> type_of t = with_t) \<and>
     aug_symbol (augs w b) = Some (address (reference t))"

definition mark_escape :: "addr \<Rightarrow> 's world \<Rightarrow> 's world" where
  "mark_escape a w = set_node a (\<lambda>n. n\<lparr>escapes := True\<rparr>) w"

definition set_short_circuit :: "objects \<Rightarrow> addr \<Rightarrow> expr \<Rightarrow> 's world \<Rightarrow> ('e, 's world) outcome" where
  "set_short_circuit objs a r w = (case r of
      Symbol _ _ \<Rightarrow> bindO (binding_of w r) (\<lambda>b. bindO (target_of objs w b) (\<lambda>t.
        Ret (if is_return_point w b t then set_node a (\<lambda>n. n\<lparr>short_circuit := Some (address t)\<rparr>) w else w)))
    | Continuation c _ _ _ \<Rightarrow> Ret (set_node a (\<lambda>n. n\<lparr>short_circuit := Some c\<rparr>) w)
    | _ \<Rightarrow> Ret w)"

fun escape_analysis :: "objects \<Rightarrow> expr \<Rightarrow> bool \<Rightarrow> 's world \<Rightarrow> ('e, 's world) outcome" where
  "escape_analysis objs (Symbol a n) escaping w =
     bindO (binding_of w (Symbol a n)) (\<lambda>b.
     if escaping then bindO (target_of objs w b) (\<lambda>t.
       Ret (if is_return_point w b t then mark_escape (address t) w else w))
     else Ret w)"
| "escape_analysis objs (If a c t f) escaping w =
     bindO (escape_analysis objs c True w) (\<lambda>w.
     bindO (escape_analysis objs t True w) (escape_analysis objs f True))"
| "escape_analysis objs (Function a r b ps) escaping w = escape_analysis objs b True w"
| "escape_analysis objs (Continuation a r b ps) escaping w =
     escape_analysis objs b True (if escaping then mark_escape a w else w)"
| "escape_analysis objs (With a r b ps) escaping w = escape_analysis objs b True w"
| "escape_analysis objs (Storage a r as) escaping w = for_each (\<lambda>t. escape_analysis objs t True) as w"
| "escape_analysis objs (Jump a r as) escaping w =
     bindO (set_short_circuit objs a r w) (\<lambda>w.
     bindO (escape_analysis objs r False w) (for_each (\<lambda>t. escape_analysis objs t True) as))"
| "escape_analysis objs (Invoke a r as) escaping w =
     bindO (escape_analysis objs r True w) (for_each (\<lambda>t. escape_analysis objs t True) as)"
| "escape_analysis objs (Constrain a r b) escaping w = escape_analysis objs b True w"
| "escape_analysis objs (Literal a n) escaping w = Ret w"
| "escape_analysis objs (Assembly a oc as) escaping w = Ret w"
| "escape_analysis objs (Meta a r) escaping w = Ret w"

end
