(* ===== verification/Escapes.thy ===== *)
theory Escapes
  imports Binding_Passes
begin

text \<open>
  What \<open>escape_analysis\<close> guarantees: a continuation that does not escape is only jumped to, by jumps
  that know it (\<open>short_circuit\<close>), so that the generated code needs no record of it in memory.
\<close>

section \<open>What a symbol names\<close>

definition names_target :: "objects \<Rightarrow> 's world \<Rightarrow> expr \<Rightarrow> addr option" where
  "names_target objs w x = (case x of
      Symbol a n \<Rightarrow> Option.bind (symbol_aug (nodes w a)) (\<lambda>b.
        Option.bind (aug_expression (augs w b)) (\<lambda>t. Option.bind (objs t) (\<lambda>t.
        if is_return_point w b t then Some (address t) else None)))
    | Continuation c r b ps \<Rightarrow> Some c
    | _ \<Rightarrow> None)"

text \<open>The symbols are linked, to bindings of expressions that exist.\<close>

definition resolved :: "objects \<Rightarrow> 's world \<Rightarrow> expr \<Rightarrow> bool" where
  "resolved objs w x \<longleftrightarrow> (case x of
      Symbol a n \<Rightarrow> (case symbol_aug (nodes w a) of None \<Rightarrow> False
        | Some b \<Rightarrow> (case aug_expression (augs w b) of None \<Rightarrow> False | Some t \<Rightarrow> objs t \<noteq> None))
    | _ \<Rightarrow> True)"

lemma resolvedE:
  assumes "resolved objs w (Symbol a n)"
  obtains b t where "\<And>m. (binding_of w (Symbol a m) :: ('e, _) outcome) = Ret b" "(target_of objs w b :: ('e, _) outcome) = Ret t"
    "\<And>m. names_target objs w (Symbol a m) = (if is_return_point w b t then Some (address t) else None)"
  using assms by (auto simp: resolved_def binding_of_def target_of_def names_target_def split: option.splits)

section \<open>The effects of the analysis\<close>

datatype effect = Escape addr | Circuit addr addr

primrec do_effect :: "effect \<Rightarrow> 's world \<Rightarrow> 's world" where
  "do_effect (Escape a) w = mark_escape a w"
| "do_effect (Circuit j t) w = set_node j (\<lambda>n. n\<lparr>short_circuit := Some t\<rparr>) w"

definition option_list :: "'a option \<Rightarrow> 'a list" where
  "option_list x = (case x of None \<Rightarrow> [] | Some y \<Rightarrow> [y])"

lemma option_list_simps [simp]: "option_list None = []" "option_list (Some x) = [x]"
  by (simp_all add: option_list_def)

fun escape_effects :: "objects \<Rightarrow> 's world \<Rightarrow> expr \<Rightarrow> bool \<Rightarrow> effect list" where
  "escape_effects objs w (Symbol a n) esc =
     (if esc then map Escape (option_list (names_target objs w (Symbol a n))) else [])"
| "escape_effects objs w (If a c t f) esc =
     escape_effects objs w c True @ escape_effects objs w t True @ escape_effects objs w f True"
| "escape_effects objs w (Function a r b ps) esc = escape_effects objs w b True"
| "escape_effects objs w (Continuation a r b ps) esc = (if esc then [Escape a] else []) @ escape_effects objs w b True"
| "escape_effects objs w (With a r b ps) esc = escape_effects objs w b True"
| "escape_effects objs w (Storage a r as) esc = concat (map (\<lambda>t. escape_effects objs w t True) as)"
| "escape_effects objs w (Jump a r as) esc =
     map (Circuit a) (option_list (names_target objs w r)) @ escape_effects objs w r False @
     concat (map (\<lambda>t. escape_effects objs w t True) as)"
| "escape_effects objs w (Invoke a r as) esc =
     escape_effects objs w r True @ concat (map (\<lambda>t. escape_effects objs w t True) as)"
| "escape_effects objs w (Constrain a r b) esc = escape_effects objs w b True"
| "escape_effects objs w e esc = []"

text \<open>The effects do not touch what the analysis looks at.\<close>

definition same_links :: "'s world \<Rightarrow> 's world \<Rightarrow> bool" where
  "same_links w w' \<longleftrightarrow> augs w' = augs w \<and> (\<forall>a. symbol_aug (nodes w' a) = symbol_aug (nodes w a))"

lemma same_links_effect [simp]: "same_links w (do_effect f w')  \<longleftrightarrow> same_links w w'"
  by (cases f) (auto simp: same_links_def mark_escape_def split: if_splits)

lemma same_links_effects [simp]: "same_links w (fold do_effect fs w') \<longleftrightarrow> same_links w w'"
  by (induction fs arbitrary: w') simp_all

lemma same_links_refl [simp]: "same_links w w"
  by (simp add: same_links_def)

lemma same_links_names:
  assumes "same_links w w'"
  shows "names_target objs w' x = names_target objs w x" "binding_of w' y = binding_of w y"
    "target_of objs w' b = target_of objs w b" "is_return_point w' b t = is_return_point w b t"
  using assms by (auto simp: same_links_def names_target_def binding_of_def target_of_def is_return_point_def split: expr.split)

lemma set_short_circuit_effect:
  fixes w :: "'s world"
  assumes "resolved objs w r" "same_links w w'"
  shows "(set_short_circuit objs a r w' :: ('e, _) outcome) = Ret (fold do_effect (map (Circuit a) (option_list (names_target objs w r))) w')"
proof (cases r)
  case (Symbol c n)
  from assms(1) [unfolded Symbol] obtain b t where
    "\<And>m. (binding_of w (Symbol c m) :: ('e, _) outcome) = Ret b" "(target_of objs w b :: ('e, _) outcome) = Ret t"
    "\<And>m. names_target objs w (Symbol c m) = (if is_return_point w b t then Some (address t) else None)"
    by (rule resolvedE) blast
  then show ?thesis by (simp add: Symbol set_short_circuit_def same_links_names [OF assms(2)])
qed (simp_all add: set_short_circuit_def names_target_def)

lemma escape_all_effects:
  fixes w :: "'s world"
  assumes "\<And>t (w' :: 's world). t \<in> set ts \<Longrightarrow> same_links w w' \<Longrightarrow>
      (escape_analysis objs t True w' :: ('e, _) outcome) = Ret (fold do_effect (escape_effects objs w t True) w')"
    and "same_links w w'"
  shows "(for_each (\<lambda>t. escape_analysis objs t True) ts w' :: ('e, _) outcome) =
    Ret (fold do_effect (concat (map (\<lambda>t. escape_effects objs w t True) ts)) w')"
  using assms by (induction ts arbitrary: w') auto

lemma escape_analysis_effects:
  fixes w :: "'s world"
  assumes "list_all (resolved objs w) (postorder e)" "same_links w w'"
  shows "(escape_analysis objs e esc w' :: ('e, _) outcome) = Ret (fold do_effect (escape_effects objs w e esc) w')"
  using assms
proof (induction e arbitrary: esc w')
  case (Symbol a n)
  then have "resolved objs w (Symbol a n)" by simp
  then obtain b t where
    "\<And>m. (binding_of w (Symbol a m) :: ('e, _) outcome) = Ret b" "(target_of objs w b :: ('e, _) outcome) = Ret t"
    "\<And>m. names_target objs w (Symbol a m) = (if is_return_point w b t then Some (address t) else None)"
    by (rule resolvedE) blast
  then show ?case using Symbol.prems(2) by (simp add: same_links_names [OF Symbol.prems(2)])
next
  case (Storage a r as)
  then show ?case by (auto intro!: escape_all_effects simp: list_all_iff)
next
  case (Invoke a r as)
  have "\<And>t (w' :: 's world). t \<in> set as \<Longrightarrow> same_links w w' \<Longrightarrow>
      (escape_analysis objs t True w' :: ('e, _) outcome) = Ret (fold do_effect (escape_effects objs w t True) w')"
    using Invoke.IH(2) Invoke.prems(1) by (simp add: list_all_iff ball_Un)
  then show ?case using Invoke by (simp add: escape_all_effects)
next
  case (Jump a r as)
  have "\<And>t (w' :: 's world). t \<in> set as \<Longrightarrow> same_links w w' \<Longrightarrow>
      (escape_analysis objs t True w' :: ('e, _) outcome) = Ret (fold do_effect (escape_effects objs w t True) w')"
    using Jump.IH(2) Jump.prems(1) by (simp add: list_all_iff ball_Un)
  moreover have "resolved objs w r"
    using Jump.prems(1) by (cases r) (auto simp: resolved_def)
  ultimately show ?case using Jump by (simp add: escape_all_effects set_short_circuit_effect)
next
  case (Continuation a r b ps)
  have "same_links w (if esc then mark_escape a w' else w')"
    using Continuation.prems(2) by (simp add: same_links_def mark_escape_def)
  then show ?case using Continuation by simp
qed (simp_all)


section \<open>Soundness\<close>

lemma effects_of_occurrence:
  assumes "x \<in> set (postorder e)" "names_target objs w x = Some t"
  shows "(x = e \<and> \<not> esc) \<or> Escape t \<in> set (escape_effects objs w e esc) \<or>
    (\<exists>j as. Jump j x as \<in> set (postorder e) \<and> Circuit j t \<in> set (escape_effects objs w e esc))"
  using assms(1)
proof (induction e arbitrary: esc)
  case (Jump j r as)
  consider "x = Jump j r as" | "x \<in> set (postorder r)" | u where "u \<in> set as" "x \<in> set (postorder u)"
    using Jump.prems by auto
  then show ?case
  proof cases
    case 1
    then show ?thesis using assms(2) by (simp add: names_target_def)
  next
    case 2
    from Jump.IH(1) [OF this, of False] show ?thesis using assms(2) by fastforce
  next
    case 3
    from Jump.IH(2) [OF this, of True] 3(1) show ?thesis by fastforce
  qed
next
  case (Invoke j r as)
  consider "x = Invoke j r as" | "x \<in> set (postorder r)" | u where "u \<in> set as" "x \<in> set (postorder u)"
    using Invoke.prems by auto
  then show ?case
  proof cases
    case 1
    then show ?thesis using assms(2) by (simp add: names_target_def)
  next
    case 2
    from Invoke.IH(1) [OF this, of True] show ?thesis by fastforce
  next
    case 3
    from Invoke.IH(2) [OF this, of True] 3(1) show ?thesis by fastforce
  qed
next
  case (Storage j r as)
  consider "x = Storage j r as" | u where "u \<in> set as" "x \<in> set (postorder u)"
    using Storage.prems by auto
  then show ?case
  proof cases
    case 1
    then show ?thesis using assms(2) by (simp add: names_target_def)
  next
    case 2
    from Storage.IH(2) [OF this, of True] 2(1) show ?thesis by fastforce
  qed
next
  case (If a c u f)
  then show ?case using If.IH [of True] assms(2) by (fastforce simp: names_target_def)
next
  case (Function a r b ps)
  then show ?case using Function.IH(2) [of True] assms(2) by (fastforce simp: names_target_def)
next
  case (With a r b ps)
  then show ?case using With.IH(2) [of True] assms(2) by (fastforce simp: names_target_def)
next
  case (Continuation a r b ps)
  then show ?case using Continuation.IH(2) [of True] assms(2) by (fastforce simp: names_target_def)
next
  case (Constrain a r b)
  then show ?case using Constrain.IH(2) [of True] assms(2) by (fastforce simp: names_target_def)
qed (use assms(2) in \<open>auto simp: names_target_def\<close>)

lemma circuit_of_jump:
  "Circuit j t \<in> set (escape_effects objs w e esc) \<Longrightarrow>
   \<exists>r as. Jump j r as \<in> set (postorder e) \<and> names_target objs w r = Some t"
proof (induction e arbitrary: esc)
  case (Jump a r as)
  then show ?case by (cases "names_target objs w r") fastforce+
qed (fastforce split: if_splits)+

lemma escapes_effects: "Escape t \<in> set fs \<Longrightarrow> escapes (nodes (fold do_effect fs w) t)"
proof -
  have keep: "escapes (nodes w t) \<Longrightarrow> escapes (nodes (fold do_effect fs w) t)" for fs :: "effect list" and w :: "'s world"
  proof (induction fs arbitrary: w)
    case (Cons f fs)
    then have "escapes (nodes (do_effect f w) t)" by (cases f) (auto simp: mark_escape_def)
    then show ?case using Cons.IH by simp
  qed simp
  show "Escape t \<in> set fs \<Longrightarrow> escapes (nodes (fold do_effect fs w) t)"
    by (induction fs arbitrary: w) (auto simp: mark_escape_def intro: keep)
qed

lemma circuit_effects:
  "Circuit j t \<in> set fs \<Longrightarrow> \<forall>u. Circuit j u \<in> set fs \<longrightarrow> u = t \<Longrightarrow>
   short_circuit (nodes (fold do_effect fs w) j) = Some t"
proof (induction fs rule: rev_induct)
  case (snoc f fs)
  show ?case
  proof (cases "f = Circuit j t")
    case True
    then show ?thesis by simp
  next
    case False
    then have "Circuit j t \<in> set fs" using snoc.prems(1) by simp
    moreover have "\<forall>u. Circuit j u \<in> set fs \<longrightarrow> u = t" using snoc.prems(2) by simp
    ultimately have IH: "short_circuit (nodes (fold do_effect fs w) j) = Some t" by (rule snoc.IH)
    show ?thesis
    proof (cases f)
      case (Circuit i u)
      then have "i \<noteq> j" using snoc.prems(2) False by auto
      then show ?thesis using IH Circuit by simp
    next
      case (Escape i)
      then show ?thesis using IH by (auto simp: mark_escape_def)
    qed
  qed
qed simp

text \<open>C28. After \<open>escape_analysis\<close> every continuation or with that an
occurrence of an expression means is marked as escaping, unless the occurrence is the reference
of a jump that was short-circuited to exactly this target.\<close>

lemma escapes_sound:
  fixes w :: "'s world"
  assumes "list_all (resolved objs w) (postorder e)" "distinct (map address (postorder e))"
    and x: "x \<in> set (postorder e)" "names_target objs w x = Some t"
  shows "\<exists>w'. (escape_analysis objs e True w :: ('e, _) outcome) = Ret w' \<and>
    (escapes (nodes w' t) \<or> (\<exists>j as. Jump j x as \<in> set (postorder e) \<and> short_circuit (nodes w' j) = Some t))"
proof -
  let ?fs = "escape_effects objs w e True"
  have r: "(escape_analysis objs e True w :: ('e, _) outcome) = Ret (fold do_effect ?fs w)"
    using escape_analysis_effects [OF assms(1), of w True] by simp
  from effects_of_occurrence [OF x, of True] consider "Escape t \<in> set ?fs" |
    j as where "Jump j x as \<in> set (postorder e)" "Circuit j t \<in> set ?fs" by blast
  then show ?thesis
  proof cases
    case 1
    then show ?thesis using r escapes_effects by blast
  next
    case 2
    have "u = t" if u: "Circuit j u \<in> set ?fs" for u
    proof -
      from circuit_of_jump [OF u] obtain r bs where
        j: "Jump j r bs \<in> set (postorder e)" "names_target objs w r = Some u" by blast
      have "Jump j r bs = Jump j x as"
        using assms(2) j(1) 2(1) by (auto simp: distinct_map dest: inj_onD [where x = "Jump j r bs" and y = "Jump j x as"])
      then show ?thesis using j(2) x(2) by simp
    qed
    from circuit_effects [OF 2(2)] this show ?thesis using r 2(1) by blast
  qed
qed

text \<open>A continuation that is declared and jumped to.\<close>

lemma escapes_sound_witness:
  "\<exists>w'. (escape_analysis (\<lambda>a. None) (Jump 1 (Continuation 2 (Symbol 3 None) (Literal 4 0) []) []) True
      \<lparr>nodes = (\<lambda>a. zero_node), augs = (\<lambda>a. undefined), sigs = Var, region_state = ()\<rparr> :: (nat, _) outcome) = Ret w' \<and>
    (escapes (nodes w' 2) \<or> (\<exists>j as. Jump j (Continuation 2 (Symbol 3 None) (Literal 4 0) []) as \<in>
        set (postorder (Jump 1 (Continuation 2 (Symbol 3 None) (Literal 4 0) []) [])) \<and> short_circuit (nodes w' j) = Some 2))"
  by (rule escapes_sound) (simp_all add: resolved_def names_target_def)

end
