(* ===== verification/Scoping.thy ===== *)
theory Scoping
  imports Binding_Passes
begin

text \<open>
Linking of symbols (analysis.c, \<open>link_symbols\<close>) is lexical scoping: when every use has a binding in scope, the pass gives each the innermost binding of its name, where the bindings of continuations and withs come before those of the functions around them, and leaves the bindings as they are.
\<close>

section \<open>Scopes\<close>

text \<open>
  The uses of symbols in an expression, each with its name and the bindings that are in scope
  there, innermost first: within a function the bindings of its frame come before the static ones.
\<close>

definition declared :: "'s world \<Rightarrow> expr \<Rightarrow> addr" where
  "declared w r = the (symbol_aug (nodes w (address r)))"

fun scoped_uses :: "'s world \<Rightarrow> bool \<Rightarrow> addr list \<Rightarrow> addr list \<Rightarrow> expr \<Rightarrow> (addr \<times> string option \<times> addr list) list" where
  "scoped_uses w st stc dyn (Function a r b ps) =
     scoped_uses w False (declared w r # stc) (rev (map (declared w) ps)) b"
| "scoped_uses w st stc dyn (With a r b ps) =
     (let bs = rev (map (declared w) ps) @ [declared w r]
      in if st then scoped_uses w st (bs @ stc) dyn b else scoped_uses w st stc (bs @ dyn) b)"
| "scoped_uses w st stc dyn (Continuation a r b ps) =
     (let bs = rev (map (declared w) ps) @ [declared w r]
      in if st then scoped_uses w st (bs @ stc) dyn b else scoped_uses w st stc (bs @ dyn) b)"
| "scoped_uses w st stc dyn (Storage a r as) =
     (if st then concat (map (scoped_uses w st (declared w r # stc) dyn) as)
      else concat (map (scoped_uses w st stc (declared w r # dyn)) as))"
| "scoped_uses w st stc dyn (Symbol a n) = [(a, n, dyn @ stc)]"
| "scoped_uses w st stc dyn (If a c t f) =
     scoped_uses w st stc dyn c @ scoped_uses w st stc dyn t @ scoped_uses w st stc dyn f"
| "scoped_uses w st stc dyn (Invoke a r as) =
     scoped_uses w st stc dyn r @ concat (map (scoped_uses w st stc dyn) as)"
| "scoped_uses w st stc dyn (Jump a r as) =
     scoped_uses w st stc dyn r @ concat (map (scoped_uses w st stc dyn) as)"
| "scoped_uses w st stc dyn (Constrain a r b) = scoped_uses w st stc dyn b"
| "scoped_uses w st stc dyn e = []"

text \<open>The symbols that constructs declare.\<close>

fun declarations :: "expr \<Rightarrow> expr list" where
  "declarations (Function a r b ps) = r # ps @ declarations b"
| "declarations (With a r b ps) = r # ps @ declarations b"
| "declarations (Continuation a r b ps) = r # ps @ declarations b"
| "declarations (Storage a r as) = r # concat (map declarations as)"
| "declarations (If a c t f) = declarations c @ declarations t @ declarations f"
| "declarations (Invoke a r as) = declarations r @ concat (map declarations as)"
| "declarations (Jump a r as) = declarations r @ concat (map declarations as)"
| "declarations (Constrain a r b) = declarations b"
| "declarations e = []"

fun use_addresses :: "expr \<Rightarrow> addr list" where
  "use_addresses (Function a r b ps) = use_addresses b"
| "use_addresses (With a r b ps) = use_addresses b"
| "use_addresses (Continuation a r b ps) = use_addresses b"
| "use_addresses (Storage a r as) = concat (map use_addresses as)"
| "use_addresses (Symbol a n) = [a]"
| "use_addresses (If a c t f) = use_addresses c @ use_addresses t @ use_addresses f"
| "use_addresses (Invoke a r as) = use_addresses r @ concat (map use_addresses as)"
| "use_addresses (Jump a r as) = use_addresses r @ concat (map use_addresses as)"
| "use_addresses (Constrain a r b) = use_addresses b"
| "use_addresses e = []"

lemma concat_map_cong: "(\<And>x. x \<in> set xs \<Longrightarrow> map h (f x) = g x) \<Longrightarrow> map h (concat (map f xs)) = concat (map g xs)"
  by (induction xs) auto

lemma scoped_uses_addresses: "map fst (scoped_uses w st stc dyn e) = use_addresses e"
  by (induction e arbitrary: st stc dyn) (simp_all add: Let_def concat_map_cong)

text \<open>The innermost binding of a name.\<close>

definition innermost :: "'s world \<Rightarrow> string option \<Rightarrow> addr list \<Rightarrow> addr option" where
  "innermost w name env = find (\<lambda>b. defined_string_equals (aug_name (augs w b)) name) env"

lemma find_append: "find P (xs @ ys) = (case find P xs of None \<Rightarrow> find P ys | Some x \<Rightarrow> Some x)"
  by (induction xs) auto

lemma assign_binding_innermost:
  "assign_binding a name bs w = map_option (\<lambda>b. set_node a (\<lambda>n. n\<lparr>symbol_aug := Some b\<rparr>) w) (innermost w name bs)"
  by (induction bs) (auto simp: innermost_def)

definition bind_use :: "'s world \<Rightarrow> addr \<times> string option \<times> addr list \<Rightarrow> 's world \<Rightarrow> 's world" where
  "bind_use w0 u w = (case u of (a, name, env) \<Rightarrow> set_node a (\<lambda>n. n\<lparr>symbol_aug := innermost w0 name env\<rparr>) w)"

section \<open>Linking is lexical scoping\<close>

text \<open>Worlds during linking: bindings and declared symbols as in the beginning, later uses still unbound.\<close>

definition linking :: "'s world \<Rightarrow> addr set \<Rightarrow> addr set \<Rightarrow> 's world \<Rightarrow> bool" where
  "linking w0 uses decls w \<longleftrightarrow> augs w = augs w0 \<and>
     (\<forall>d \<in> decls. symbol_aug (nodes w d) = symbol_aug (nodes w0 d)) \<and>
     (\<forall>a \<in> uses. symbol_aug (nodes w a) = None)"

lemma linking_binds:
  "linking w0 uses decls w \<Longrightarrow> uses' \<subseteq> uses \<Longrightarrow> fst ` set us \<inter> (uses' \<union> decls) = {} \<Longrightarrow>
   linking w0 uses' decls (fold (bind_use w0) us w)"
proof (induction us arbitrary: w uses)
  case (Cons u us)
  obtain a name env where u: "u = (a, name, env)" by (cases u) auto
  have "linking w0 uses' decls (bind_use w0 u w)"
    using Cons.prems by (auto simp: u bind_use_def linking_def)
  then show ?case using Cons.IH [of uses' "bind_use w0 u w"] Cons.prems(3) by auto
qed (auto simp: linking_def)

definition in_scope :: "'s world \<Rightarrow> addr \<times> string option \<times> addr list \<Rightarrow> bool" where
  "in_scope w u = (case u of (a, name, env) \<Rightarrow> innermost w name env \<noteq> None)"

definition declared_ok :: "'s world \<Rightarrow> expr \<Rightarrow> bool" where
  "declared_ok w r = (case r of Symbol a n \<Rightarrow> symbol_aug (nodes w a) \<noteq> None | _ \<Rightarrow> False)"

lemma declared_binding:
  assumes "linking w0 uses decls w" "declared_ok w0 r" "address r \<in> decls"
  shows "binding_of w r = Ret (declared w0 r)"
  using assms by (cases r) (auto simp: declared_ok_def declared_def linking_def binding_of_def)

lemma declared_bindings:
  assumes "linking w0 uses decls w" "list_all (declared_ok w0) ps" "address ` set ps \<subseteq> decls"
  shows "bindings_of w ps = Ret (map (declared w0) ps)"
  using assms(2,3) by (induction ps) (auto simp: declared_binding [OF assms(1)])

lemma link_symbol_scoped:
  assumes "linking w0 uses decls w" "a \<in> uses" "in_scope w0 (a, name, dyn @ stc)"
  shows "link_symbol alloc stc dyn a name (ub, made, w) = Ret (ub, made, bind_use w0 (a, name, dyn @ stc) w)"
proof -
  have "innermost w n bs = innermost w0 n bs" for n bs using assms(1) by (simp add: linking_def innermost_def)
  then show ?thesis using assms
    by (auto simp: link_symbol_def linking_def assign_binding_innermost in_scope_def bind_use_def innermost_def find_append
        split: option.splits)
qed

definition well_scoped :: "'s world \<Rightarrow> bool \<Rightarrow> addr list \<Rightarrow> addr list \<Rightarrow> addr set \<Rightarrow> expr \<Rightarrow> bool" where
  "well_scoped w st stc dyn decls e \<longleftrightarrow> list_all (declared_ok w) (declarations e) \<and> address ` set (declarations e) \<subseteq> decls \<and>
     list_all (in_scope w) (scoped_uses w st stc dyn e)"

lemma link_all_scoped:
  fixes w0 :: "'s world"
  assumes "\<And>t (w :: 's world). t \<in> set ts \<Longrightarrow> linking w0 (set (use_addresses t)) decls w \<Longrightarrow>
      (link_symbols alloc st stc dyn t (ub, made, w) :: ('e, _) outcome) =
      Ret (ub, made, fold (bind_use w0) (scoped_uses w0 st stc dyn t) w)"
    and "linking w0 (set (concat (map use_addresses ts))) decls w"
    and "distinct (concat (map use_addresses ts))" "set (concat (map use_addresses ts)) \<inter> decls = {}"
  shows "(for_each (link_symbols alloc st stc dyn) ts (ub, made, w) :: ('e, _) outcome) =
    Ret (ub, made, fold (bind_use w0) (concat (map (scoped_uses w0 st stc dyn) ts)) w)"
  using assms
proof (induction ts arbitrary: w)
  case (Cons t ts)
  let ?w = "fold (bind_use w0) (scoped_uses w0 st stc dyn t) w"
  have "linking w0 (set (use_addresses t)) decls w"
    using Cons.prems(2) by (auto simp: linking_def)
  then have t: "(link_symbols alloc st stc dyn t (ub, made, w) :: ('e, _) outcome) = Ret (ub, made, ?w)"
    using Cons.prems(1) by simp
  have "fst ` set (scoped_uses w0 st stc dyn t) = set (use_addresses t)"
    by (metis scoped_uses_addresses list.set_map)
  then have "linking w0 (set (concat (map use_addresses ts))) decls ?w"
    using Cons.prems(3,4) by (intro linking_binds [OF Cons.prems(2)]) auto
  then show ?case using Cons.IH [of ?w] Cons.prems t by auto
qed simp

lemma distinct_part: "distinct (concat xss) \<Longrightarrow> xs \<in> set xss \<Longrightarrow> distinct xs"
  by (induction xss) auto

text \<open>A sequence of subexpressions in the same scope.\<close>

lemma link_parts:
  fixes w0 :: "'s world"
  assumes IH: "\<And>t (w :: 's world). t \<in> set ts \<Longrightarrow> well_scoped w0 st stc dyn decls t \<Longrightarrow> linking w0 (set (use_addresses t)) decls w \<Longrightarrow>
      distinct (use_addresses t) \<Longrightarrow> set (use_addresses t) \<inter> decls = {} \<Longrightarrow>
      (link_symbols alloc st stc dyn t (ub, made, w) :: ('e, _) outcome) =
      Ret (ub, made, fold (bind_use w0) (scoped_uses w0 st stc dyn t) w)"
    and ok: "list_all (well_scoped w0 st stc dyn decls) ts"
    and l: "linking w0 (set (concat (map use_addresses ts))) decls w"
    and d: "distinct (concat (map use_addresses ts))" "set (concat (map use_addresses ts)) \<inter> decls = {}"
  shows "(for_each (link_symbols alloc st stc dyn) ts (ub, made, w) :: ('e, _) outcome) =
    Ret (ub, made, fold (bind_use w0) (concat (map (scoped_uses w0 st stc dyn) ts)) w)"
proof (rule link_all_scoped [OF _ l d])
  fix t and w' :: "'s world"
  assume t: "t \<in> set ts" "linking w0 (set (use_addresses t)) decls w'"
  show "(link_symbols alloc st stc dyn t (ub, made, w') :: ('e, _) outcome) =
      Ret (ub, made, fold (bind_use w0) (scoped_uses w0 st stc dyn t) w')"
    by (rule IH [OF t(1) _ t(2)]) (use ok d t(1) in \<open>auto simp: list_all_iff intro: distinct_part [OF d(1)]\<close>)
qed

lemma for_each_two: "for_each f [i, j] = (\<lambda>x. bindO (f i x) (f j))"
proof -
  have "for_each f [] = Ret" by (rule ext) simp
  then have "for_each f [k] = f k" for k by (intro ext) simp
  then show ?thesis by (intro ext) simp
qed

lemma link_as_loop:
  "link_symbols alloc st stc dyn (If a c t f) l = for_each (link_symbols alloc st stc dyn) [c, t, f] l"
  "link_symbols alloc st stc dyn (Invoke a r as) l = for_each (link_symbols alloc st stc dyn) (r # as) l"
  "link_symbols alloc st stc dyn (Jump a r as) l = for_each (link_symbols alloc st stc dyn) (r # as) l"
  by (simp_all only: link_symbols.simps for_each.simps(2) [of _ _ "[_, _]"] for_each_two)
    simp_all

lemma link_symbols_result:
  fixes w0 :: "'s world"
  assumes "well_scoped w0 st stc dyn decls e" "linking w0 (set (use_addresses e)) decls w"
    and "distinct (use_addresses e)" "set (use_addresses e) \<inter> decls = {}"
  shows "(link_symbols alloc st stc dyn e (ub, made, w) :: ('e, _) outcome) =
    Ret (ub, made, fold (bind_use w0) (scoped_uses w0 st stc dyn e) w)"
  using assms
proof (induction e arbitrary: st stc dyn w)
  case (Symbol a n)
  then show ?case by (simp add: well_scoped_def link_symbol_scoped)
next
  case (Function a r b ps)
  then show ?case
    using declared_binding [OF Function.prems(2), of r, where ?'b = 'e] declared_bindings [OF Function.prems(2), of ps, where ?'b = 'e]
      Function.IH(2) [of False "declared w0 r # stc" "rev (map (declared w0) ps)" w]
    by (simp add: well_scoped_def image_Un)
next
  case (With a r b ps)
  then show ?case
    using declared_binding [OF With.prems(2), of r, where ?'b = 'e] declared_bindings [OF With.prems(2), of ps, where ?'b = 'e]
      With.IH(2) [of st "rev (map (declared w0) ps) @ declared w0 r # stc" dyn w]
      With.IH(2) [of st stc "rev (map (declared w0) ps) @ declared w0 r # dyn" w]
    by (cases st) (simp_all add: well_scoped_def Let_def image_Un)
next
  case (Continuation a r b ps)
  then show ?case
    using declared_binding [OF Continuation.prems(2), of r, where ?'b = 'e] declared_bindings [OF Continuation.prems(2), of ps, where ?'b = 'e]
      Continuation.IH(2) [of st "rev (map (declared w0) ps) @ declared w0 r # stc" dyn w]
      Continuation.IH(2) [of st stc "rev (map (declared w0) ps) @ declared w0 r # dyn" w]
    by (cases st) (simp_all add: well_scoped_def Let_def image_Un)
next
  case (Storage a r as)
  have r: "declared_ok w0 r" "address r \<in> decls" using Storage.prems(1) by (auto simp: well_scoped_def)
  note f = declared_binding [OF Storage.prems(2) r, where ?'b = 'e]
  let ?stc = "if st then declared w0 r # stc else stc" and ?dyn = "if st then dyn else declared w0 r # dyn"
  have "list_all (well_scoped w0 st ?stc ?dyn decls) as"
    using Storage.prems(1) by (auto simp: well_scoped_def list_all_iff image_subset_iff)
  then have "(for_each (link_symbols alloc st ?stc ?dyn) as (ub, made, w) :: ('e, _) outcome) =
      Ret (ub, made, fold (bind_use w0) (concat (map (scoped_uses w0 st ?stc ?dyn) as)) w)"
    by (rule link_parts [rotated]) (use Storage in auto)
  then show ?case using f by (cases st) simp_all
next
  case (If a c t f)
  have "list_all (well_scoped w0 st stc dyn decls) [c, t, f]"
    using If.prems(1) by (auto simp: well_scoped_def image_Un)
  then have "(for_each (link_symbols alloc st stc dyn) [c, t, f] (ub, made, w) :: ('e, _) outcome) =
      Ret (ub, made, fold (bind_use w0) (concat (map (scoped_uses w0 st stc dyn) [c, t, f])) w)"
    by (rule link_parts [rotated]) (use If in auto)
  then show ?case unfolding link_as_loop by simp
next
  case (Invoke a r as)
  have "list_all (well_scoped w0 st stc dyn decls) (r # as)"
    using Invoke.prems(1) by (auto simp: well_scoped_def image_subset_iff list_all_iff)
  then have "(for_each (link_symbols alloc st stc dyn) (r # as) (ub, made, w) :: ('e, _) outcome) =
      Ret (ub, made, fold (bind_use w0) (concat (map (scoped_uses w0 st stc dyn) (r # as))) w)"
    by (rule link_parts [rotated]) (use Invoke in auto)
  then show ?case unfolding link_as_loop by simp
next
  case (Jump a r as)
  have "list_all (well_scoped w0 st stc dyn decls) (r # as)"
    using Jump.prems(1) by (auto simp: well_scoped_def image_subset_iff list_all_iff)
  then have "(for_each (link_symbols alloc st stc dyn) (r # as) (ub, made, w) :: ('e, _) outcome) =
      Ret (ub, made, fold (bind_use w0) (concat (map (scoped_uses w0 st stc dyn) (r # as))) w)"
    by (rule link_parts [rotated]) (use Jump in auto)
  then show ?case unfolding link_as_loop by simp
next
  case (Constrain a r b)
  then show ?case by (simp add: well_scoped_def)
qed simp_all

lemma fold_bind_use:
  "distinct (map fst us) \<Longrightarrow> (a, name, env) \<in> set us \<Longrightarrow>
   symbol_aug (nodes (fold (bind_use w0) us w) a) = innermost w0 name env"
proof (induction us arbitrary: w)
  case (Cons u us)
  have other: "a \<notin> fst ` set us \<Longrightarrow> nodes (fold (bind_use w0) us w) a = nodes w a" for w
    by (induction us arbitrary: w) (auto simp: bind_use_def split: prod.splits)
  show ?case
  proof (cases "u = (a, name, env)")
    case True
    then have "a \<notin> fst ` set us" using Cons.prems(1) by auto
    then have "nodes (fold (bind_use w0) us (bind_use w0 u w)) a = nodes (bind_use w0 u w) a" by (rule other)
    then show ?thesis using True by (simp only: fold_simps) (simp add: bind_use_def)
  next
    case False
    then show ?thesis using Cons by simp
  qed
qed simp

text \<open>C29. When every use of a symbol has a binding in scope, \<open>link_symbols\<close>
binds each use to the innermost declaration of its name, where the declarations in the frame of
a function come before static ones, makes no undefined binding, and leaves the bindings as they
are.\<close>

lemma link_symbols_lexical:
  fixes w :: "'s world"
  assumes "list_all (declared_ok w) (declarations e)"
    and "list_all (\<lambda>a. symbol_aug (nodes w a) = None) (use_addresses e)" "distinct (use_addresses e)"
    and "list_all (in_scope w) (scoped_uses w st stc dyn e)"
    and u: "(a, name, env) \<in> set (scoped_uses w st stc dyn e)"
  shows "\<exists>w' b. (link_symbols alloc st stc dyn e (ub, made, w) :: ('e, _) outcome) = Ret (ub, made, w') \<and>
    symbol_aug (nodes w' a) = Some b \<and> innermost w name env = Some b \<and> augs w' = augs w"
proof -
  let ?D = "address ` set (declarations e)" and ?us = "scoped_uses w st stc dyn e"
  have "set (use_addresses e) \<inter> ?D = {}"
  proof -
    have False if "r \<in> set (declarations e)" "address r \<in> set (use_addresses e)" for r
    proof -
      have "declared_ok w r" "symbol_aug (nodes w (address r)) = None" using assms(1,2) that by (auto simp: list_all_iff)
      then show False by (cases r) (auto simp: declared_ok_def)
    qed
    then show ?thesis by auto
  qed
  moreover have "linking w (set (use_addresses e)) ?D w" using assms(2) by (simp add: linking_def list_all_iff)
  moreover have "well_scoped w st stc dyn ?D e" using assms(1,4) by (simp add: well_scoped_def)
  ultimately have r: "(link_symbols alloc st stc dyn e (ub, made, w) :: ('e, _) outcome) = Ret (ub, made, fold (bind_use w) ?us w)"
    by (intro link_symbols_result assms(3))
  have "distinct (map fst ?us)" using assms(3) by (simp add: scoped_uses_addresses)
  from fold_bind_use [OF this u, of w w] have "symbol_aug (nodes (fold (bind_use w) ?us w) a) = innermost w name env" .
  moreover have "innermost w name env \<noteq> None" using assms(4) u by (auto simp: list_all_iff in_scope_def)
  moreover have "augs (fold (bind_use w) us v) = augs v" for us v
    by (induction us arbitrary: v) (auto simp: bind_use_def split: prod.splits)
  ultimately show ?thesis using r by auto
qed

text \<open>The use in a continuation with the name of a parameter of the surrounding function is of the continuation.\<close>

lemma link_symbols_lexical_witness:
  "\<exists>(w' :: unit world) b.
     (link_symbols undefined True [] [] (Function 1 (Symbol 2 (Some ''f'')) (Continuation 4 (Symbol 5 (Some ''x'')) (Symbol 6 (Some ''x'')) []) [Symbol 3 (Some ''x'')])
      ([], [], \<lparr>nodes = (\<lambda>a. zero_node\<lparr>symbol_aug := if a = 6 then None else Some (a + 10)\<rparr>),
        augs = (\<lambda>b. undefined\<lparr>aug_name := Some (if b = 12 then ''f'' else ''x'')\<rparr>), sigs = Var, region_state = ()\<rparr>)
        :: (nat, _) outcome) = Ret ([], [], w') \<and>
     symbol_aug (nodes w' 6) = Some b \<and>
     innermost \<lparr>nodes = (\<lambda>a. zero_node\<lparr>symbol_aug := if a = 6 then None else Some (a + 10)\<rparr>),
        augs = (\<lambda>b. undefined\<lparr>aug_name := Some (if b = 12 then ''f'' else ''x'')\<rparr>), sigs = Var, region_state = ()\<rparr>
       (Some ''x'') [15, 13, 12] = Some b \<and>
     augs w' = (\<lambda>b. undefined\<lparr>aug_name := Some (if b = 12 then ''f'' else ''x'')\<rparr>)"
  using link_symbols_lexical [where a = 6 and name = "Some ''x''" and env = "[15, 13, 12]" and st = True and stc = "[]" and dyn = "[]"
      and e = "Function 1 (Symbol 2 (Some ''f'')) (Continuation 4 (Symbol 5 (Some ''x'')) (Symbol 6 (Some ''x'')) []) [Symbol 3 (Some ''x'')]"
      and w = "\<lparr>nodes = (\<lambda>a. zero_node\<lparr>symbol_aug := if a = 6 then None else Some (a + 10)\<rparr>),
        augs = (\<lambda>b. undefined\<lparr>aug_name := Some (if b = 12 then ''f'' else ''x'')\<rparr>), sigs = Var, region_state = ()\<rparr> :: unit world"
      and alloc = undefined and ub = "[]" and made = "[]" and 'e = nat]
  by (simp add: declared_ok_def in_scope_def innermost_def defined_string_equals_def declared_def)

end
