(* ===== verification/Generator.thy ===== *)
theory Generator
  imports Binding_Passes
begin

text \<open>
\<open>bootstrap/x86_64_generator.c\<close>: the layout of frames and the generation of assembly expressions for the constructs of the language. The list of instructions is built by prepending, as in the code, and reversed in the end.
\<close>

section \<open>Frames\<close>

definition CONT_SIZE :: u64 where "CONT_SIZE = 7 * WORD_SIZE"
definition CONT_R15 :: u64 where "CONT_R15 = 6 * WORD_SIZE"
definition CONT_R12 :: u64 where "CONT_R12 = 5 * WORD_SIZE"
definition CONT_RBX :: u64 where "CONT_RBX = 4 * WORD_SIZE"
definition CONT_R13 :: u64 where "CONT_R13 = 3 * WORD_SIZE"
definition CONT_R14 :: u64 where "CONT_R14 = 2 * WORD_SIZE"
definition CONT_CIR :: u64 where "CONT_CIR = 1 * WORD_SIZE"
definition CONT_RBP :: u64 where "CONT_RBP = 0 * WORD_SIZE"

lemmas cont_defs = CONT_SIZE_def CONT_R15_def CONT_R12_def CONT_RBX_def CONT_R13_def CONT_R14_def
  CONT_CIR_def CONT_RBP_def WORD_SIZE_def

text \<open>
  The two loops that place bindings in the frame of a function: its parameters upwards behind the
  saved frame pointer and the return address, its other bindings downwards from the frame pointer.
  Both count in an \<open>int\<close>.
\<close>

fun place_parameters :: "expr list \<Rightarrow> 32 word \<Rightarrow> 's world \<Rightarrow> ('e, 's world) outcome" where
  "place_parameters [] parameter_offset w = Ret w"
| "place_parameters (t # ts) parameter_offset w =
     bindO (binding_of w t) (\<lambda>b.
     place_parameters ts (parameter_offset + ucast WORD_SIZE) (set_aug b (\<lambda>g. g\<lparr>offset := scast parameter_offset\<rparr>) w))"

fun place_bindings :: "addr list \<Rightarrow> 32 word \<Rightarrow> 's world \<Rightarrow> 's world" where
  "place_bindings [] binding_aug_offset w = w"
| "place_bindings (u # us) binding_aug_offset w =
     (let binding_aug_offset = ucast (scast binding_aug_offset - pad_size (aug_size (augs w u)) WORD_SIZE)
      in place_bindings us binding_aug_offset (set_aug u (\<lambda>g. g\<lparr>offset := scast binding_aug_offset\<rparr>) w))"

text \<open>\<open>u->size = size; append(u, binding_augs, r)\<close>, where the list is the first part of the state.\<close>

type_synonym 's frames = "addr list \<times> 's world"

definition add_binding :: "u64 \<Rightarrow> addr \<Rightarrow> 's frames \<Rightarrow> 's frames" where
  "add_binding sz u = (\<lambda>(binding_augs, w). (binding_augs @ [u], set_aug u (\<lambda>g. g\<lparr>aug_size := sz\<rparr>) w))"

definition add_symbol :: "u64 \<Rightarrow> expr \<Rightarrow> 's frames \<Rightarrow> ('e, 's frames) outcome" where
  "add_symbol sz t = (\<lambda>(binding_augs, w). bindO (binding_of w t) (\<lambda>u. Ret (add_binding sz u (binding_augs, w))))"

definition layout_continuation :: "addr \<Rightarrow> expr \<Rightarrow> expr list \<Rightarrow> 's frames \<Rightarrow> ('e, 's frames) outcome" where
  "layout_continuation a r ps f =
     bindO (if escapes (nodes (snd f) a) then add_symbol CONT_SIZE r f else Ret f)
       (for_each (add_symbol WORD_SIZE) ps)"

definition layout_arguments :: "addr \<Rightarrow> expr list \<Rightarrow> 's frames \<Rightarrow> ('e, 's frames) outcome" where
  "layout_arguments a as = (\<lambda>(binding_augs, w).
     bindO (deref (temp_storage_bndg (nodes w a))) (\<lambda>b.
     let w = set_aug b (\<lambda>g. g\<lparr>aug_size := WORD_SIZE * of_nat (length as)\<rparr>) w in
     Ret (if contains_flag (nodes w a) = CONTAINS_WITH then (binding_augs @ [b], w)
      else if contains_flag (nodes w a) = CONTAINS_JUMP then (binding_augs, set_aug b (\<lambda>g. g\<lparr>aug_type := nil_storage\<rparr>) w)
      else if contains_flag (nodes w a) = CONTAINS_NONE then
        (binding_augs, set_aug b (\<lambda>g. g\<lparr>aug_type := top_relative_storage, offset := 0\<rparr>) w)
      else (binding_augs, w))))"

text \<open>The bindings of a function are kept in its node; those of a program in the list of the caller.\<close>

fun layout_frames :: "expr \<Rightarrow> 's frames \<Rightarrow> ('e, 's frames) outcome" where
  "layout_frames (Function a r b ps) f =
     bindO (deref (function_augs (nodes (snd f) a))) (\<lambda>fas.
     bindO (layout_frames b (fas, snd f)) (\<lambda>(fas, w).
     let w = set_node a (\<lambda>n. n\<lparr>function_augs := Some fas\<rparr>) w in
     bindO (place_parameters ps (2 * ucast WORD_SIZE) w) (\<lambda>w.
     Ret (fst f, place_bindings (rev fas) 0 w))))"
| "layout_frames (Continuation a r b ps) f = bindO (layout_frames b f) (layout_continuation a r ps)"
| "layout_frames (With a r b ps) f = bindO (layout_frames b f) (layout_continuation a r ps)"
| "layout_frames (Storage a r as) f =
     bindO (for_each layout_frames as f) (add_symbol (of_nat (length as) * WORD_SIZE) r)"
| "layout_frames (Jump a r as) f =
     bindO (layout_frames r f) (\<lambda>f. bindO (for_each layout_frames as f) (layout_arguments a as))"
| "layout_frames (Invoke a r as) f =
     bindO (layout_frames r f) (\<lambda>f. bindO (for_each layout_frames as f) (layout_arguments a as))"
| "layout_frames (If a c t e) f =
     bindO (layout_frames c f) (\<lambda>f. bindO (layout_frames t f) (layout_frames e))"
| "layout_frames (Constrain a r b) f = layout_frames b f"
| "layout_frames (Literal a n) f = Ret f"
| "layout_frames (Symbol a n) f = Ret f"
| "layout_frames (Assembly a oc as) f = Ret f"
| "layout_frames (Meta a r) f = Ret f"

section \<open>Emitting instructions\<close>

text \<open>
  A generator prepends instructions to the list that \<open>c\<close> points to, and makes objects on the way. A
  maker makes an expression; where an argument of a call makes another, the model goes from left to
  right.
\<close>

type_synonym 's code = "expr list \<times> 's world"
type_synonym ('e, 's) generator = "'s code \<Rightarrow> ('e, 's code) outcome"
type_synonym 's maker = "'s world \<Rightarrow> expr \<times> 's world"

definition do_all :: "('a \<Rightarrow> ('e, 'a) outcome) list \<Rightarrow> 'a \<Rightarrow> ('e, 'a) outcome" where
  "do_all = for_each (\<lambda>h. h)"

definition reading :: "('s world \<Rightarrow> ('e, 'b) outcome) \<Rightarrow> ('b \<Rightarrow> ('e, 's) generator) \<Rightarrow> ('e, 's) generator" where
  "reading f k = (\<lambda>(c, w). bindO (f w) (\<lambda>b. k b (c, w)))"

definition making :: "('s world \<Rightarrow> 'b \<times> 's world) \<Rightarrow> ('b \<Rightarrow> ('e, 's) generator) \<Rightarrow> ('e, 's) generator" where
  "making m k = (\<lambda>(c, w). let (b, w) = m w in k b (c, w))"

definition prepend_made :: "'s maker \<Rightarrow> ('e, 's) generator" where
  "prepend_made m = making m (\<lambda>e (c, w). Ret (e # c, w))"

definition asm1 :: "'s alloc_fun \<Rightarrow> 32 word \<Rightarrow> 's maker \<Rightarrow> 's maker" where
  "asm1 alloc oc m1 w = (let (a1, w) = m1 w in make_asm1 alloc oc a1 w)"

definition asm2 :: "'s alloc_fun \<Rightarrow> 32 word \<Rightarrow> 's maker \<Rightarrow> 's maker \<Rightarrow> 's maker" where
  "asm2 alloc oc m1 m2 w = (let (a1, w) = m1 w; (a2, w) = m2 w in make_asm2 alloc oc a1 a2 w)"

definition asm3 :: "'s alloc_fun \<Rightarrow> 32 word \<Rightarrow> 's maker \<Rightarrow> 's maker \<Rightarrow> 's maker \<Rightarrow> 's maker" where
  "asm3 alloc oc m1 m2 m3 w =
     (let (a1, w) = m1 w; (a2, w) = m2 w; (a3, w) = m3 w in make_asm3 alloc oc a1 a2 a3 w)"

definition lit :: "'s alloc_fun \<Rightarrow> u64 \<Rightarrow> 's maker" where
  "lit alloc v = make_literal alloc v None None"

definition new_label :: "'s alloc_fun \<Rightarrow> 's world \<Rightarrow> addr \<times> 's world" where
  "new_label alloc = make_binding_aug alloc absolute_storage local_scope defined_state None None None"

definition jump_rel :: "'s alloc_fun \<Rightarrow> 32 word \<Rightarrow> addr \<Rightarrow> ('e, 's) generator" where
  "jump_rel alloc oc bndg =
     prepend_made (asm1 alloc oc (asm1 alloc LNKR_SUB_RIP_TO_REF (use_binding alloc bndg)))"

definition label :: "'s alloc_fun \<Rightarrow> 's maker \<Rightarrow> ('e, 's) generator" where
  "label alloc m = prepend_made (asm1 alloc LABEL m)"

text \<open>Loads, stores and addresses of bindings. The registers are made by the caller.\<close>

definition make_load ::
  "'s alloc_fun \<Rightarrow> addr \<Rightarrow> u64 \<Rightarrow> expr \<Rightarrow> expr \<Rightarrow> ('e, 's) generator" where
  "make_load alloc bndg off dest_reg scratch_reg = (\<lambda>(c, w).
     case aug_type (augs w bndg) of
       frame_relative_storage \<Rightarrow>
         prepend_made (asm3 alloc MOVQ_MDB_TO_REG (lit alloc (offset (augs w bndg) + off)) (make_asm0 alloc RBP) (Pair dest_reg)) (c, w)
     | absolute_storage \<Rightarrow> do_all
        [prepend_made (asm2 alloc MOVQ_IMM_TO_REG
           (asm2 alloc LNKR_ADD_OFF_TO_REF (use_binding alloc bndg) (lit alloc off)) (Pair scratch_reg)),
         prepend_made (asm3 alloc MOVQ_MDB_TO_REG (lit alloc 0) (Pair scratch_reg) (Pair dest_reg))] (c, w)
     | top_relative_storage \<Rightarrow>
         prepend_made (asm3 alloc MOVQ_MDB_TO_REG (lit alloc (offset (augs w bndg) + off)) (make_asm0 alloc RSP) (Pair dest_reg)) (c, w)
     | nil_storage \<Rightarrow> Ret (c, w))"

definition make_store ::
  "'s alloc_fun \<Rightarrow> expr \<Rightarrow> addr \<Rightarrow> u64 \<Rightarrow> expr \<Rightarrow> ('e, 's) generator" where
  "make_store alloc src_reg bndg off scratch_reg = (\<lambda>(c, w).
     case aug_type (augs w bndg) of
       frame_relative_storage \<Rightarrow>
         prepend_made (asm3 alloc MOVQ_REG_TO_MDB (Pair src_reg) (lit alloc (offset (augs w bndg) + off)) (make_asm0 alloc RBP)) (c, w)
     | absolute_storage \<Rightarrow> do_all
        [prepend_made (asm2 alloc MOVQ_IMM_TO_REG
           (asm2 alloc LNKR_ADD_OFF_TO_REF (use_binding alloc bndg) (lit alloc off)) (Pair scratch_reg)),
         prepend_made (asm3 alloc MOVQ_REG_TO_MDB (Pair src_reg) (lit alloc 0) (Pair scratch_reg))] (c, w)
     | top_relative_storage \<Rightarrow>
         prepend_made (asm3 alloc MOVQ_REG_TO_MDB (Pair src_reg) (lit alloc (offset (augs w bndg) + off)) (make_asm0 alloc RSP)) (c, w)
     | nil_storage \<Rightarrow> Ret (c, w))"

definition make_load_address :: "'s alloc_fun \<Rightarrow> addr \<Rightarrow> expr \<Rightarrow> ('e, 's) generator" where
  "make_load_address alloc bndg dest_reg = (\<lambda>(c, w).
     case aug_type (augs w bndg) of
       frame_relative_storage \<Rightarrow>
         prepend_made (asm3 alloc LEAQ_MDB_TO_REG (lit alloc (offset (augs w bndg))) (make_asm0 alloc RBP) (Pair dest_reg)) (c, w)
     | absolute_storage \<Rightarrow> prepend_made (asm2 alloc MOVQ_IMM_TO_REG (use_binding alloc bndg) (Pair dest_reg)) (c, w)
     | top_relative_storage \<Rightarrow>
         prepend_made (asm3 alloc LEAQ_MDB_TO_REG (lit alloc (offset (augs w bndg))) (make_asm0 alloc RSP) (Pair dest_reg)) (c, w)
     | nil_storage \<Rightarrow> Ret (c, w))"

text \<open>The same with the registers that are made for the call.\<close>

definition load_reg :: "'s alloc_fun \<Rightarrow> addr \<Rightarrow> u64 \<Rightarrow> 32 word \<Rightarrow> 32 word \<Rightarrow> ('e, 's) generator" where
  "load_reg alloc bndg off dest scratch =
     making (make_asm0 alloc dest) (\<lambda>d. making (make_asm0 alloc scratch) (make_load alloc bndg off d))"

definition store_reg :: "'s alloc_fun \<Rightarrow> 32 word \<Rightarrow> addr \<Rightarrow> u64 \<Rightarrow> 32 word \<Rightarrow> ('e, 's) generator" where
  "store_reg alloc src bndg off scratch =
     making (make_asm0 alloc src) (\<lambda>s. making (make_asm0 alloc scratch) (make_store alloc s bndg off))"

definition address_reg :: "'s alloc_fun \<Rightarrow> addr \<Rightarrow> 32 word \<Rightarrow> ('e, 's) generator" where
  "address_reg alloc bndg dest = making (make_asm0 alloc dest) (make_load_address alloc bndg)"

definition move_reg :: "'s alloc_fun \<Rightarrow> 32 word \<Rightarrow> 32 word \<Rightarrow> ('e, 's) generator" where
  "move_reg alloc src dest = prepend_made (asm2 alloc MOVQ_REG_TO_REG (make_asm0 alloc src) (make_asm0 alloc dest))"

definition load_mem :: "'s alloc_fun \<Rightarrow> u64 \<Rightarrow> 32 word \<Rightarrow> 32 word \<Rightarrow> ('e, 's) generator" where
  "load_mem alloc off base dest =
     prepend_made (asm3 alloc MOVQ_MDB_TO_REG (lit alloc off) (make_asm0 alloc base) (make_asm0 alloc dest))"

definition imm_reg :: "'s alloc_fun \<Rightarrow> 32 word \<Rightarrow> u64 \<Rightarrow> 32 word \<Rightarrow> ('e, 's) generator" where
  "imm_reg alloc oc v dest = prepend_made (asm2 alloc oc (lit alloc v) (make_asm0 alloc dest))"

definition push_reg :: "'s alloc_fun \<Rightarrow> 32 word \<Rightarrow> ('e, 's) generator" where
  "push_reg alloc reg = prepend_made (asm1 alloc PUSHQ_REG (make_asm0 alloc reg))"

definition pop_reg :: "'s alloc_fun \<Rightarrow> 32 word \<Rightarrow> ('e, 's) generator" where
  "pop_reg alloc reg = prepend_made (asm1 alloc POPQ_REG (make_asm0 alloc reg))"

section \<open>The constructs\<close>

text \<open>
  Each function of a construct takes the generators of its subexpressions, which
  \<open>generate_expressions\<close> passes, and the address of its node.
\<close>

definition sgenerate_ifs ::
  "'s alloc_fun \<Rightarrow> ('e, 's) generator \<Rightarrow> ('e, 's) generator \<Rightarrow> ('e, 's) generator \<Rightarrow> ('e, 's) generator" where
  "sgenerate_ifs alloc cnd con alt = do_all
     [cnd,
      prepend_made (asm2 alloc ORQ_REG_TO_REG (make_asm0 alloc RAX) (make_asm0 alloc RAX)),
      making (new_label alloc) (\<lambda>alternate_binding. do_all
       [jump_rel alloc JE_REL alternate_binding,
        con,
        making (new_label alloc) (\<lambda>end_binding. do_all
         [jump_rel alloc JMP_REL end_binding,
          label alloc (use_binding alloc alternate_binding),
          alt,
          label alloc (use_binding alloc end_binding)])])]"

fun store_arguments :: "'s alloc_fun \<Rightarrow> expr \<Rightarrow> ('e, 's) generator list \<Rightarrow> 32 word \<Rightarrow> ('e, 's) generator" where
  "store_arguments alloc r [] off = Ret"
| "store_arguments alloc r (t # ts) off = do_all
     [t,
      reading (\<lambda>w. binding_of w r) (\<lambda>b. store_reg alloc RAX b (scast off) R11),
      store_arguments alloc r ts (off + ucast WORD_SIZE)]"

definition sgenerate_storage_expressions :: "'s alloc_fun \<Rightarrow> expr \<Rightarrow> ('e, 's) generator list \<Rightarrow> ('e, 's) generator" where
  "sgenerate_storage_expressions alloc r ts = do_all
     [store_arguments alloc r ts 0,
      reading (\<lambda>w. binding_of w r) (\<lambda>b. address_reg alloc b RAX)]"

text \<open>A parameter stands for its value, any other binding for its address.\<close>

definition is_parameter :: "'s world \<Rightarrow> addr \<Rightarrow> expr \<Rightarrow> bool" where
  "is_parameter w b t \<longleftrightarrow> (type_of t = function_t \<or> type_of t = continuation_t) \<and>
     aug_symbol (augs w b) \<in> Some ` address ` set (parameters t)"

definition sgenerate_symbols :: "objects \<Rightarrow> 's alloc_fun \<Rightarrow> expr \<Rightarrow> ('e, 's) generator" where
  "sgenerate_symbols objs alloc n =
     reading (\<lambda>w. binding_of w n) (\<lambda>b.
     reading (\<lambda>w. target_of objs w b) (\<lambda>t.
     reading (\<lambda>w. Ret (is_parameter w b t)) (\<lambda>p.
     if p then load_reg alloc b 0 RAX R11 else address_reg alloc b RAX)))"

definition make_store_continuation :: "'s alloc_fun \<Rightarrow> addr \<Rightarrow> expr \<Rightarrow> ('e, 's) generator" where
  "make_store_continuation alloc a r =
     reading (\<lambda>w. binding_of w r) (\<lambda>b. do_all
      [store_reg alloc RBX b CONT_RBX R11,
       store_reg alloc R12 b CONT_R12 R11,
       store_reg alloc R13 b CONT_R13 R11,
       store_reg alloc R14 b CONT_R14 R11,
       store_reg alloc R15 b CONT_R15 R11,
       reading (\<lambda>w. deref (cont_instr_bndg (nodes w a))) (\<lambda>ci. address_reg alloc ci R10),
       store_reg alloc R10 b CONT_CIR R11,
       store_reg alloc RBP b CONT_RBP R11])"

definition temp_bndg :: "addr \<Rightarrow> 's world \<Rightarrow> ('e, addr) outcome" where
  "temp_bndg a w = deref (temp_storage_bndg (nodes w a))"

definition cond_push_relative_storage :: "'s alloc_fun \<Rightarrow> addr \<Rightarrow> nat \<Rightarrow> ('e, 's) generator" where
  "cond_push_relative_storage alloc a k =
     reading (temp_bndg a) (\<lambda>b (c, w). if aug_type (augs w b) = top_relative_storage
       then imm_reg alloc SUBQ_IMM_TO_REG (of_nat k * WORD_SIZE) RSP (c, w) else Ret (c, w))"

definition cond_pop_relative_storage :: "'s alloc_fun \<Rightarrow> addr \<Rightarrow> nat \<Rightarrow> ('e, 's) generator" where
  "cond_pop_relative_storage alloc a k =
     reading (temp_bndg a) (\<lambda>b (c, w). if aug_type (augs w b) = top_relative_storage
       then imm_reg alloc ADDQ_IMM_TO_REG (of_nat k * WORD_SIZE) RSP (c, w) else Ret (c, w))"

fun generate_args_to_buffer :: "'s alloc_fun \<Rightarrow> addr \<Rightarrow> ('e, 's) generator list \<Rightarrow> 32 word \<Rightarrow> ('e, 's) generator" where
  "generate_args_to_buffer alloc a [] off = Ret"
| "generate_args_to_buffer alloc a (t # ts) off = do_all
     [t,
      reading (temp_bndg a) (\<lambda>b. store_reg alloc RAX b (scast off) R10),
      generate_args_to_buffer alloc a ts (off + ucast WORD_SIZE)]"

fun generate_buffer_to_dest :: "'s alloc_fun \<Rightarrow> addr \<Rightarrow> nat \<Rightarrow> expr \<Rightarrow> 32 word \<Rightarrow> 32 word \<Rightarrow> ('e, 's) generator" where
  "generate_buffer_to_dest alloc a 0 dest_reg tmp_offset off = Ret"
| "generate_buffer_to_dest alloc a (Suc k) dest_reg tmp_offset off = do_all
     [reading (temp_bndg a) (\<lambda>b. load_reg alloc b (scast tmp_offset) RAX R10),
      prepend_made (asm3 alloc MOVQ_REG_TO_MDB (make_asm0 alloc RAX) (lit alloc (scast off)) (Pair dest_reg)),
      generate_buffer_to_dest alloc a k dest_reg (tmp_offset + ucast WORD_SIZE) (off + ucast WORD_SIZE)]"

definition sgenerate_continuations :: "'s alloc_fun \<Rightarrow> addr \<Rightarrow> expr \<Rightarrow> ('e, 's) generator \<Rightarrow> ('e, 's) generator" where
  "sgenerate_continuations alloc a r ex = do_all
     [\<lambda>(c, w). if escapes (nodes w a) then do_all
       [reading (\<lambda>w. binding_of w r) (\<lambda>b. address_reg alloc b RAX), make_store_continuation alloc a r] (c, w)
      else Ret (c, w),
      making (new_label alloc) (\<lambda>after_binding. do_all
       [jump_rel alloc JMP_REL after_binding,
        reading (\<lambda>w. deref (cont_instr_bndg (nodes w a))) (\<lambda>ci. label alloc (use_binding alloc ci)),
        ex,
        label alloc (use_binding alloc after_binding)])]"

definition sgenerate_withs :: "'s alloc_fun \<Rightarrow> addr \<Rightarrow> expr \<Rightarrow> ('e, 's) generator \<Rightarrow> expr list \<Rightarrow> ('e, 's) generator" where
  "sgenerate_withs alloc a r ex ps = do_all
     [\<lambda>(c, w). if escapes (nodes w a) then make_store_continuation alloc a r (c, w) else Ret (c, w),
      ex,
      making (new_label alloc) (\<lambda>end_binding. do_all
       [jump_rel alloc JMP_REL end_binding,
        reading (\<lambda>w. deref (cont_instr_bndg (nodes w a))) (\<lambda>ci. label alloc (use_binding alloc ci)),
        reading (\<lambda>w. case ps of [] \<Rightarrow> Undef | p # _ \<Rightarrow> binding_of w p) (\<lambda>b. load_reg alloc b 0 RAX R10),
        label alloc (use_binding alloc end_binding)])]"

text \<open>A jump to a known target copies the arguments to its parameters, any other to behind the record.\<close>

definition short_jump ::
  "objects \<Rightarrow> 's alloc_fun \<Rightarrow> addr \<Rightarrow> addr \<Rightarrow> expr \<Rightarrow> ('e, 's) generator \<Rightarrow> ('e, 's) generator list \<Rightarrow> ('e, 's) generator" where
  "short_jump objs alloc target a r ref ts =
     reading (\<lambda>w. deref (objs target)) (\<lambda>t. do_all
      [if type_of r = continuation_t then ref else Ret,
       (case parameters t of [] \<Rightarrow> Ret
        | p # _ \<Rightarrow> do_all
          [cond_push_relative_storage alloc a (length ts),
           generate_args_to_buffer alloc a ts 0,
           reading (\<lambda>w. binding_of w p) (\<lambda>b. address_reg alloc b R11),
           making (make_asm0 alloc R11) (\<lambda>d. generate_buffer_to_dest alloc a (length ts) d 0 0),
           cond_pop_relative_storage alloc a (length ts)]),
       reading (\<lambda>w. deref (cont_instr_bndg (nodes w (address t)))) (jump_rel alloc JMP_REL)])"

definition long_jump ::
  "'s alloc_fun \<Rightarrow> addr \<Rightarrow> ('e, 's) generator \<Rightarrow> ('e, 's) generator list \<Rightarrow> ('e, 's) generator" where
  "long_jump alloc a ref ts = do_all
     [cond_push_relative_storage alloc a (length ts),
      generate_args_to_buffer alloc a ts 0,
      ref,
      move_reg alloc RAX R11,
      making (make_asm0 alloc R11) (\<lambda>d. generate_buffer_to_dest alloc a (length ts) d 0 (ucast CONT_SIZE)),
      cond_pop_relative_storage alloc a (length ts),
      load_mem alloc CONT_RBX R11 RBX,
      load_mem alloc CONT_R12 R11 R12,
      load_mem alloc CONT_R13 R11 R13,
      load_mem alloc CONT_R14 R11 R14,
      load_mem alloc CONT_R15 R11 R15,
      load_mem alloc CONT_CIR R11 R10,
      load_mem alloc CONT_RBP R11 RBP,
      prepend_made (asm1 alloc JMP_TO_REG (make_asm0 alloc R10))]"

definition sgenerate_jumps ::
  "objects \<Rightarrow> 's alloc_fun \<Rightarrow> addr \<Rightarrow> expr \<Rightarrow> ('e, 's) generator \<Rightarrow> ('e, 's) generator list \<Rightarrow> ('e, 's) generator" where
  "sgenerate_jumps objs alloc a r ref ts =
     reading (\<lambda>w. Ret (short_circuit (nodes w a))) (\<lambda>sc. case sc of
       Some target \<Rightarrow> short_jump objs alloc target a r ref ts
     | None \<Rightarrow> long_jump alloc a ref ts)"

definition sgenerate_literals :: "'s alloc_fun \<Rightarrow> u64 \<Rightarrow> ('e, 's) generator" where
  "sgenerate_literals alloc v = imm_reg alloc MOVQ_IMM_TO_REG v RAX"

definition get_current_offset :: "addr \<Rightarrow> 's world \<Rightarrow> ('e, 32 word) outcome" where
  "get_current_offset a w = bindO (deref (function_augs (nodes w a))) (\<lambda>fas.
     case fas of b # _ \<Rightarrow> Ret (ucast (offset (augs w b))) | [] \<Rightarrow> Ret 0)"

definition sgenerate_functions :: "'s alloc_fun \<Rightarrow> addr \<Rightarrow> expr \<Rightarrow> ('e, 's) generator \<Rightarrow> ('e, 's) generator" where
  "sgenerate_functions alloc a r ex = do_all
     [reading (\<lambda>w. binding_of w r) (\<lambda>b. address_reg alloc b RAX),
      making (new_label alloc) (\<lambda>after_binding. do_all
       [jump_rel alloc JMP_REL after_binding,
        label alloc (Pair r),
        pop_reg alloc R11,
        push_reg alloc R9, push_reg alloc R8, push_reg alloc RCX,
        push_reg alloc RDX, push_reg alloc RSI, push_reg alloc RDI,
        push_reg alloc R11,
        push_reg alloc RBP,
        move_reg alloc RSP RBP,
        reading (get_current_offset a) (\<lambda>off. imm_reg alloc SUBQ_IMM_TO_REG (scast (- off)) RSP),
        ex,
        prepend_made (make_asm0 alloc LEAVE),
        pop_reg alloc R11,
        imm_reg alloc ADDQ_IMM_TO_REG (6 * WORD_SIZE) RSP,
        push_reg alloc R11,
        prepend_made (make_asm0 alloc RET),
        label alloc (use_binding alloc after_binding)])]"

text \<open>The loop that pushes the arguments from the buffer, the last one first.\<close>

fun push_arguments :: "'s alloc_fun \<Rightarrow> addr \<Rightarrow> nat \<Rightarrow> ('e, 's) generator" where
  "push_arguments alloc a 0 = Ret"
| "push_arguments alloc a (Suc k) = do_all
     [reading (temp_bndg a) (\<lambda>b. load_reg alloc b (scast (of_nat k * ucast WORD_SIZE :: 32 word)) R11 R10),
      push_reg alloc R11,
      push_arguments alloc a k]"

definition sgenerate_invokes :: "'s alloc_fun \<Rightarrow> addr \<Rightarrow> ('e, 's) generator \<Rightarrow> ('e, 's) generator list \<Rightarrow> ('e, 's) generator" where
  "sgenerate_invokes alloc a ref ts = do_all
     [cond_push_relative_storage alloc a (length ts),
      generate_args_to_buffer alloc a ts 0,
      \<lambda>(c, w). if contains_flag (nodes w a) = CONTAINS_WITH then push_arguments alloc a (length ts) (c, w) else Ret (c, w),
      ref,
      move_reg alloc RAX R11,
      if length ts > 0 then pop_reg alloc RDI else Ret,
      if length ts > 1 then pop_reg alloc RSI else Ret,
      if length ts > 2 then pop_reg alloc RDX else Ret,
      if length ts > 3 then pop_reg alloc RCX else Ret,
      if length ts > 4 then pop_reg alloc R8 else Ret,
      if length ts > 5 then pop_reg alloc R9 else Ret,
      imm_reg alloc MOVQ_IMM_TO_REG 0 RAX,
      prepend_made (asm1 alloc CALL_REG (make_asm0 alloc R11)),
      if length ts > 6 then imm_reg alloc ADDQ_IMM_TO_REG (WORD_SIZE * (of_nat (length ts) - 6)) RSP else Ret]"

definition sgenerate_constrains :: "('e, 's) generator \<Rightarrow> ('e, 's) generator" where
  "sgenerate_constrains ex = ex"

fun generate_expressions :: "objects \<Rightarrow> 's alloc_fun \<Rightarrow> expr \<Rightarrow> ('e, 's) generator" where
  "generate_expressions objs alloc (Continuation a r b ps) g =
     sgenerate_continuations alloc a r (generate_expressions objs alloc b) g"
| "generate_expressions objs alloc (With a r b ps) g =
     sgenerate_withs alloc a r (generate_expressions objs alloc b) ps g"
| "generate_expressions objs alloc (Jump a r as) g =
     sgenerate_jumps objs alloc a r (generate_expressions objs alloc r) (map (generate_expressions objs alloc) as) g"
| "generate_expressions objs alloc (Symbol a n) g = sgenerate_symbols objs alloc (Symbol a n) g"
| "generate_expressions objs alloc (Storage a r as) g =
     sgenerate_storage_expressions alloc r (map (generate_expressions objs alloc) as) g"
| "generate_expressions objs alloc (If a c t f) g =
     sgenerate_ifs alloc (generate_expressions objs alloc c) (generate_expressions objs alloc t)
       (generate_expressions objs alloc f) g"
| "generate_expressions objs alloc (Literal a v) g = sgenerate_literals alloc v g"
| "generate_expressions objs alloc (Function a r b ps) g =
     sgenerate_functions alloc a r (generate_expressions objs alloc b) g"
| "generate_expressions objs alloc (Invoke a r as) g =
     sgenerate_invokes alloc a (generate_expressions objs alloc r) (map (generate_expressions objs alloc) as) g"
| "generate_expressions objs alloc (Constrain a r b) g = sgenerate_constrains (generate_expressions objs alloc b) g"
| "generate_expressions objs alloc (Assembly a oc as) g = Ret g"
| "generate_expressions objs alloc (Meta a r) g = Ret g"

definition generate_program :: "objects \<Rightarrow> 's alloc_fun \<Rightarrow> expr list \<Rightarrow> 's world \<Rightarrow> ('e, 's code) outcome" where
  "generate_program objs alloc exprs w =
     bindO (for_each (generate_expressions objs alloc) exprs ([], w)) (\<lambda>(c, w). Ret (rev c, w))"

end
