(* ===== verification/Frames.thy ===== *)
theory Frames
  imports Generator Scoping
begin

text \<open>
The layout of frames (x86_64_generator.c, layout_frames): the storage of the bindings of a function is aligned, disjoint and within the space that its code reserves, its parameters are where its code pushes them, and the parameters of a continuation follow its record, as jumps expect.
\<close>

section \<open>What a frame holds\<close>

text \<open>
  The bindings that an expression adds to the frame around it, with their sizes and in the order of
  their addresses; the bindings that the layout changes; and the functions in it.
\<close>

definition temp_of :: "'s world \<Rightarrow> addr \<Rightarrow> addr" where
  "temp_of w a = the (temp_storage_bndg (nodes w a))"

definition record_slots :: "'s world \<Rightarrow> addr \<Rightarrow> expr \<Rightarrow> expr list \<Rightarrow> (addr \<times> u64) list" where
  "record_slots w a r ps = (if escapes (nodes w a) then [(declared w r, CONT_SIZE)] else []) @
     map (\<lambda>p. (declared w p, WORD_SIZE)) ps"

definition buffer_slots :: "'s world \<Rightarrow> addr \<Rightarrow> expr list \<Rightarrow> (addr \<times> u64) list" where
  "buffer_slots w a as =
     (if contains_flag (nodes w a) = CONTAINS_WITH then [(temp_of w a, WORD_SIZE * of_nat (length as))] else [])"

fun slots :: "'s world \<Rightarrow> expr \<Rightarrow> (addr \<times> u64) list" where
  "slots w (Continuation a r b ps) = slots w b @ record_slots w a r ps"
| "slots w (With a r b ps) = slots w b @ record_slots w a r ps"
| "slots w (Storage a r as) = concat (map (slots w) as) @ [(declared w r, of_nat (length as) * WORD_SIZE)]"
| "slots w (Jump a r as) = slots w r @ concat (map (slots w) as) @ buffer_slots w a as"
| "slots w (Invoke a r as) = slots w r @ concat (map (slots w) as) @ buffer_slots w a as"
| "slots w (If a c t e) = slots w c @ slots w t @ slots w e"
| "slots w (Constrain a r b) = slots w b"
| "slots w e = []"

fun touched :: "'s world \<Rightarrow> expr \<Rightarrow> addr list" where
  "touched w (Function a r b ps) = touched w b @ map (declared w) ps"
| "touched w (Continuation a r b ps) = touched w b @ map fst (record_slots w a r ps)"
| "touched w (With a r b ps) = touched w b @ map fst (record_slots w a r ps)"
| "touched w (Storage a r as) = concat (map (touched w) as) @ [declared w r]"
| "touched w (Jump a r as) = touched w r @ concat (map (touched w) as) @ [temp_of w a]"
| "touched w (Invoke a r as) = touched w r @ concat (map (touched w) as) @ [temp_of w a]"
| "touched w (If a c t e) = touched w c @ touched w t @ touched w e"
| "touched w (Constrain a r b) = touched w b"
| "touched w e = []"

fun funs :: "expr \<Rightarrow> addr list" where
  "funs (Function a r b ps) = a # funs b"
| "funs (Continuation a r b ps) = funs b"
| "funs (With a r b ps) = funs b"
| "funs (Storage a r as) = concat (map funs as)"
| "funs (Jump a r as) = funs r @ concat (map funs as)"
| "funs (Invoke a r as) = funs r @ concat (map funs as)"
| "funs (If a c t e) = funs c @ funs t @ funs e"
| "funs (Constrain a r b) = funs b"
| "funs e = []"

text \<open>The nodes are as the constructors make them.\<close>

fun layout_ok :: "'s world \<Rightarrow> expr \<Rightarrow> bool" where
  "layout_ok w (Function a r b ps) \<longleftrightarrow> list_all (declared_ok w) ps \<and> layout_ok w b"
| "layout_ok w (Continuation a r b ps) \<longleftrightarrow> declared_ok w r \<and> list_all (declared_ok w) ps \<and> layout_ok w b"
| "layout_ok w (With a r b ps) \<longleftrightarrow> declared_ok w r \<and> list_all (declared_ok w) ps \<and> layout_ok w b"
| "layout_ok w (Storage a r as) \<longleftrightarrow> declared_ok w r \<and> list_all (layout_ok w) as"
| "layout_ok w (Jump a r as) \<longleftrightarrow> temp_storage_bndg (nodes w a) \<noteq> None \<and> layout_ok w r \<and> list_all (layout_ok w) as"
| "layout_ok w (Invoke a r as) \<longleftrightarrow> temp_storage_bndg (nodes w a) \<noteq> None \<and> layout_ok w r \<and> list_all (layout_ok w) as"
| "layout_ok w (If a c t e) \<longleftrightarrow> layout_ok w c \<and> layout_ok w t \<and> layout_ok w e"
| "layout_ok w (Constrain a r b) \<longleftrightarrow> layout_ok w b"
| "layout_ok w e \<longleftrightarrow> True"

lemma slots_touched: "(b, s) \<in> set (slots w e) \<Longrightarrow> b \<in> set (touched w e)"
  by (induction e) (auto simp: record_slots_def buffer_slots_def split: if_splits)

section \<open>What the layout does\<close>

text \<open>
  Nodes keep everything but the bindings of functions; \<open>F\<close> are the functions that got theirs, \<open>T\<close>
  the bindings that may have changed, and \<open>S\<close> the slots whose sizes are set.
\<close>

definition same_but_augs :: "'s world \<Rightarrow> 's world \<Rightarrow> bool" where
  "same_but_augs w w' \<longleftrightarrow> (\<forall>n. (nodes w' n)\<lparr>function_augs := None\<rparr> = (nodes w n)\<lparr>function_augs := None\<rparr>)"

definition laid :: "addr set \<Rightarrow> addr set \<Rightarrow> (addr \<times> u64) set \<Rightarrow> 's world \<Rightarrow> 's world \<Rightarrow> bool" where
  "laid F T S w w' \<longleftrightarrow> same_but_augs w w' \<and> (\<forall>n. n \<notin> F \<longrightarrow> function_augs (nodes w' n) = function_augs (nodes w n)) \<and>
     (\<forall>b. b \<notin> T \<longrightarrow> augs w' b = augs w b) \<and> (\<forall>(b, s) \<in> S. aug_size (augs w' b) = s)"

lemma same_but_augs_refl [simp]: "same_but_augs w w"
  by (simp add: same_but_augs_def)

lemma same_but_augs_fields:
  assumes "same_but_augs w w'"
  shows "symbol_aug (nodes w' n) = symbol_aug (nodes w n)" "escapes (nodes w' n) = escapes (nodes w n)"
    "contains_flag (nodes w' n) = contains_flag (nodes w n)" "temp_storage_bndg (nodes w' n) = temp_storage_bndg (nodes w n)"
    "cont_instr_bndg (nodes w' n) = cont_instr_bndg (nodes w n)" "short_circuit (nodes w' n) = short_circuit (nodes w n)"
proof -
  from assms have e: "(nodes w' n)\<lparr>function_augs := None\<rparr> = (nodes w n)\<lparr>function_augs := None\<rparr>" by (simp add: same_but_augs_def)
  show "symbol_aug (nodes w' n) = symbol_aug (nodes w n)" using arg_cong [OF e, of symbol_aug] by simp
  show "escapes (nodes w' n) = escapes (nodes w n)" using arg_cong [OF e, of escapes] by simp
  show "contains_flag (nodes w' n) = contains_flag (nodes w n)" using arg_cong [OF e, of contains_flag] by simp
  show "temp_storage_bndg (nodes w' n) = temp_storage_bndg (nodes w n)" using arg_cong [OF e, of temp_storage_bndg] by simp
  show "cont_instr_bndg (nodes w' n) = cont_instr_bndg (nodes w n)" using arg_cong [OF e, of cont_instr_bndg] by simp
  show "short_circuit (nodes w' n) = short_circuit (nodes w n)" using arg_cong [OF e, of short_circuit] by simp
qed

lemma same_but_augs_trans: "same_but_augs w w1 \<Longrightarrow> same_but_augs w1 w2 \<Longrightarrow> same_but_augs w w2"
  by (simp add: same_but_augs_def)

lemma laid_refl [simp]: "laid F T {} w w"
  by (simp add: laid_def)

lemma laid_trans:
  assumes "laid F T S w w1" "laid F' T' S' w1 w2" "fst ` S \<inter> T' = {}"
  shows "laid (F \<union> F') (T \<union> T') (S \<union> S') w w2"
proof -
  have "aug_size (augs w2 b) = s" if "(b, s) \<in> S" for b s
  proof -
    have "b \<notin> T'" using assms(3) that by force
    then have "augs w2 b = augs w1 b" using assms(2) by (simp add: laid_def)
    then show ?thesis using assms(1) that by (auto simp: laid_def)
  qed
  then show ?thesis using assms(1,2) same_but_augs_trans unfolding laid_def by (auto 4 3)
qed

section \<open>The steps\<close>

lemma laid_add_binding: "laid {} {b} {(b, s)} w (snd (add_binding s b (bas, w)))"
  by (simp add: laid_def add_binding_def same_but_augs_def)

lemma declared_same:
  assumes "declared_ok w0 r" "same_but_augs w0 w"
  shows "(binding_of w r :: ('e, _) outcome) = Ret (declared w0 r)"
  using assms by (auto simp: declared_ok_def declared_def binding_of_def same_but_augs_fields split: expr.splits)

lemma layout_symbol:
  assumes "declared_ok w0 r" "same_but_augs w0 w"
  shows "\<exists>w'. (add_symbol s r (bas, w) :: ('e, _) outcome) = Ret (bas @ [declared w0 r], w') \<and>
    laid {} {declared w0 r} {(declared w0 r, s)} w w'"
  using declared_same [OF assms, where ?'e = 'e] laid_add_binding [of "declared w0 r" s w bas]
  by (auto simp: add_symbol_def add_binding_def)

lemma layout_symbols:
  assumes "list_all (declared_ok w0) ps" "same_but_augs w0 w" "distinct (map (declared w0) ps)"
  shows "\<exists>w'. (for_each (add_symbol s) ps (bas, w) :: ('e, _) outcome) = Ret (bas @ map (declared w0) ps, w') \<and>
    laid {} (declared w0 ` set ps) ((\<lambda>p. (declared w0 p, s)) ` set ps) w w'"
  using assms
proof (induction ps arbitrary: bas w)
  case (Cons p ps)
  obtain w1 where 1: "(add_symbol s p (bas, w) :: ('e, _) outcome) = Ret (bas @ [declared w0 p], w1)"
      "laid {} {declared w0 p} {(declared w0 p, s)} w w1"
    using layout_symbol [of w0 p w s bas, where ?'e = 'e] Cons.prems by auto
  have "same_but_augs w0 w1" using 1(2) Cons.prems(2) same_but_augs_trans by (auto simp: laid_def)
  from Cons.IH [OF _ this, of "bas @ [declared w0 p]"] Cons.prems obtain w2 where
    2: "(for_each (add_symbol s) ps (bas @ [declared w0 p], w1) :: ('e, _) outcome) = Ret ((bas @ [declared w0 p]) @ map (declared w0) ps, w2)"
      "laid {} (declared w0 ` set ps) ((\<lambda>p. (declared w0 p, s)) ` set ps) w1 w2"
    by auto
  show ?case using 1(1) 2(1) laid_trans [OF 1(2) 2(2)] Cons.prems(3) by auto
qed simp

lemma layout_record:
  assumes "declared_ok w0 r" "list_all (declared_ok w0) ps" "same_but_augs w0 w" "distinct (map fst (record_slots w0 a r ps))"
  shows "\<exists>w'. (layout_continuation a r ps (bas, w) :: ('e, _) outcome) = Ret (bas @ map fst (record_slots w0 a r ps), w') \<and>
    laid {} (fst ` set (record_slots w0 a r ps)) (set (record_slots w0 a r ps)) w w'"
proof (cases "escapes (nodes w0 a)")
  case True
  obtain w1 where 1: "(add_symbol CONT_SIZE r (bas, w) :: ('e, _) outcome) = Ret (bas @ [declared w0 r], w1)"
      "laid {} {declared w0 r} {(declared w0 r, CONT_SIZE)} w w1"
    using layout_symbol [OF assms(1,3)] by blast
  have s: "same_but_augs w0 w1" using 1(2) assms(3) same_but_augs_trans by (auto simp: laid_def)
  have d: "distinct (map (declared w0) ps)" "declared w0 r \<notin> declared w0 ` set ps"
    using assms(4) True by (auto simp: record_slots_def o_def image_iff)
  from layout_symbols [OF assms(2) s d(1), where ?'e = 'e] obtain w2 where
    2: "(for_each (add_symbol WORD_SIZE) ps (bas @ [declared w0 r], w1) :: ('e, _) outcome) = Ret ((bas @ [declared w0 r]) @ map (declared w0) ps, w2)"
      "laid {} (declared w0 ` set ps) ((\<lambda>p. (declared w0 p, WORD_SIZE)) ` set ps) w1 w2"
    by blast
  show ?thesis using 1(1) 2(1) laid_trans [OF 1(2) 2(2)] d(2) True assms(3)
    by (auto simp: layout_continuation_def record_slots_def same_but_augs_fields o_def image_image)
next
  case False
  then show ?thesis
    using layout_symbols [OF assms(2,3), of WORD_SIZE bas, where ?'e = 'e] assms(3,4)
    by (auto simp: layout_continuation_def record_slots_def same_but_augs_fields o_def image_image)
qed

lemma layout_buffer:
  assumes "temp_storage_bndg (nodes w0 a) \<noteq> None" "same_but_augs w0 w"
  shows "\<exists>w'. (layout_arguments a as (bas, w) :: ('e, _) outcome) = Ret (bas @ map fst (buffer_slots w0 a as), w') \<and>
    laid {} {temp_of w0 a} (set (buffer_slots w0 a as)) w w'"
proof -
  note f = same_but_augs_fields [OF assms(2), of a]
  obtain b where b: "temp_storage_bndg (nodes w0 a) = Some b" using assms(1) by auto
  have l: "laid {} {b} {} w (set_aug b g w)" "aug_size (g (augs w b)) = s \<Longrightarrow> laid {} {b} {(b, s)} w (set_aug b g w)" for g s
    by (simp_all add: laid_def same_but_augs_def)
  have l2: "laid {} {b} {} w (set_aug b g (set_aug b h w))" for g h
    by (simp add: laid_def same_but_augs_def)
  show ?thesis
    by (simp add: layout_arguments_def buffer_slots_def temp_of_def f b Let_def l l2)
qed

section \<open>The layout of an expression\<close>

definition lays ::
  "'s world \<Rightarrow> ('s frames \<Rightarrow> ('e, 's frames) outcome) \<Rightarrow> addr list \<Rightarrow> addr list \<Rightarrow> (addr \<times> u64) list \<Rightarrow> bool" where
  "lays w0 h F T L \<longleftrightarrow> (\<forall>bas w. same_but_augs w0 w \<and> (\<forall>n \<in> set F. function_augs (nodes w n) = Some []) \<longrightarrow>
     (\<exists>w'. h (bas, w) = Ret (bas @ map fst L, w') \<and> laid (set F) (set T) (set L) w w'))"

lemma laysD:
  assumes "lays w0 h F T L" "same_but_augs w0 w" "\<And>n. n \<in> set F \<Longrightarrow> function_augs (nodes w n) = Some []"
  obtains w' where "h (bas, w) = Ret (bas @ map fst L, w')" "laid (set F) (set T) (set L) w w'"
  using assms unfolding lays_def by blast

lemma laid_same: "laid F T S w w' \<Longrightarrow> same_but_augs w w'"
  by (simp add: laid_def)

lemma laid_functions: "laid F T S w w' \<Longrightarrow> n \<notin> F \<Longrightarrow> function_augs (nodes w' n) = function_augs (nodes w n)"
  by (simp add: laid_def)

lemma lays_bind:
  assumes h: "lays w0 h F T L" and k: "lays w0 k F' T' L'"
    and "set F \<inter> set F' = {}" "set T \<inter> set T' = {}" "fst ` set L \<subseteq> set T"
  shows "lays w0 (\<lambda>f. bindO (h f) k) (F @ F') (T @ T') (L @ L')"
  unfolding lays_def
proof (intro allI impI, elim conjE)
  fix bas w
  assume w: "same_but_augs w0 w" "\<forall>n \<in> set (F @ F'). function_augs (nodes w n) = Some []"
  obtain w1 where 1: "h (bas, w) = Ret (bas @ map fst L, w1)" "laid (set F) (set T) (set L) w w1"
    using laysD [OF h w(1)] w(2) by auto
  have "same_but_augs w0 w1" using same_but_augs_trans [OF w(1) laid_same [OF 1(2)]] .
  moreover have "function_augs (nodes w1 n) = Some []" if "n \<in> set F'" for n
    using laid_functions [OF 1(2), of n] that assms(3) w(2) by auto
  ultimately obtain w2 where 2: "k (bas @ map fst L, w1) = Ret ((bas @ map fst L) @ map fst L', w2)"
      "laid (set F') (set T') (set L') w1 w2"
    using laysD [OF k] by metis
  have "laid (set F \<union> set F') (set T \<union> set T') (set L \<union> set L') w w2"
    by (rule laid_trans [OF 1(2) 2(2)]) (use assms(4,5) in auto)
  then show "\<exists>w'. bindO (h (bas, w)) k = Ret (bas @ map fst (L @ L'), w') \<and> laid (set (F @ F')) (set (T @ T')) (set (L @ L')) w w'"
    using 1(1) 2(1) by auto
qed

lemma lays_Ret: "lays w0 Ret [] [] []"
  by (simp add: lays_def)

lemma lays_each:
  assumes "\<And>x. x \<in> set xs \<Longrightarrow> lays w0 (h x) (F x) (T x) (L x)" "\<And>x. x \<in> set xs \<Longrightarrow> fst ` set (L x) \<subseteq> set (T x)"
    and "distinct (concat (map F xs))" "distinct (concat (map T xs))"
  shows "lays w0 (for_each h xs) (concat (map F xs)) (concat (map T xs)) (concat (map L xs))"
  using assms
proof (induction xs)
  case Nil
  have "for_each h [] = Ret" by (rule ext) simp
  then show ?case by (simp add: lays_Ret)
next
  case (Cons x xs)
  have "for_each h (x # xs) = (\<lambda>f. bindO (h x f) (for_each h xs))" by (rule ext) simp
  then show ?case using Cons lays_bind [of w0 "h x" "F x" "T x" "L x" "for_each h xs"] by auto
qed

lemma lays_record:
  assumes "declared_ok w0 r" "list_all (declared_ok w0) ps" "distinct (map fst (record_slots w0 a r ps))"
  shows "lays w0 (layout_continuation a r ps) [] (map fst (record_slots w0 a r ps)) (record_slots w0 a r ps)"
  using layout_record [OF assms(1,2) _ assms(3)] by (auto simp: lays_def)

lemma lays_buffer:
  "temp_storage_bndg (nodes w0 a) \<noteq> None \<Longrightarrow> lays w0 (layout_arguments a as) [] [temp_of w0 a] (buffer_slots w0 a as)"
  using layout_buffer by (fastforce simp: lays_def)

lemma lays_symbol: "declared_ok w0 r \<Longrightarrow> lays w0 (add_symbol s r) [] [declared w0 r] [(declared w0 r, s)]"
  using layout_symbol by (fastforce simp: lays_def)

lemma slots_within: "fst ` set (slots w e) \<subseteq> set (touched w e)"
  using slots_touched by force

lemma bind_cong: "(\<lambda>f. bindO (h f) (\<lambda>x. k x)) = (\<lambda>f. bindO (h f) k)"
  by simp

lemma layout_as_steps:
  "layout_frames (Continuation a r b ps) = (\<lambda>f. bindO (layout_frames b f) (layout_continuation a r ps))"
  "layout_frames (With a r b ps) = (\<lambda>f. bindO (layout_frames b f) (layout_continuation a r ps))"
  "layout_frames (Storage a r as) = (\<lambda>f. bindO (for_each layout_frames as f) (add_symbol (of_nat (length as) * WORD_SIZE) r))"
  "layout_frames (Jump a r as) = (\<lambda>f. bindO (layout_frames r f) (\<lambda>f. bindO (for_each layout_frames as f) (layout_arguments a as)))"
  "layout_frames (Invoke a r as) = (\<lambda>f. bindO (layout_frames r f) (\<lambda>f. bindO (for_each layout_frames as f) (layout_arguments a as)))"
  "layout_frames (If a c t e) = (\<lambda>f. bindO (layout_frames c f) (\<lambda>f. bindO (layout_frames t f) (layout_frames e)))"
  "layout_frames (Constrain a r b) = layout_frames b"
  "layout_frames (Literal a n) = Ret" "layout_frames (Symbol a m) = Ret"
  "layout_frames (Assembly a oc as) = Ret" "layout_frames (Meta a r) = Ret"
  by (rule ext, simp)+

lemma place_parameters_offsets:
  assumes "list_all (declared_ok w0) ps" "same_but_augs w0 w" "distinct (map (declared w0) ps)"
  shows "\<exists>w'. (place_parameters ps po w :: ('e, _) outcome) = Ret w' \<and> nodes w' = nodes w \<and>
    (\<forall>b. b \<notin> declared w0 ` set ps \<longrightarrow> augs w' b = augs w b) \<and>
    (\<forall>i < length ps. offset (augs w' (declared w0 (ps ! i))) = scast (po + of_nat i * 8))"
  using assms
proof (induction ps arbitrary: po w)
  case (Cons p ps)
  let ?w = "set_aug (declared w0 p) (\<lambda>g. g\<lparr>offset := scast po\<rparr>) w"
  have s: "same_but_augs w0 ?w" using Cons.prems(2) by (simp add: same_but_augs_def)
  obtain w' where w': "(place_parameters ps (po + ucast WORD_SIZE) ?w :: ('e, _) outcome) = Ret w'" "nodes w' = nodes ?w"
      "\<forall>b. b \<notin> declared w0 ` set ps \<longrightarrow> augs w' b = augs ?w b"
      "\<forall>i < length ps. offset (augs w' (declared w0 (ps ! i))) = scast (po + ucast WORD_SIZE + of_nat i * 8)"
    using Cons.IH [OF _ s, of "po + ucast WORD_SIZE"] Cons.prems by auto
  have "offset (augs w' (declared w0 ((p # ps) ! i))) = scast (po + of_nat i * 8)" if "i < length (p # ps)" for i
  proof (cases i)
    case 0
    have "declared w0 p \<notin> declared w0 ` set ps" using Cons.prems(3) by auto
    then show ?thesis using 0 w'(3) by simp
  next
    case (Suc j)
    then have "offset (augs w' (declared w0 (ps ! j))) = scast (po + 8 + of_nat j * 8)" using w'(4) that by (simp add: WORD_SIZE_def)
    then show ?thesis using Suc by (simp add: distrib_right add.assoc)
  qed
  moreover have "augs w' b = augs w b" if "b \<notin> declared w0 ` set (p # ps)" for b using that w'(3) by simp
  moreover have "(place_parameters (p # ps) po w :: ('e, _) outcome) = Ret w'"
    using declared_same [of w0 p w, where ?'e = 'e] Cons.prems w'(1) by simp
  ultimately show ?case using w'(2) by (intro exI [of _ w'] conjI allI impI) simp_all
qed simp

lemma place_bindings_nodes [simp]: "nodes (place_bindings us o' w) = nodes w"
  by (induction us arbitrary: o' w) (simp_all add: Let_def)

lemma place_bindings_others: "b \<notin> set us \<Longrightarrow> augs (place_bindings us o' w) b = augs w b"
  by (induction us arbitrary: o' w) (simp_all add: Let_def)

definition slot_size :: "u64 \<Rightarrow> nat" where
  "slot_size s = padded (unat s) 8"

definition frame_size :: "(addr \<times> u64) list \<Rightarrow> nat" where
  "frame_size L = sum_list (map (\<lambda>(b, s). slot_size s) L)"

lemma frame_size_simps [simp]:
  "frame_size [] = 0" "frame_size (x # L) = slot_size (snd x) + frame_size L" "frame_size (L @ M) = frame_size L + frame_size M"
  by (simp_all add: frame_size_def case_prod_beta)

text \<open>An \<open>int\<close> that is read and written through \<open>unsigned long\<close>.\<close>

lemma scast_offset:
  assumes "k \<le> 2 ^ 31"
  shows "scast (word_of_int (- int k) :: 32 word) = (word_of_int (- int k) :: u64)"
proof -
  have "signed_take_bit 31 (- int k) = - int k" by (rule signed_take_bit_int_eq_self) (use assms in simp_all)
  then have "sint (word_of_int (- int k) :: 32 word) = - int k" by (subst sint_sbintrunc') simp
  then show ?thesis by (simp only: scast_eq)
qed

lemma int_offset:
  assumes "k + slot_size s \<le> 2 ^ 31"
  shows "ucast (scast (word_of_int (- int k) :: 32 word) - pad_size s WORD_SIZE) = (word_of_int (- int (k + slot_size s)) :: 32 word)"
proof -
  have c: "scast (word_of_int (- int k) :: 32 word) = (word_of_int (- int k) :: u64)"
    using assms by (intro scast_offset) simp
  have "unat s \<le> slot_size s" by (simp add: slot_size_def padded_ge)
  then have "unat s + unat (8 :: u64) \<le> 2 ^ 64" using assms by simp
  from unat_pad_size [OF _ this] have "unat (pad_size s WORD_SIZE) = slot_size s" by (simp add: WORD_SIZE_def slot_size_def)
  then have p: "pad_size s WORD_SIZE = word_of_int (int (slot_size s))" by (metis of_int_of_nat_eq of_nat_unat ucast_id)
  have "(word_of_int (- int k) :: u64) - word_of_int (int (slot_size s)) = word_of_int (- int (k + slot_size s))"
    by simp
  moreover have "ucast (word_of_int z :: u64) = (word_of_int z :: 32 word)" for z
    by transfer (simp add: take_bit_take_bit)
  ultimately show ?thesis unfolding c p by (simp only:)
qed

lemma place_bindings_offsets:
  assumes "distinct us" "k + sum_list (map (\<lambda>u. slot_size (aug_size (augs w u))) us) \<le> 2 ^ 31" "i < length us"
  shows "offset (augs (place_bindings us (word_of_int (- int k)) w) (us ! i)) =
    word_of_int (- int (k + sum_list (map (\<lambda>u. slot_size (aug_size (augs w u))) (take (Suc i) us))))"
  using assms
proof (induction us arbitrary: k w i)
  case (Cons u us)
  let ?s = "slot_size (aug_size (augs w u))"
  let ?w = "set_aug u (\<lambda>g. g\<lparr>offset := word_of_int (- int (k + ?s))\<rparr>) w"
  have sizes: "map (\<lambda>v. slot_size (aug_size (augs ?w v))) vs = map (\<lambda>v. slot_size (aug_size (augs w v))) vs" for vs by simp
  have k: "k + ?s \<le> 2 ^ 31" using Cons.prems(2) by simp
  have step: "place_bindings (u # us) (word_of_int (- int k)) w = place_bindings us (word_of_int (- int (k + ?s))) ?w"
    unfolding place_bindings.simps Let_def int_offset [OF k] scast_offset [OF k] ..
  show ?case
  proof (cases i)
    case 0
    have "augs (place_bindings us (word_of_int (- int (k + ?s))) ?w) u = augs ?w u"
      using Cons.prems(1) by (intro place_bindings_others) simp
    then show ?thesis unfolding step using 0 by simp
  next
    case (Suc j)
    have "offset (augs (place_bindings us (word_of_int (- int (k + ?s))) ?w) (us ! j)) =
      word_of_int (- int (k + ?s + sum_list (map (\<lambda>v. slot_size (aug_size (augs ?w v))) (take (Suc j) us))))"
      by (rule Cons.IH) (use Cons.prems Suc in \<open>simp_all only: sizes, simp_all\<close>)
    then show ?thesis unfolding step sizes using Suc by (simp add: add.assoc)
  qed
qed simp

section \<open>Frames\<close>

lemma layout_function:
  fixes w0 :: "'s world"
  assumes b: "lays w0 (layout_frames b :: 's frames \<Rightarrow> ('e, 's frames) outcome) (funs b) (touched w0 b) (slots w0 b)"
    and ps: "list_all (declared_ok w0) ps" and a: "a \<notin> set (funs b)"
    and d: "distinct (touched w0 (Function a r b ps))" "distinct (map fst (slots w0 b))"
    and w: "same_but_augs w0 w" "\<And>n. n \<in> set (funs (Function a r b ps)) \<Longrightarrow> function_augs (nodes w n) = Some []"
  shows "\<exists>w2. (layout_frames (Function a r b ps) (bas, w) :: ('e, _) outcome) =
      Ret (bas, place_bindings (rev (map fst (slots w0 b))) 0 w2) \<and>
    function_augs (nodes w2 a) = Some (map fst (slots w0 b)) \<and>
    (\<forall>i < length ps. offset (augs w2 (declared w0 (ps ! i))) = scast (2 * ucast WORD_SIZE + of_nat i * 8 :: 32 word)) \<and>
    (\<forall>(b, s) \<in> set (slots w0 b). aug_size (augs w2 b) = s) \<and>
    laid (set (funs (Function a r b ps))) (set (touched w0 (Function a r b ps))) {} w w2"
proof -
  have fa: "function_augs (nodes w a) = Some []" using w(2) by simp
  obtain w1 where 1: "(layout_frames b ([], w) :: ('e, _) outcome) = Ret (map fst (slots w0 b), w1)"
      "laid (set (funs b)) (set (touched w0 b)) (set (slots w0 b)) w w1"
    using laysD [OF b w(1), of "[]"] w(2) by auto
  let ?w = "set_node a (\<lambda>n. n\<lparr>function_augs := Some (map fst (slots w0 b))\<rparr>) w1"
  have s: "same_but_augs w0 ?w"
    using same_but_augs_trans [OF w(1) laid_same [OF 1(2)]] by (simp add: same_but_augs_def)
  have dp: "distinct (map (declared w0) ps)" "\<And>b' s. (b', s) \<in> set (slots w0 b) \<Longrightarrow> b' \<notin> declared w0 ` set ps"
    using d(1) slots_touched [of _ _ w0 b] by auto
  obtain w2 where 2: "(place_parameters ps (2 * ucast WORD_SIZE) ?w :: ('e, _) outcome) = Ret w2" "nodes w2 = nodes ?w"
      "\<forall>b. b \<notin> declared w0 ` set ps \<longrightarrow> augs w2 b = augs ?w b"
      "\<forall>i < length ps. offset (augs w2 (declared w0 (ps ! i))) = scast (2 * ucast WORD_SIZE + of_nat i * 8 :: 32 word)"
    using place_parameters_offsets [OF ps s dp(1), of "2 * ucast WORD_SIZE"] by blast
  have r: "(layout_frames (Function a r b ps) (bas, w) :: ('e, _) outcome) =
      Ret (bas, place_bindings (rev (map fst (slots w0 b))) 0 w2)"
    using fa 1(1) 2(1) by simp
  have sizes: "\<forall>(b, s) \<in> set (slots w0 b). aug_size (augs w2 b) = s"
    using 1(2) 2(3) dp(2) by (auto simp: laid_def)
  have "laid (set (funs (Function a r b ps))) (set (touched w0 (Function a r b ps))) {} w w2"
    using 1(2) 2(2,3) by (auto simp: laid_def same_but_augs_def)
  moreover have "function_augs (nodes w2 a) = Some (map fst (slots w0 b))" using 2(2) by simp
  ultimately show ?thesis using r sizes 2(4) by blast
qed

lemma lays_function:
  assumes "lays w0 (layout_frames b :: 's frames \<Rightarrow> ('e, 's frames) outcome) (funs b) (touched w0 b) (slots w0 b)"
    and "list_all (declared_ok w0) ps" "a \<notin> set (funs b)"
    and "distinct (touched w0 (Function a r b ps))" "distinct (map fst (slots w0 b))"
  shows "lays (w0 :: 's world) (layout_frames (Function a r b ps) :: 's frames \<Rightarrow> ('e, 's frames) outcome)
    (funs (Function a r b ps)) (touched w0 (Function a r b ps)) []"
  unfolding lays_def
proof (intro allI impI, elim conjE)
  fix bas and w :: "'s world"
  assume w: "same_but_augs w0 w" "\<forall>n \<in> set (funs (Function a r b ps)). function_augs (nodes w n) = Some []"
  obtain w2 where r: "(layout_frames (Function a r b ps) (bas, w) :: ('e, _) outcome) =
      Ret (bas, place_bindings (rev (map fst (slots w0 b))) 0 w2)"
    and l: "laid (set (funs (Function a r b ps))) (set (touched w0 (Function a r b ps))) {} w w2"
    using layout_function [OF assms w(1), of bas] w(2) by blast
  have "augs (place_bindings (rev (map fst (slots w0 b))) 0 w2) c = augs w2 c" if "c \<notin> set (touched w0 (Function a r b ps))" for c
    using that slots_within [of w0 b] by (intro place_bindings_others) auto
  then have "laid (set (funs (Function a r b ps))) (set (touched w0 (Function a r b ps))) {} w
      (place_bindings (rev (map fst (slots w0 b))) 0 w2)"
    using l by (auto simp: laid_def same_but_augs_def simp del: touched.simps)
  then show "\<exists>w'. (layout_frames (Function a r b ps) (bas, w) :: ('e, _) outcome) = Ret (bas @ map fst [], w') \<and>
      laid (set (funs (Function a r b ps))) (set (touched w0 (Function a r b ps))) (set []) w w'"
    using r by (simp del: layout_frames.simps funs.simps touched.simps)
qed

lemma distinct_concat_part:
  assumes "\<And>x. x \<in> set xs \<Longrightarrow> distinct (G x) \<Longrightarrow> distinct (F x)" "\<And>x. x \<in> set xs \<Longrightarrow> set (F x) \<subseteq> set (G x)"
    and "distinct (concat (map G xs))"
  shows "distinct (concat (map F xs))"
  using assms
proof (induction xs)
  case (Cons x xs)
  have "set (concat (map F xs)) \<subseteq> set (concat (map G xs))" using Cons.prems(2) by auto
  moreover have "set (F x) \<subseteq> set (G x)" using Cons.prems(2) by simp
  ultimately have "set (F x) \<inter> set (concat (map F xs)) = {}" using Cons.prems(3) by (auto simp: disjoint_iff)
  then show ?case using Cons by auto
qed simp

lemma slots_concat:
  assumes "\<And>x. x \<in> set as \<Longrightarrow> distinct (touched w x) \<Longrightarrow> distinct (map fst (slots w x))" "distinct (concat (map (touched w) as))"
  shows "distinct (map fst (concat (map (slots w) as)))"
proof -
  have "distinct (concat (map (\<lambda>x. map fst (slots w x)) as))"
    by (rule distinct_concat_part [OF assms(1) _ assms(2)]) (simp_all add: slots_within)
  then show ?thesis by (simp add: map_concat o_def)
qed

lemma slots_concat_within: "fst ` set (concat (map (slots w) as)) \<subseteq> set (concat (map (touched w) as))"
  using slots_within by (fastforce simp: image_UN)

lemma slots_distinct: "distinct (touched w e) \<Longrightarrow> distinct (map fst (slots w e))"
proof (induction e)
  case (Storage a r as)
  then show ?case using slots_concat [of as w] slots_concat_within [of w as] by (simp del: map_concat set_concat) blast
next
  case (Jump a r as)
  then show ?case using slots_concat [of as w] slots_concat_within [of w as] slots_within [of w r]
    by (simp add: buffer_slots_def del: set_concat) blast
next
  case (Invoke a r as)
  then show ?case using slots_concat [of as w] slots_concat_within [of w as] slots_within [of w r]
    by (simp add: buffer_slots_def del: set_concat) blast
next
  case (Continuation a r b ps)
  then show ?case using slots_within [of w b] by (simp, blast)
next
  case (With a r b ps)
  then show ?case using slots_within [of w b] by (simp, blast)
next
  case (If a c t e)
  then show ?case using slots_within [of w c] slots_within [of w t] slots_within [of w e] by (simp, blast)
qed simp_all

lemma lays_arguments:
  fixes w0 :: "'s world"
  assumes "\<And>x. x \<in> set as \<Longrightarrow> layout_ok w0 x \<Longrightarrow> distinct (touched w0 x) \<Longrightarrow> distinct (funs x) \<Longrightarrow>
      lays w0 (layout_frames x :: 's frames \<Rightarrow> ('e, 's frames) outcome) (funs x) (touched w0 x) (slots w0 x)"
    and "list_all (layout_ok w0) as" "distinct (concat (map (touched w0) as))" "distinct (concat (map funs as))"
  shows "lays w0 (for_each layout_frames as :: 's frames \<Rightarrow> ('e, 's frames) outcome)
      (concat (map funs as)) (concat (map (touched w0) as)) (concat (map (slots w0) as))"
proof (rule lays_each)
  fix x
  assume x: "x \<in> set as"
  have "distinct (touched w0 x)" "distinct (funs x)"
    using distinct_part [OF assms(3)] distinct_part [OF assms(4)] x by auto
  then show "lays w0 (layout_frames x :: 's frames \<Rightarrow> ('e, 's frames) outcome) (funs x) (touched w0 x) (slots w0 x)"
    using assms(1,2) x by (simp add: list_all_iff)
qed (simp_all only: slots_within assms)

lemma lays_call:
  fixes w0 :: "'s world"
  assumes "\<And>x. x \<in> insert r (set as) \<Longrightarrow> layout_ok w0 x \<Longrightarrow> distinct (touched w0 x) \<Longrightarrow> distinct (funs x) \<Longrightarrow>
      lays w0 (layout_frames x :: 's frames \<Rightarrow> ('e, 's frames) outcome) (funs x) (touched w0 x) (slots w0 x)"
    and ok: "layout_ok w0 (Jump a r as)" "distinct (touched w0 (Jump a r as))" "distinct (funs (Jump a r as))"
  shows "lays w0 (\<lambda>f :: 's frames. bindO (layout_frames r f) (\<lambda>f. bindO (for_each layout_frames as f) (layout_arguments a as)) :: ('e, 's frames) outcome)
      (funs (Jump a r as)) (touched w0 (Jump a r as)) (slots w0 (Jump a r as))"
proof -
  have e: "lays w0 (for_each layout_frames as :: 's frames \<Rightarrow> ('e, 's frames) outcome)
      (concat (map funs as)) (concat (map (touched w0) as)) (concat (map (slots w0) as))"
    by (rule lays_arguments) (use assms in auto)
  have "lays w0 (layout_arguments a as :: 's frames \<Rightarrow> ('e, 's frames) outcome) [] [temp_of w0 a] (buffer_slots w0 a as)"
    using ok(1) by (intro lays_buffer) simp
  from lays_bind [OF e this] ok have "lays w0 (\<lambda>f :: 's frames. bindO (for_each layout_frames as f) (layout_arguments a as) :: ('e, 's frames) outcome)
     (concat (map funs as)) (concat (map (touched w0) as) @ [temp_of w0 a]) (concat (map (slots w0) as) @ buffer_slots w0 a as)"
    using slots_concat_within [of w0 as] by (simp del: map_concat set_concat)
  from lays_bind [OF _ this, of "layout_frames r" "funs r" "touched w0 r" "slots w0 r"] assms(1) [of r] ok show ?thesis
    by (simp add: slots_within Int_Un_distrib del: set_concat)
qed

lemma lays_layout:
  fixes w0 :: "'s world"
  assumes "layout_ok w0 e" "distinct (touched w0 e)" "distinct (funs e)"
  shows "lays w0 (layout_frames e :: 's frames \<Rightarrow> ('e, 's frames) outcome) (funs e) (touched w0 e) (slots w0 e)"
  using assms
proof (induction e)
  case (Function a r b ps)
  have "lays w0 (layout_frames b :: 's frames \<Rightarrow> ('e, 's frames) outcome) (funs b) (touched w0 b) (slots w0 b)"
    using Function by simp
  from lays_function [OF this] Function.prems show ?case by (simp add: slots_distinct del: layout_frames.simps)
next
  case (Continuation a r b ps)
  from Continuation.prems have "lays w0 (layout_continuation a r ps :: 's frames \<Rightarrow> ('e, 's frames) outcome) []
      (map fst (record_slots w0 a r ps)) (record_slots w0 a r ps)"
    by (intro lays_record) simp_all
  from lays_bind [OF Continuation.IH(2) this] Continuation.prems show ?case
    by (simp add: layout_as_steps slots_within)
next
  case (With a r b ps)
  from With.prems have "lays w0 (layout_continuation a r ps :: 's frames \<Rightarrow> ('e, 's frames) outcome) []
      (map fst (record_slots w0 a r ps)) (record_slots w0 a r ps)"
    by (intro lays_record) simp_all
  from lays_bind [OF With.IH(2) this] With.prems show ?case
    by (simp add: layout_as_steps slots_within)
next
  case (Storage a r as)
  have e: "lays w0 (for_each layout_frames as :: 's frames \<Rightarrow> ('e, 's frames) outcome)
      (concat (map funs as)) (concat (map (touched w0) as)) (concat (map (slots w0) as))"
    by (rule lays_arguments) (use Storage in auto)
  have "lays w0 (add_symbol (of_nat (length as) * WORD_SIZE) r :: 's frames \<Rightarrow> ('e, 's frames) outcome) []
      [declared w0 r] [(declared w0 r, of_nat (length as) * WORD_SIZE)]"
    using Storage.prems by (intro lays_symbol) simp
  from lays_bind [OF e this] Storage.prems show ?case
    using slots_concat_within [of w0 as] by (simp add: layout_as_steps del: map_concat set_concat)
next
  case (If a c t e)
  from lays_bind [OF If.IH(2) If.IH(3)] If.prems
  have "lays w0 (\<lambda>f. bindO (layout_frames t f) (layout_frames e) :: ('e, 's frames) outcome) (funs t @ funs e)
      (touched w0 t @ touched w0 e) (slots w0 t @ slots w0 e)"
    by (simp add: slots_within)
  from lays_bind [OF If.IH(1) this] If.prems show ?case
    by (simp add: layout_as_steps slots_within Int_Un_distrib)
next
  case (Jump a r as)
  then show ?case unfolding layout_as_steps by (intro lays_call) auto
next
  case (Invoke a r as)
  then have "lays w0 (\<lambda>f :: 's frames. bindO (layout_frames r f) (\<lambda>f. bindO (for_each layout_frames as f) (layout_arguments a as)) :: ('e, 's frames) outcome)
      (funs (Jump a r as)) (touched w0 (Jump a r as)) (slots w0 (Jump a r as))"
    by (intro lays_call) auto
  then show ?case unfolding layout_as_steps by simp
qed (simp_all add: layout_as_steps lays_Ret)

section \<open>The frame of a function\<close>

definition frame_ok :: "'s world \<Rightarrow> expr \<Rightarrow> bool" where
  "frame_ok w e \<longleftrightarrow> layout_ok w e \<and> distinct (touched w e) \<and> distinct (funs e) \<and>
     list_all (\<lambda>n. function_augs (nodes w n) = Some []) (funs e)"

lemma sum_slots:
  assumes "\<forall>(b, s) \<in> set L. aug_size (augs w b) = s"
  shows "sum_list (map (\<lambda>u. slot_size (aug_size (augs w u))) (map fst L)) = frame_size L"
  using assms by (induction L) auto

lemma frame_size_rev [simp]: "frame_size (rev L) = frame_size L"
  by (induction L) auto

lemma function_frame:
  fixes w :: "'s world"
  assumes ok: "frame_ok w (Function a r b ps)" and small: "frame_size (slots w b) \<le> 2 ^ 31" "16 + 8 * length ps < 2 ^ 31"
  shows "\<exists>w'. (layout_frames (Function a r b ps) (bas, w) :: ('e, _) outcome) = Ret (bas, w') \<and>
    (get_current_offset a w' :: ('e, _) outcome) = Ret (word_of_int (- int (frame_size (slots w b)))) \<and>
    (\<forall>i < length (slots w b). offset (augs w' (fst (slots w b ! i))) = word_of_int (- int (frame_size (drop i (slots w b)))) \<and>
      aug_size (augs w' (fst (slots w b ! i))) = snd (slots w b ! i)) \<and>
    (\<forall>i < length ps. offset (augs w' (declared w (ps ! i))) = of_nat (16 + 8 * i))"
proof -
  let ?L = "slots w b"
  have b: "lays w (layout_frames b :: 's frames \<Rightarrow> ('e, 's frames) outcome) (funs b) (touched w b) ?L"
    using ok by (intro lays_layout) (auto simp: frame_ok_def)
  have d: "distinct (map fst ?L)" using ok by (intro slots_distinct) (auto simp: frame_ok_def)
  have par: "declared w (ps ! i) \<notin> fst ` set ?L" if "i < length ps" for i
    using ok that slots_within [of w b] by (force simp: frame_ok_def)
  have fn: "\<And>n. n \<in> set (funs (Function a r b ps)) \<Longrightarrow> function_augs (nodes w n) = Some []"
    using ok by (auto simp: frame_ok_def list_all_iff)
  have pre: "list_all (declared_ok w) ps" "a \<notin> set (funs b)" "distinct (touched w (Function a r b ps))"
    using ok by (simp_all add: frame_ok_def)
  obtain w2 where r: "(layout_frames (Function a r b ps) (bas, w) :: ('e, _) outcome) =
        Ret (bas, place_bindings (rev (map fst ?L)) 0 w2)"
      and f: "function_augs (nodes w2 a) = Some (map fst ?L)"
      and po: "\<forall>i < length ps. offset (augs w2 (declared w (ps ! i))) = scast (2 * ucast WORD_SIZE + of_nat i * 8 :: 32 word)"
      and sz: "\<forall>(b, s) \<in> set ?L. aug_size (augs w2 b) = s"
    using layout_function [OF b pre d same_but_augs_refl fn, of bas] by blast
  let ?w = "place_bindings (rev (map fst ?L)) 0 w2"
  have at: "offset (augs ?w (fst (?L ! i))) = word_of_int (- int (frame_size (drop i ?L)))" if i: "i < length ?L" for i
  proof -
    let ?j = "length ?L - Suc i"
    have total: "sum_list (map (\<lambda>u. slot_size (aug_size (augs w2 u))) (rev (map fst ?L))) = frame_size ?L"
      using sum_slots [of "rev ?L" w2] sz by (simp only: rev_map [symmetric] set_rev frame_size_rev)
    have "offset (augs (place_bindings (rev (map fst ?L)) (word_of_int (- int 0)) w2) (rev (map fst ?L) ! ?j)) =
      word_of_int (- int (0 + sum_list (map (\<lambda>u. slot_size (aug_size (augs w2 u))) (take (Suc ?j) (rev (map fst ?L))))))"
      using d i small(1) total by (intro place_bindings_offsets) simp_all
    moreover have "rev (map fst ?L) ! ?j = fst (?L ! i)" using i by (simp add: rev_nth)
    moreover have "take (Suc ?j) (rev (map fst ?L)) = map fst (rev (drop i ?L))"
      using i by (simp add: rev_map rev_drop take_map Suc_diff_Suc)
    moreover have "sum_list (map (\<lambda>u. slot_size (aug_size (augs w2 u))) (map fst (rev (drop i ?L)))) = frame_size (drop i ?L)"
      using sz by (subst sum_slots) (auto dest: in_set_dropD)
    ultimately show ?thesis by simp
  qed
  have size: "aug_size (augs (place_bindings us k v) c) = aug_size (augs v c)" for us k c and v :: "'s world"
    by (induction us arbitrary: k v) (simp_all add: Let_def)
  have cur: "(get_current_offset a ?w :: ('e, _) outcome) = Ret (word_of_int (- int (frame_size ?L)))"
  proof (cases ?L)
    case (Cons x L)
    have "ucast (word_of_int z :: u64) = (word_of_int z :: 32 word)" for z
      by transfer (simp add: take_bit_take_bit)
    moreover have "(get_current_offset a ?w :: ('e, _) outcome) = Ret (ucast (offset (augs ?w (fst (?L ! 0)))))"
      using f Cons by (simp add: get_current_offset_def)
    moreover have "0 < length ?L" using Cons by simp
    ultimately show ?thesis by (simp only: at drop_0)
  qed (simp add: get_current_offset_def f)
  have par_at: "offset (augs ?w (declared w (ps ! i))) = of_nat (16 + 8 * i)" if i: "i < length ps" for i
  proof -
    have "augs ?w (declared w (ps ! i)) = augs w2 (declared w (ps ! i))"
      using par [OF i] by (intro place_bindings_others) auto
    moreover have "(2 * ucast WORD_SIZE + of_nat i * 8 :: 32 word) = word_of_int (int (16 + 8 * i))" by (simp add: WORD_SIZE_def)
    moreover have "scast (word_of_int (int (16 + 8 * i)) :: 32 word) = (word_of_int (int (16 + 8 * i)) :: u64)"
    proof -
      have "signed_take_bit 31 (int (16 + 8 * i)) = int (16 + 8 * i)" by (rule signed_take_bit_int_eq_self) (use i small(2) in simp_all)
      then have "sint (word_of_int (int (16 + 8 * i)) :: 32 word) = int (16 + 8 * i)" by (subst sint_sbintrunc') simp
      then show ?thesis by (simp only: scast_eq)
    qed
    ultimately show ?thesis using po i by (simp add: mult.commute)
  qed
  have size_at: "aug_size (augs ?w (fst (?L ! i))) = snd (?L ! i)" if "i < length ?L" for i
    using sz nth_mem [OF that] by (simp add: size case_prod_beta)
  show ?thesis
    by (intro exI [of _ ?w] conjI allI impI; (rule r cur | (rule at size_at par_at, assumption)))
qed

text \<open>Where the storage of a binding of the frame is, relative to the frame pointer.\<close>

definition frame_slot :: "'s world \<Rightarrow> addr \<Rightarrow> int \<times> int" where
  "frame_slot w b = (sint (offset (augs w b)), uint (aug_size (augs w b)))"

lemma frame_size_drop_Suc: "i < length L \<Longrightarrow> frame_size (drop i L) = slot_size (snd (L ! i)) + frame_size (drop (Suc i) L)"
  by (simp add: Cons_nth_drop_Suc [symmetric])

lemma frame_size_drop_mono: "i \<le> j \<Longrightarrow> frame_size (drop j L) \<le> frame_size (drop i L)"
proof -
  assume "i \<le> j"
  then have "drop i L = take (j - i) (drop i L) @ drop j L" by (metis append_take_drop_id drop_drop le_add_diff_inverse2 add.commute)
  then show ?thesis by (metis frame_size_simps(3) le_add2)
qed

lemma sint_minus: "k \<le> 2 ^ 31 \<Longrightarrow> sint (word_of_int (- int k) :: u64) = - int k"
  by (subst sint_sbintrunc') (simp add: signed_take_bit_int_eq_self)

text \<open>C30. \<open>layout_frames\<close> gives the bindings of a function that live in its
frame disjoint storage of their size, below the saved frame pointer and within the space that
\<open>sgenerate_functions\<close> reserves by \<open>get_current_offset\<close>.\<close>

lemma frame_slots_disjoint:
  fixes w :: "'s world"
  assumes ok: "frame_ok w (Function a r b ps)" and small: "frame_size (slots w b) \<le> 2 ^ 31" "16 + 8 * length ps < 2 ^ 31"
    and ij: "i < j" "j < length (slots w b)"
  shows "\<exists>w'. (layout_frames (Function a r b ps) (bas, w) :: ('e, _) outcome) = Ret (bas, w') \<and>
    (\<exists>lo. (get_current_offset a w' :: ('e, _) outcome) = Ret lo \<and>
     (case (frame_slot w' (fst (slots w b ! i)), frame_slot w' (fst (slots w b ! j))) of ((p, n), (q, m)) \<Rightarrow>
        sint lo \<le> p \<and> p + n \<le> q \<and> q + m \<le> 0 \<and> n = uint (snd (slots w b ! i)) \<and> m = uint (snd (slots w b ! j))))"
proof -
  let ?L = "slots w b"
  obtain w' where w': "(layout_frames (Function a r b ps) (bas, w) :: ('e, _) outcome) = Ret (bas, w')"
      "(get_current_offset a w' :: ('e, _) outcome) = Ret (word_of_int (- int (frame_size ?L)))"
      "\<forall>i < length ?L. offset (augs w' (fst (?L ! i))) = word_of_int (- int (frame_size (drop i ?L))) \<and>
        aug_size (augs w' (fst (?L ! i))) = snd (?L ! i)"
    using function_frame [OF ok small] by blast
  have slot: "frame_slot w' (fst (?L ! k)) = (- int (frame_size (drop k ?L)), uint (snd (?L ! k)))" if "k < length ?L" for k
  proof -
    have "frame_size (drop k ?L) \<le> 2 ^ 31" using frame_size_drop_mono [of 0 k ?L] small(1) by simp
    then show ?thesis using w'(3) that by (simp only: frame_slot_def sint_minus)
  qed
  have fits: "unat s \<le> slot_size s" for s by (simp add: slot_size_def padded_ge)
  have lo: "sint (word_of_int (- int (frame_size ?L)) :: 32 word) = - int (frame_size ?L)"
    using small(1) by (subst sint_sbintrunc') (simp add: signed_take_bit_int_eq_self)
  have "frame_size (drop i ?L) \<le> frame_size ?L" using frame_size_drop_mono [of 0 i ?L] by simp
  moreover have "unat (snd (?L ! i)) + frame_size (drop j ?L) \<le> frame_size (drop i ?L)"
    using frame_size_drop_Suc [of i ?L] frame_size_drop_mono [of "Suc i" j ?L] ij fits [of "snd (?L ! i)"] by simp
  then have "uint (snd (?L ! i)) + int (frame_size (drop j ?L)) \<le> int (frame_size (drop i ?L))" by (simp only: uint_nat of_nat_add [symmetric] of_nat_le_iff)
  moreover have "unat (snd (?L ! j)) \<le> frame_size (drop j ?L)"
    using frame_size_drop_Suc [of j ?L] ij fits [of "snd (?L ! j)"] by simp
  then have "uint (snd (?L ! j)) \<le> int (frame_size (drop j ?L))" by (simp only: uint_nat of_nat_add [symmetric] of_nat_le_iff)
  ultimately show ?thesis using w'(1,2) slot [of i] slot [of j] ij lo
    by (intro exI [of _ w'] conjI exI [of _ "word_of_int (- int (frame_size ?L))"]) simp_all
qed

section \<open>Continuations in frames\<close>

text \<open>The parts of an expression that belong to the same frame.\<close>

fun frame_parts :: "expr \<Rightarrow> expr list" where
  "frame_parts (Continuation a r b ps) = frame_parts b @ [Continuation a r b ps]"
| "frame_parts (With a r b ps) = frame_parts b @ [With a r b ps]"
| "frame_parts (Storage a r as) = concat (map frame_parts as) @ [Storage a r as]"
| "frame_parts (Jump a r as) = frame_parts r @ concat (map frame_parts as) @ [Jump a r as]"
| "frame_parts (Invoke a r as) = frame_parts r @ concat (map frame_parts as) @ [Invoke a r as]"
| "frame_parts (If a c t e) = frame_parts c @ frame_parts t @ frame_parts e @ [If a c t e]"
| "frame_parts (Constrain a r b) = frame_parts b @ [Constrain a r b]"
| "frame_parts e = [e]"

definition infix_of :: "'a list \<Rightarrow> 'a list \<Rightarrow> bool" where
  "infix_of xs ys \<longleftrightarrow> (\<exists>us vs. ys = us @ xs @ vs)"

lemma infix_ofI [intro]: "infix_of xs ys \<Longrightarrow> infix_of xs (us @ ys)" "infix_of xs ys \<Longrightarrow> infix_of xs (ys @ us)" "infix_of xs xs"
proof -
  show "infix_of xs (us @ ys)" if "infix_of xs ys" using that unfolding infix_of_def by (metis append.assoc)
  show "infix_of xs (ys @ us)" if "infix_of xs ys" using that unfolding infix_of_def by (metis append.assoc)
  show "infix_of xs xs" unfolding infix_of_def by (metis append_Nil append_Nil2)
qed

lemma infix_concat: "x \<in> set as \<Longrightarrow> infix_of xs (f x) \<Longrightarrow> infix_of xs (concat (map f as))"
  by (induction as) auto

lemma record_in_slots:
  "x \<in> set (frame_parts e) \<Longrightarrow> x = Continuation k kr kb kps \<or> x = With k kr kb kps \<Longrightarrow> infix_of (record_slots w k kr kps) (slots w e)"
  by (induction e) (auto intro: infix_concat)

lemma offset_step:
  assumes "\<forall>i < length L. offset (augs w' (fst (L ! i))) = word_of_int (- int (frame_size (drop i L)))" "j + m < length L"
  shows "offset (augs w' (fst (L ! (j + m)))) = offset (augs w' (fst (L ! j))) + of_nat (frame_size (take m (drop j L)))"
proof -
  have "frame_size (drop j L) = frame_size (take m (drop j L)) + frame_size (drop (j + m) L)"
    by (metis append_take_drop_id drop_drop frame_size_simps(3) add.commute)
  then show ?thesis using assms by simp
qed

lemma slot_sizes: "slot_size WORD_SIZE = 8" "slot_size CONT_SIZE = 56"
  by (simp_all add: slot_size_def cont_defs padded_def)

lemma frame_size_words: "frame_size (map (\<lambda>p. (f p, WORD_SIZE)) ps) = 8 * length ps"
  by (induction ps) (simp_all add: slot_sizes)

text \<open>C31. In the frame of a function the parameters of a continuation or a with are
consecutive words, and those of an escaping one follow its record at \<open>CONT_SIZE\<close>,
which is where the code of jumps stores the arguments.\<close>

lemma continuation_record:
  fixes w :: "'s world"
  assumes ok: "frame_ok w (Function a r b ps)" and small: "frame_size (slots w b) \<le> 2 ^ 31" "16 + 8 * length ps < 2 ^ 31"
    and c: "c \<in> set (frame_parts b)" "c = Continuation k kr kb kps \<or> c = With k kr kb kps" and i: "i < length kps"
  shows "\<exists>w'. (layout_frames (Function a r b ps) (bas, w) :: ('e, _) outcome) = Ret (bas, w') \<and>
    offset (augs w' (declared w (kps ! i))) = offset (augs w' (declared w (hd kps))) + of_nat i * WORD_SIZE \<and>
    (escapes (nodes w k) \<longrightarrow>
      offset (augs w' (declared w (kps ! i))) = offset (augs w' (declared w kr)) + CONT_SIZE + of_nat i * WORD_SIZE)"
proof -
  let ?L = "slots w b" and ?P = "map (\<lambda>p. (declared w p, WORD_SIZE)) kps"
  obtain w' where w': "(layout_frames (Function a r b ps) (bas, w) :: ('e, _) outcome) = Ret (bas, w')"
      and at: "\<forall>i < length ?L. offset (augs w' (fst (?L ! i))) = word_of_int (- int (frame_size (drop i ?L)))"
    using function_frame [OF ok small] by blast
  obtain us vs where L: "?L = us @ record_slots w k kr kps @ vs"
    using record_in_slots [OF c, of w] by (auto simp: infix_of_def)
  define us' where "us' = us @ (if escapes (nodes w k) then [(declared w kr, CONT_SIZE)] else [])"
  have L': "?L = us' @ ?P @ vs" by (simp add: L us'_def record_slots_def)
  let ?n = "length us'"
  have nth: "?L ! (?n + j) = (declared w (kps ! j), WORD_SIZE)" if "j < length kps" for j
    using that by (simp add: L' nth_append)
  have "take i (drop ?n ?L) = map (\<lambda>p. (declared w p, WORD_SIZE)) (take i kps)" using i by (simp add: L' take_map)
  then have sz: "frame_size (take i (drop ?n ?L)) = 8 * i" using i by (simp only: frame_size_words) simp
  have "?n + i < length ?L" using i by (simp add: L')
  from offset_step [OF at this] sz nth [OF i] nth [of 0] i
  have 1: "offset (augs w' (declared w (kps ! i))) = offset (augs w' (declared w (hd kps))) + of_nat i * WORD_SIZE"
    by (cases kps) (simp_all add: WORD_SIZE_def mult.commute)
  have "offset (augs w' (declared w (hd kps))) = offset (augs w' (declared w kr)) + CONT_SIZE" if e: "escapes (nodes w k)"
  proof -
    have "?n = length us + 1" "?L ! length us = (declared w kr, CONT_SIZE)"
      using e by (simp_all add: us'_def L record_slots_def)
    moreover have "frame_size (take 1 (drop (length us) ?L)) = 56"
      using e by (simp add: L record_slots_def slot_sizes)
    moreover have "length us + 1 < length ?L" using e i by (cases kps) (simp_all add: L record_slots_def)
    ultimately show ?thesis using offset_step [OF at, of "length us" 1] nth [of 0] i
      by (cases kps) (simp_all add: cont_defs)
  qed
  then show ?thesis using w' 1 by auto
qed

section \<open>An example\<close>

definition frame_continuation :: expr where
  "frame_continuation = Continuation 4 (Symbol 5 (Some ''k'')) (Literal 8 0) [Symbol 6 (Some ''x''), Symbol 7 (Some ''y'')]"

definition frame_world :: "unit world" where
  "frame_world = \<lparr>nodes = (\<lambda>a. zero_node\<lparr>symbol_aug := Some (a + 10), escapes := True, function_augs := Some []\<rparr>),
     augs = (\<lambda>b. undefined), sigs = Var, region_state = ()\<rparr>"

lemma frame_world_slots: "slots frame_world frame_continuation = [(15, CONT_SIZE), (16, WORD_SIZE), (17, WORD_SIZE)]"
  by (simp add: frame_continuation_def frame_world_def declared_def record_slots_def)

lemma frame_world_ok:
  "frame_ok frame_world (Function 1 (Symbol 2 (Some ''f'')) frame_continuation [Symbol 3 (Some ''p'')])"
  "frame_size (slots frame_world frame_continuation) \<le> 2 ^ 31" "16 + 8 * length [Symbol 3 (Some ''p'')] < 2 ^ 31"
  by (simp add: frame_ok_def frame_continuation_def frame_world_def declared_ok_def declared_def record_slots_def)
    (simp_all add: frame_world_slots slot_sizes)

lemma frame_slots_disjoint_witness:
  "\<exists>w'. (layout_frames (Function 1 (Symbol 2 (Some ''f'')) frame_continuation [Symbol 3 (Some ''p'')]) ([], frame_world)
      :: (nat, _) outcome) = Ret ([], w') \<and>
    (\<exists>lo. (get_current_offset 1 w' :: (nat, _) outcome) = Ret lo \<and>
     (case (frame_slot w' 15, frame_slot w' 17) of ((p, n), (q, m)) \<Rightarrow>
        sint lo \<le> p \<and> p + n \<le> q \<and> q + m \<le> 0 \<and> n = uint CONT_SIZE \<and> m = uint WORD_SIZE))"
  using frame_slots_disjoint [OF frame_world_ok, of 0 2 "[]", where ?'e = nat]
  by (simp add: frame_world_slots del: layout_frames.simps)

lemma continuation_record_witness:
  "\<exists>w'. (layout_frames (Function 1 (Symbol 2 (Some ''f'')) frame_continuation [Symbol 3 (Some ''p'')]) ([], frame_world)
      :: (nat, _) outcome) = Ret ([], w') \<and>
    offset (augs w' 17) = offset (augs w' 16) + 8 \<and> offset (augs w' 17) = offset (augs w' 15) + CONT_SIZE + 8"
  using continuation_record [OF frame_world_ok, of frame_continuation 4 "Symbol 5 (Some ''k'')" "Literal 8 0"
      "[Symbol 6 (Some ''x''), Symbol 7 (Some ''y'')]" 1 "[]", where ?'e = nat]
  by (simp add: frame_continuation_def frame_world_def declared_def WORD_SIZE_def del: layout_frames.simps)

end
