(* ===== verification/Emitting.thy ===== *)
theory Emitting
  imports Generator Elf_Writer_Correct
begin

text \<open>
What it takes that generated instructions are ones that the assembler accepts: the locale \<open>object_source\<close> is what the generator relies on when it allocates objects, and within it are rules for the makers of operands, for instructions, for labels and for sequences of generators.
\<close>

section \<open>A source of new objects\<close>

text \<open>The sizes of the objects that the generator allocates.\<close>

definition object_sizes :: "u64 set" where
  "object_sizes = {EXPRESSION_SIZE, CELL_SIZE, BINDING_AUG_SIZE}"

locale object_source =
  fixes alloc :: "'s alloc_fun" and left :: "nat \<Rightarrow> 's \<Rightarrow> bool" and used :: "'s \<Rightarrow> addr set"
  assumes left_Suc: "left (Suc k) s \<Longrightarrow> left k s"
    and left_alloc: "left (Suc k) s \<Longrightarrow> n \<in> object_sizes \<Longrightarrow> left k (snd (alloc n s))"
    and alloc_fresh: "left (Suc k) s \<Longrightarrow> n \<in> object_sizes \<Longrightarrow> fst (alloc n s) \<notin> used s"
    and used_alloc: "n \<in> object_sizes \<Longrightarrow> used (snd (alloc n s)) = insert (fst (alloc n s)) (used s)"
begin

lemma left_mono: "left n s \<Longrightarrow> k \<le> n \<Longrightarrow> left k s"
  by (induction n) (auto simp: le_Suc_eq dest: left_Suc)

text \<open>Objects that exist keep what they hold.\<close>

definition grows :: "'s world \<Rightarrow> 's world \<Rightarrow> bool" where
  "grows w w' \<longleftrightarrow> used (region_state w) \<subseteq> used (region_state w') \<and>
     (\<forall>a \<in> used (region_state w). nodes w' a = nodes w a \<and> augs w' a = augs w a)"

lemma grows_refl [simp]: "grows w w"
  by (simp add: grows_def)

lemma grows_trans [trans]: "grows w w1 \<Longrightarrow> grows w1 w2 \<Longrightarrow> grows w w2"
  by (auto simp: grows_def subset_iff)

lemma grows_used: "grows w w' \<Longrightarrow> a \<in> used (region_state w) \<Longrightarrow> a \<in> used (region_state w')"
  by (auto simp: grows_def)

lemma grows_same: "grows w w' \<Longrightarrow> a \<in> used (region_state w) \<Longrightarrow> nodes w' a = nodes w a \<and> augs w' a = augs w a"
  by (simp add: grows_def)

text \<open>The objects of symbols that an expression refers to.\<close>

fun symbols :: "expr \<Rightarrow> addr set" where
  "symbols (Symbol a n) = {a}"
| "symbols (Assembly a oc as) = (\<Union>x \<in> set as. symbols x)"
| "symbols e = {}"

definition held :: "'s world \<Rightarrow> expr \<Rightarrow> bool" where
  "held w e \<longleftrightarrow> symbols e \<subseteq> used (region_state w)"

lemma held_grows: "held w e \<Longrightarrow> grows w w' \<Longrightarrow> held w' e"
  by (auto simp: held_def grows_def)

lemma reference_grows: "reference_ok P w e \<Longrightarrow> symbols e \<subseteq> used (region_state w) \<Longrightarrow> grows w w' \<Longrightarrow> reference_ok P w' e"
  by (auto simp: reference_ok_def grows_def split: expr.splits option.splits)

lemma operand_grows:
  assumes "operand_ok P w K e" "held w e" "grows w w'"
  shows "operand_ok P w' K e"
proof (cases "K = Label_name")
  case True
  then show ?thesis using assms reference_grows by (simp add: operand_ok.simps held_def)
next
  case False
  then show ?thesis using assms
    by (cases K; cases e; auto simp: operand_ok.simps held_def split: list.splits expr.splits intro: reference_grows)
qed

lemma instruction_grows:
  assumes "instruction_ok P w e" "held w e" "grows w w'"
  shows "instruction_ok P w' e"
proof -
  obtain a oc as ks where e: "e = Assembly a oc as" "map_of operand_kinds oc = Some ks" "list_all2 (operand_ok P w) ks as"
    using assms(1) by (auto simp: instruction_ok_def split: expr.splits option.splits)
  have "operand_ok P w' K x" if "operand_ok P w K x" "x \<in> set as" for K x
    using operand_grows [OF that(1) _ assms(3)] that(2) assms(2) e(1) by (auto simp: held_def)
  then have "list_all2 (operand_ok P w') ks as"
    using e(3) by (auto simp: list_all2_conv_all_nth)
  then show ?thesis using e by (simp add: instruction_ok_def)
qed

lemma label_grows: "held w n \<Longrightarrow> grows w w' \<Longrightarrow> label_binding w' n = label_binding w n"
  by (auto simp: label_binding_def held_def grows_def split: expr.splits list.splits)

lemma labels_grow: "list_all (held w) ns \<Longrightarrow> grows w w' \<Longrightarrow> label_bindings w' ns = label_bindings w ns"
proof (induction ns)
  case (Cons n ns)
  then have "label_binding w' n = label_binding w n" using label_grows [of w n w'] by simp
  then show ?case using Cons by simp
qed simp

section \<open>Makers\<close>

definition makes ::
  "'s world \<Rightarrow> (addr \<Rightarrow> bool) \<Rightarrow> nat \<Rightarrow> operand_kind \<Rightarrow> 's maker \<Rightarrow> bool" where
  "makes w0 P N K m \<longleftrightarrow> (\<forall>w k. grows w0 w \<and> left (N + k) (region_state w) \<longrightarrow>
     (case m w of (e, w') \<Rightarrow> grows w w' \<and> left k (region_state w') \<and> operand_ok P w' K e \<and> held w' e))"

lemma makesD:
  assumes "makes w0 P N K m" "grows w0 w" "left (N + k) (region_state w)"
  obtains e w' where "m w = (e, w')" "grows w w'" "left k (region_state w')" "operand_ok P w' K e" "held w' e"
  using assms by (fastforce simp: makes_def)

lemma new_node_facts:
  assumes "left (Suc k) (region_state w)"
  obtains a w' where "new_node alloc w = (a, w')" "grows w w'" "left k (region_state w')" "a \<in> used (region_state w')"
    "nodes w' a = zero_node" "a \<notin> used (region_state w)" "augs w' = augs w"
proof -
  obtain a r where a: "alloc EXPRESSION_SIZE (region_state w) = (a, r)" by fastforce
  have "EXPRESSION_SIZE \<in> object_sizes" by (simp add: object_sizes_def)
  from left_alloc [OF assms this] alloc_fresh [OF assms this] used_alloc [OF this, of "region_state w"]
  show thesis using a
    by (intro that [of a "w\<lparr>nodes := (nodes w)(a := zero_node), region_state := r\<rparr>"]) (auto simp: new_node_def grows_def)
qed

lemma new_var_facts:
  assumes "left (Suc k) (region_state w)"
  obtains v w' where "new_var alloc w = (v, w')" "grows w w'" "left k (region_state w')" "nodes w' = nodes w" "augs w' = augs w"
proof -
  obtain a r where a: "alloc CELL_SIZE (region_state w) = (a, r)" by fastforce
  have "CELL_SIZE \<in> object_sizes" by (simp add: object_sizes_def)
  from left_alloc [OF assms this] alloc_fresh [OF assms this] used_alloc [OF this, of "region_state w"]
  show thesis using a
    by (intro that [of "Var a" "w\<lparr>sigs := (sigs w)(a := Var a), region_state := r\<rparr>"]) (auto simp: new_var_def var_def grows_def Let_def)
qed

lemma makes_lit:
  assumes "K = Immediate \<or> K = Displacement \<or> K = Address"
  shows "makes w0 P 2 K (lit alloc v)"
  unfolding makes_def
proof (intro allI impI, elim conjE)
  fix w k
  assume "grows w0 w" "left (2 + k) (region_state w)"
  then have l: "left (Suc (Suc k)) (region_state w)" by simp
  obtain a w1 where 1: "new_node alloc w = (a, w1)" "grows w w1" "left (Suc k) (region_state w1)"
    "a \<in> used (region_state w1)" "nodes w1 a = zero_node" "a \<notin> used (region_state w)" by (rule new_node_facts [OF l])
  obtain v' w2 where 2: "new_var alloc w1 = (v', w2)" "grows w1 w2" "left k (region_state w2)" "nodes w2 = nodes w1" "augs w2 = augs w1"
    by (rule new_var_facts [OF 1(3)])
  have r: "region_state (set_node a g w2) = region_state w2" for g by (simp add: set_node_def)
  have "grows w (set_node a g w2)" for g
    using grows_trans [OF 1(2) 2(2)] 1(6) by (auto simp: grows_def r set_node_def)
  then show "case lit alloc v w of (e, w') \<Rightarrow> grows w w' \<and> left k (region_state w') \<and> operand_ok P w' K e \<and> held w' e"
    using 1(1) 2(1,3) assms by (auto simp: lit_def make_literal_def make_base_def Let_def r operand_ok.simps held_def)
qed

lemma makes_asm0: "reg < 16 \<Longrightarrow> makes w0 P 1 Register (make_asm0 alloc reg)"
  unfolding makes_def
proof (intro allI impI, elim conjE)
  fix w k
  assume reg: "reg < 16" and "grows w0 w" "left (1 + k) (region_state w)"
  then have l: "left (Suc k) (region_state w)" by simp
  have "scast reg < (16 :: u64)" using register_cases [OF reg] by auto
  show "case make_asm0 alloc reg w of (e, w') \<Rightarrow> grows w w' \<and> left k (region_state w') \<and> operand_ok P w' Register e \<and> held w' e"
    by (rule new_node_facts [OF l]) (use \<open>scast reg < 16\<close> in \<open>simp add: make_asm0_def operand_ok.simps held_def\<close>)
qed

lemma makes_Pair: "operand_ok P w0 K e \<Longrightarrow> held w0 e \<Longrightarrow> makes w0 P 0 K (Pair e)"
  using operand_grows held_grows by (fastforce simp: makes_def)

lemma use_binding_makes:
  assumes "grows w0 w" "left (Suc k) (region_state w)" "P b"
  obtains a n w' where "use_binding alloc b w = (Symbol a n, w')" "grows w w'" "left k (region_state w')"
    "reference_ok P w' (Symbol a n)" "a \<in> used (region_state w')"
proof -
  obtain a w1 where 1: "new_node alloc w = (a, w1)" "grows w w1" "left k (region_state w1)"
    "a \<in> used (region_state w1)" "nodes w1 a = zero_node" "a \<notin> used (region_state w)" by (rule new_node_facts [OF assms(2)])
  show thesis
    by (rule that [of a "aug_name (augs w b)" "set_node a (\<lambda>n. n\<lparr>meta_of := None, symbol_aug := Some b\<rparr>) w1"])
      (use 1 assms(3) in \<open>auto simp: use_binding_def set_node_def grows_def reference_ok_def\<close>)
qed

lemma makes_use: "P b \<Longrightarrow> K = Label_name \<or> K = Address \<Longrightarrow> makes w0 P 1 K (use_binding alloc b)"
  unfolding makes_def
proof (intro allI impI, elim conjE)
  fix w k
  assume b: "P b" and K: "K = Label_name \<or> K = Address" and w: "grows w0 w" "left (1 + k) (region_state w)"
  then have l: "left (Suc k) (region_state w)" by simp
  show "case use_binding alloc b w of (e, w') \<Rightarrow> grows w w' \<and> left k (region_state w') \<and> operand_ok P w' K e \<and> held w' e"
    by (rule use_binding_makes [of w0 w k P b, OF w(1) l b]) (use K in \<open>auto simp: operand_ok.simps held_def\<close>)
qed

lemma asm_facts:
  assumes "left (Suc k) (region_state w)"
  obtains a w' where "make_asm0 alloc oc w = (Assembly a (scast oc) [], w')" "grows w w'" "left k (region_state w')"
  by (rule new_node_facts [OF assms]) (auto simp: make_asm0_def intro: that)

lemma makes_rip: "P b \<Longrightarrow> makes w0 P 2 Displacement (asm1 alloc LNKR_SUB_RIP_TO_REF (use_binding alloc b))"
  unfolding makes_def
proof (intro allI impI, elim conjE)
  fix w k
  assume b: "P b" and w: "grows w0 w" "left (2 + k) (region_state w)"
  then have l: "left (Suc (Suc k)) (region_state w)" by simp
  obtain a n w1 where 1: "use_binding alloc b w = (Symbol a n, w1)" "grows w w1" "left (Suc k) (region_state w1)"
    "reference_ok P w1 (Symbol a n)" "a \<in> used (region_state w1)" by (rule use_binding_makes [of w0 w "Suc k" P b, OF w(1) l b])
  obtain a2 w2 where 2: "make_asm0 alloc LNKR_SUB_RIP_TO_REF w1 = (Assembly a2 (scast (LNKR_SUB_RIP_TO_REF :: 32 word)) [], w2)"
      "grows w1 w2" "left k (region_state w2)" by (rule asm_facts [OF 1(3), where oc = LNKR_SUB_RIP_TO_REF])
  have "scast (LNKR_SUB_RIP_TO_REF :: 32 word) = (LNKR_SUB_RIP_TO_REF :: u64)" by (simp add: opcode_defs)
  then show "case asm1 alloc LNKR_SUB_RIP_TO_REF (use_binding alloc b) w of (e, w') \<Rightarrow>
      grows w w' \<and> left k (region_state w') \<and> operand_ok P w' Displacement e \<and> held w' e"
    using 1 2 grows_trans [OF 1(2) 2(2)] reference_grows [OF 1(4) _ 2(2)] grows_used [OF 2(2) 1(5)]
    by (simp add: asm1_def make_asm1_def add_argument_def operand_ok.simps held_def)
qed

lemma makes_sum: "P b \<Longrightarrow> makes w0 P 4 Address (asm2 alloc LNKR_ADD_OFF_TO_REF (use_binding alloc b) (lit alloc off))"
  unfolding makes_def
proof (intro allI impI, elim conjE)
  fix w k
  assume b: "P b" and w: "grows w0 w" "left (4 + k) (region_state w)"
  then have l: "left (Suc (3 + k)) (region_state w)" by simp
  obtain a n w1 where 1: "use_binding alloc b w = (Symbol a n, w1)" "grows w w1" "left (3 + k) (region_state w1)"
    "reference_ok P w1 (Symbol a n)" "a \<in> used (region_state w1)" by (rule use_binding_makes [of w0 w "3 + k" P b, OF w(1) l b])
  have "left (2 + Suc k) (region_state w1)" using 1(3) by (simp add: numeral_3_eq_3)
  moreover have "makes w0 P 2 Immediate (lit alloc off)" by (rule makes_lit) simp
  ultimately obtain e w2 where 2: "lit alloc off w1 = (e, w2)" "grows w1 w2" "left (Suc k) (region_state w2)"
      "operand_ok P w2 Immediate e"
    using makesD [OF _ grows_trans [OF w(1) 1(2)]] by metis
  then obtain a' v where e: "e = Literal a' v" by (auto simp: operand_ok.simps split: expr.splits)
  obtain a2 w3 where 3: "make_asm0 alloc LNKR_ADD_OFF_TO_REF w2 = (Assembly a2 (scast (LNKR_ADD_OFF_TO_REF :: 32 word)) [], w3)"
      "grows w2 w3" "left k (region_state w3)" by (rule asm_facts [OF 2(3), where oc = LNKR_ADD_OFF_TO_REF])
  have "scast (LNKR_ADD_OFF_TO_REF :: 32 word) = (LNKR_ADD_OFF_TO_REF :: u64)" by (simp add: opcode_defs)
  moreover have g: "grows w1 w3" using grows_trans [OF 2(2) 3(2)] .
  ultimately show "case asm2 alloc LNKR_ADD_OFF_TO_REF (use_binding alloc b) (lit alloc off) w of (e, w') \<Rightarrow>
      grows w w' \<and> left k (region_state w') \<and> operand_ok P w' Address e \<and> held w' e"
    using 1 2(1) 3 e grows_trans [OF 1(2) g] reference_grows [OF 1(4) _ g] grows_used [OF g 1(5)]
    by (simp add: asm2_def make_asm2_def make_asm1_def add_argument_def operand_ok.simps held_def)
qed

section \<open>Generators\<close>

text \<open>
  Code whose references are to bindings that \<open>P\<close> allows or to labels of the code itself. A generator
  that allocates at most \<open>N\<close> objects adds such code and places the labels \<open>L\<close>.
\<close>

definition code_ok :: "(addr \<Rightarrow> bool) \<Rightarrow> 's world \<Rightarrow> expr list \<Rightarrow> bool" where
  "code_ok P w ns \<longleftrightarrow> list_all (\<lambda>n. instruction_ok (\<lambda>b. P b \<or> b \<in> set (label_bindings w ns)) w n \<and> held w n) ns"

definition emits :: "'s world \<Rightarrow> (addr \<Rightarrow> bool) \<Rightarrow> nat \<Rightarrow> addr set \<Rightarrow> ('e, 's) generator \<Rightarrow> bool" where
  "emits w0 P N L h \<longleftrightarrow> (\<forall>c w k. grows w0 w \<and> left (N + k) (region_state w) \<longrightarrow>
     (\<exists>ns w'. h (c, w) = Ret (ns @ c, w') \<and> grows w w' \<and> left k (region_state w') \<and> code_ok P w' ns \<and>
       L \<subseteq> set (label_bindings w' ns)))"

lemma emitsD:
  assumes "emits w0 P N L h" "grows w0 w" "left (N + k) (region_state w)"
  obtains ns w' where "h (c, w) = Ret (ns @ c, w')" "grows w w'" "left k (region_state w')" "code_ok P w' ns"
    "L \<subseteq> set (label_bindings w' ns)"
  using assms unfolding emits_def by blast

lemma code_mono:
  assumes "code_ok P w ns" "\<And>b. P b \<Longrightarrow> Q b"
  shows "code_ok Q w ns"
proof -
  have "instruction_ok (\<lambda>b. Q b \<or> b \<in> set (label_bindings w ns)) w n"
    if "instruction_ok (\<lambda>b. P b \<or> b \<in> set (label_bindings w ns)) w n" for n
    by (rule instruction_ok_mono [OF that]) (use assms(2) in auto)
  then show ?thesis using assms(1) by (simp add: code_ok_def list_all_iff)
qed

lemma code_held: "code_ok P w ns \<Longrightarrow> list_all (held w) ns"
  by (simp add: code_ok_def list_all_iff)

lemma code_grows:
  assumes "code_ok P w ns" "grows w w'"
  shows "code_ok P w' ns"
proof -
  have "label_bindings w' ns = label_bindings w ns" by (rule labels_grow [OF code_held [OF assms(1)] assms(2)])
  then show ?thesis using assms(1) instruction_grows [OF _ _ assms(2)] held_grows [OF _ assms(2)]
    by (simp add: code_ok_def list_all_iff)
qed

lemma label_bindings_append [simp]: "label_bindings w (ms @ ns) = label_bindings w ms @ label_bindings w ns"
  by (simp add: label_bindings_def)

lemma code_append:
  assumes "code_ok P w ms" "code_ok P w ns"
  shows "code_ok P w (ms @ ns)"
proof -
  have "instruction_ok (\<lambda>b. P b \<or> b \<in> set (label_bindings w (ms @ ns))) w n"
    if "instruction_ok (\<lambda>b. P b \<or> b \<in> set (label_bindings w ns')) w n" "ns' = ms \<or> ns' = ns" for n ns'
    by (rule instruction_ok_mono [OF that(1)]) (use that(2) in auto)
  then show ?thesis using assms by (auto simp: code_ok_def list_all_iff)
qed

lemma emits_Ret: "emits w0 P 0 {} Ret"
  by (simp add: emits_def code_ok_def)

lemma emits_bind:
  assumes h: "emits w0 P N L h" and h': "emits w0 P N' L' h'"
  shows "emits w0 P (N + N') (L \<union> L') (\<lambda>g. bindO (h g) h')"
  unfolding emits_def
proof (intro allI impI, elim conjE)
  fix c w k
  assume w: "grows w0 w" "left (N + N' + k) (region_state w)"
  then have "left (N + (N' + k)) (region_state w)" by (simp add: add.assoc)
  from emitsD [OF h w(1) this, of c] obtain ns w1 where
    1: "h (c, w) = Ret (ns @ c, w1)" "grows w w1" "left (N' + k) (region_state w1)" "code_ok P w1 ns" "L \<subseteq> set (label_bindings w1 ns)" .
  from emitsD [OF h' grows_trans [OF w(1) 1(2)] 1(3), of "ns @ c"] obtain ms w2 where
    2: "h' (ns @ c, w1) = Ret (ms @ ns @ c, w2)" "grows w1 w2" "left k (region_state w2)" "code_ok P w2 ms" "L' \<subseteq> set (label_bindings w2 ms)" .
  have "code_ok P w2 (ms @ ns)" using code_append [OF 2(4) code_grows [OF 1(4) 2(2)]] .
  moreover have "L \<union> L' \<subseteq> set (label_bindings w2 (ms @ ns))"
    using 1(5) 2(5) labels_grow [OF code_held [OF 1(4)] 2(2)] by auto
  ultimately show "\<exists>ns w'. bindO (h (c, w)) h' = Ret (ns @ c, w') \<and> grows w w' \<and> left k (region_state w') \<and> code_ok P w' ns \<and>
      L \<union> L' \<subseteq> set (label_bindings w' ns)"
    using 1(1) 2(1,3) grows_trans [OF 1(2) 2(2)] by (intro exI [of _ "ms @ ns"] exI [of _ w2]) simp
qed

lemma emits_weaken:
  assumes "emits w0 P N L h" "N \<le> N'" "L' \<subseteq> L"
  shows "emits w0 P N' L' h"
  unfolding emits_def
proof (intro allI impI, elim conjE)
  fix c w k
  assume w: "grows w0 w" "left (N' + k) (region_state w)"
  then have "left (N + (N' - N + k)) (region_state w)" using assms(2) by simp
  from emitsD [OF assms(1) w(1) this, of c] obtain ns w' where
    "h (c, w) = Ret (ns @ c, w')" "grows w w'" "left (N' - N + k) (region_state w')" "code_ok P w' ns" "L \<subseteq> set (label_bindings w' ns)" .
  then show "\<exists>ns w'. h (c, w) = Ret (ns @ c, w') \<and> grows w w' \<and> left k (region_state w') \<and> code_ok P w' ns \<and>
      L' \<subseteq> set (label_bindings w' ns)"
    using assms(3) left_mono [of "N' - N + k" _ k] by (intro exI [of _ ns] exI [of _ w']) auto
qed

lemma emits_later: "emits w0 P N L h \<Longrightarrow> grows w0 w1 \<Longrightarrow> emits w1 P N L h"
  unfolding emits_def using grows_trans by blast

lemma emits_mono:
  assumes "emits w0 P N L h" "\<And>b. P b \<Longrightarrow> Q b"
  shows "emits w0 Q N L h"
  unfolding emits_def
proof (intro allI impI, elim conjE)
  fix c w k
  assume w: "grows w0 w" "left (N + k) (region_state w)"
  from emitsD [OF assms(1) this, of c] obtain ns w' where
    1: "h (c, w) = Ret (ns @ c, w')" "grows w w'" "left k (region_state w')" "code_ok P w' ns" "L \<subseteq> set (label_bindings w' ns)" .
  then show "\<exists>ns w'. h (c, w) = Ret (ns @ c, w') \<and> grows w w' \<and> left k (region_state w') \<and> code_ok Q w' ns \<and>
      L \<subseteq> set (label_bindings w' ns)"
    using code_mono [OF 1(4) assms(2)] by (intro exI [of _ ns] exI [of _ w']) simp
qed

lemma emits_all_Nil: "emits w0 P 0 {} (do_all [])"
  using emits_Ret [of w0 P] by (simp add: emits_def do_all_def)

lemma emits_all_Cons: "emits w0 P N L h \<Longrightarrow> emits w0 P N' L' (do_all hs) \<Longrightarrow> emits w0 P (N + N') (L \<union> L') (do_all (h # hs))"
  using emits_bind [of w0 P N L h N' L' "do_all hs"] by (simp add: emits_def do_all_def)

lemma emits_cong:
  assumes "emits w0 P N L h'" "\<And>c w. grows w0 w \<Longrightarrow> h (c, w) = h' (c, w)"
  shows "emits w0 P N L h"
  using assms by (simp add: emits_def)

lemma emits_reading:
  assumes "emits w0 P N L (k b)" "\<And>w. grows w0 w \<Longrightarrow> f w = Ret b"
  shows "emits w0 P N L (reading f k)"
  by (rule emits_cong [OF assms(1)]) (simp add: reading_def assms(2))

lemma emits_make:
  assumes m: "makes w0 P N K m"
    and k: "\<And>e w1. grows w0 w1 \<Longrightarrow> operand_ok P w1 K e \<Longrightarrow> held w1 e \<Longrightarrow> emits w1 P N' L (k e)"
  shows "emits w0 P (N + N') L (making m k)"
  unfolding emits_def
proof (intro allI impI, elim conjE)
  fix c w j
  assume w: "grows w0 w" "left (N + N' + j) (region_state w)"
  then have "left (N + (N' + j)) (region_state w)" by (simp add: add.assoc)
  from makesD [OF m w(1) this] obtain e w1 where
    1: "m w = (e, w1)" "grows w w1" "left (N' + j) (region_state w1)" "operand_ok P w1 K e" "held w1 e" .
  from emitsD [OF k [OF grows_trans [OF w(1) 1(2)] 1(4,5)] grows_refl 1(3), of c] obtain ns w2 where
    "k e (c, w1) = Ret (ns @ c, w2)" "grows w1 w2" "left j (region_state w2)" "code_ok P w2 ns" "L \<subseteq> set (label_bindings w2 ns)" .
  then show "\<exists>ns w'. making m k (c, w) = Ret (ns @ c, w') \<and> grows w w' \<and> left j (region_state w') \<and> code_ok P w' ns \<and>
      L \<subseteq> set (label_bindings w' ns)"
    using 1(1) grows_trans [OF 1(2)] by (intro exI [of _ ns] exI [of _ w2]) (simp add: making_def)
qed

lemma emits_new_label:
  assumes k: "\<And>b w1. grows w0 w1 \<Longrightarrow> emits w1 (\<lambda>x. P x \<or> x = b) N (insert b L) (k b)"
  shows "emits w0 P (1 + N) L (making (new_label alloc) k)"
  unfolding emits_def
proof (intro allI impI, elim conjE)
  fix c w j
  assume w: "grows w0 w" "left (1 + N + j) (region_state w)"
  obtain b r where b: "alloc BINDING_AUG_SIZE (region_state w) = (b, r)" by fastforce
  have sz: "BINDING_AUG_SIZE \<in> object_sizes" by (simp add: object_sizes_def)
  have l: "left (Suc (N + j)) (region_state w)" using w(2) by simp
  note facts = left_alloc [OF l sz, unfolded b snd_conv] alloc_fresh [OF l sz, unfolded b fst_conv]
    used_alloc [OF sz, of "region_state w", unfolded b snd_conv fst_conv]
  obtain w1 where 1: "new_label alloc w = (b, w1)" "region_state w1 = r" "nodes w1 = nodes w"
      "\<And>a. a \<noteq> b \<Longrightarrow> augs w1 a = augs w a"
    by (rule that [of "snd (new_label alloc w)"]) (simp_all add: new_label_def make_binding_aug_def b)
  have "a \<noteq> b" if "a \<in> used (region_state w)" for a using that facts by auto
  then have g: "grows w w1" using 1 facts by (simp add: grows_def subset_insertI)
  have "left (N + j) (region_state w1)" using facts 1(2) by simp
  from emitsD [OF k [OF grows_trans [OF w(1) g], of b] grows_refl this, of c] obtain ns w2 where
    2: "k b (c, w1) = Ret (ns @ c, w2)" "grows w1 w2" "left j (region_state w2)" "code_ok (\<lambda>x. P x \<or> x = b) w2 ns"
       "insert b L \<subseteq> set (label_bindings w2 ns)" .
  have "instruction_ok (\<lambda>x. P x \<or> x \<in> set (label_bindings w2 ns)) w2 n"
    if "instruction_ok (\<lambda>x. (P x \<or> x = b) \<or> x \<in> set (label_bindings w2 ns)) w2 n" for n
    by (rule instruction_ok_mono [OF that]) (use 2(5) in auto)
  then have "code_ok P w2 ns" using 2(4) by (simp add: code_ok_def list_all_iff)
  then show "\<exists>ns w'. making (new_label alloc) k (c, w) = Ret (ns @ c, w') \<and> grows w w' \<and> left j (region_state w') \<and>
      code_ok P w' ns \<and> L \<subseteq> set (label_bindings w' ns)"
    using 1(1) 2 grows_trans [OF g] by (intro exI [of _ ns] exI [of _ w2]) (simp add: making_def)
qed

text \<open>Instructions.\<close>

lemma emits_instruction:
  assumes "\<And>w k. grows w0 w \<Longrightarrow> left (N + k) (region_state w) \<Longrightarrow>
      \<exists>e w'. m w = (e, w') \<and> grows w w' \<and> left k (region_state w') \<and> instruction_ok P w' e \<and> held w' e"
  shows "emits w0 P N {} (prepend_made m)"
  unfolding emits_def
proof (intro allI impI, elim conjE)
  fix c w k
  assume "grows w0 w" "left (N + k) (region_state w)"
  from assms [OF this] obtain e w' where
    1: "m w = (e, w')" "grows w w'" "left k (region_state w')" "instruction_ok P w' e" "held w' e" by blast
  have "code_ok P w' [e]" using 1(4,5) instruction_ok_mono [OF 1(4)] by (simp add: code_ok_def)
  then show "\<exists>ns w'. prepend_made m (c, w) = Ret (ns @ c, w') \<and> grows w w' \<and> left k (region_state w') \<and> code_ok P w' ns \<and>
      {} \<subseteq> set (label_bindings w' ns)"
    using 1(1-3) by (intro exI [of _ "[e]"] exI [of _ w']) (simp add: prepend_made_def making_def)
qed

lemma emits_asm0:
  assumes "map_of operand_kinds (scast oc) = Some []"
  shows "emits w0 P 1 {} (prepend_made (make_asm0 alloc oc))"
proof (rule emits_instruction)
  fix w :: "'s world" and k
  assume "left (1 + k) (region_state w)"
  then have "left (Suc k) (region_state w)" by simp
  then obtain a w' where "make_asm0 alloc oc w = (Assembly a (scast oc) [], w')" "grows w w'" "left k (region_state w')"
    by (rule asm_facts [where oc = oc])
  then show "\<exists>e w'. make_asm0 alloc oc w = (e, w') \<and> grows w w' \<and> left k (region_state w') \<and> instruction_ok P w' e \<and> held w' e"
    using assms by (simp add: instruction_ok_def held_def)
qed

lemma emits_asm1:
  assumes "makes w0 P N K m" "map_of operand_kinds (scast oc) = Some [K]"
  shows "emits w0 P (N + 1) {} (prepend_made (asm1 alloc oc m))"
proof (rule emits_instruction)
  fix w :: "'s world" and k
  assume w: "grows w0 w" "left (N + 1 + k) (region_state w)"
  then have l: "left (N + Suc k) (region_state w)" by simp
  from makesD [OF assms(1) w(1) l] obtain x w1 where
    1: "m w = (x, w1)" "grows w w1" "left (Suc k) (region_state w1)" "operand_ok P w1 K x" "held w1 x" .
  obtain a w2 where 2: "make_asm0 alloc oc w1 = (Assembly a (scast oc) [], w2)" "grows w1 w2" "left k (region_state w2)"
    by (rule asm_facts [OF 1(3), where oc = oc])
  show "\<exists>e w'. asm1 alloc oc m w = (e, w') \<and> grows w w' \<and> left k (region_state w') \<and> instruction_ok P w' e \<and> held w' e"
    using 1(1) 2 assms(2) grows_trans [OF 1(2) 2(2)] operand_grows [OF 1(4,5) 2(2)] held_grows [OF 1(5) 2(2)]
    by (simp add: asm1_def make_asm1_def add_argument_def instruction_ok_def held_def)
qed

lemma emits_asm2:
  assumes "makes w0 P N K m" "makes w0 P N' K' m'" "map_of operand_kinds (scast oc) = Some [K, K']"
  shows "emits w0 P (N + N' + 1) {} (prepend_made (asm2 alloc oc m m'))"
proof (rule emits_instruction)
  fix w :: "'s world" and k
  assume w: "grows w0 w" "left (N + N' + 1 + k) (region_state w)"
  then have l: "left (N + (N' + Suc k)) (region_state w)" by (simp add: add.assoc)
  from makesD [OF assms(1) w(1) l] obtain x w1 where
    1: "m w = (x, w1)" "grows w w1" "left (N' + Suc k) (region_state w1)" "operand_ok P w1 K x" "held w1 x" .
  from makesD [OF assms(2) grows_trans [OF w(1) 1(2)] 1(3)] obtain y w2 where
    2: "m' w1 = (y, w2)" "grows w1 w2" "left (Suc k) (region_state w2)" "operand_ok P w2 K' y" "held w2 y" .
  obtain a w3 where 3: "make_asm0 alloc oc w2 = (Assembly a (scast oc) [], w3)" "grows w2 w3" "left k (region_state w3)"
    by (rule asm_facts [OF 2(3), where oc = oc])
  have g: "grows w1 w3" by (rule grows_trans [OF 2(2) 3(2)])
  show "\<exists>e w'. asm2 alloc oc m m' w = (e, w') \<and> grows w w' \<and> left k (region_state w') \<and> instruction_ok P w' e \<and> held w' e"
    using 1(1) 2(1) 3 assms(3) grows_trans [OF 1(2) g] operand_grows [OF 1(4,5) g] held_grows [OF 1(5) g]
      operand_grows [OF 2(4,5) 3(2)] held_grows [OF 2(5) 3(2)]
    by (simp add: asm2_def make_asm2_def make_asm1_def add_argument_def instruction_ok_def held_def)
qed

lemma emits_asm3:
  assumes "makes w0 P N K m" "makes w0 P N' K' m'" "makes w0 P N'' K'' m''" "map_of operand_kinds (scast oc) = Some [K, K', K'']"
  shows "emits w0 P (N + N' + N'' + 1) {} (prepend_made (asm3 alloc oc m m' m''))"
proof (rule emits_instruction)
  fix w :: "'s world" and k
  assume w: "grows w0 w" "left (N + N' + N'' + 1 + k) (region_state w)"
  then have l: "left (N + (N' + (N'' + Suc k))) (region_state w)" by (simp add: add.assoc)
  from makesD [OF assms(1) w(1) l] obtain x w1 where
    1: "m w = (x, w1)" "grows w w1" "left (N' + (N'' + Suc k)) (region_state w1)" "operand_ok P w1 K x" "held w1 x" .
  note g1 = grows_trans [OF w(1) 1(2)]
  from makesD [OF assms(2) g1 1(3)] obtain y w2 where
    2: "m' w1 = (y, w2)" "grows w1 w2" "left (N'' + Suc k) (region_state w2)" "operand_ok P w2 K' y" "held w2 y" .
  from makesD [OF assms(3) grows_trans [OF g1 2(2)] 2(3)] obtain z w3 where
    3: "m'' w2 = (z, w3)" "grows w2 w3" "left (Suc k) (region_state w3)" "operand_ok P w3 K'' z" "held w3 z" .
  obtain a w4 where 4: "make_asm0 alloc oc w3 = (Assembly a (scast oc) [], w4)" "grows w3 w4" "left k (region_state w4)"
    by (rule asm_facts [OF 3(3), where oc = oc])
  have g2: "grows w2 w4" by (rule grows_trans [OF 3(2) 4(2)])
  have g3: "grows w1 w4" by (rule grows_trans [OF 2(2) g2])
  show "\<exists>e w'. asm3 alloc oc m m' m'' w = (e, w') \<and> grows w w' \<and> left k (region_state w') \<and> instruction_ok P w' e \<and> held w' e"
    using 1(1) 2(1) 3(1) 4 assms(4) grows_trans [OF 1(2) g3] operand_grows [OF 1(4,5) g3] held_grows [OF 1(5) g3]
      operand_grows [OF 2(4,5) g2] held_grows [OF 2(5) g2] operand_grows [OF 3(4,5) 4(2)] held_grows [OF 3(5) 4(2)]
    by (simp add: asm3_def make_asm3_def make_asm2_def make_asm1_def add_argument_def instruction_ok_def held_def)
qed

lemma emits_label: "emits w0 P 2 {b} (label alloc (use_binding alloc b))"
  unfolding emits_def
proof (intro allI impI, elim conjE)
  fix c w k
  assume w: "grows w0 w" "left (2 + k) (region_state w)"
  then have l: "left (Suc (Suc k)) (region_state w)" by simp
  obtain a n w1 where 1: "use_binding alloc b w = (Symbol a n, w1)" "grows w w1" "left (Suc k) (region_state w1)"
    "reference_ok (\<lambda>x. x = b) w1 (Symbol a n)" "a \<in> used (region_state w1)"
    by (rule use_binding_makes [of w0 w "Suc k" "\<lambda>x. x = b" b, OF w(1) l refl])
  obtain a2 w2 where 2: "make_asm0 alloc LABEL w1 = (Assembly a2 (scast (LABEL :: 32 word)) [], w2)"
      "grows w1 w2" "left k (region_state w2)" by (rule asm_facts [OF 1(3), where oc = LABEL])
  have lab: "scast (LABEL :: 32 word) = (LABEL :: u64)" by (simp add: opcode_defs)
  let ?n = "Assembly a2 LABEL [Symbol a n]"
  have ref: "reference_ok (\<lambda>x. x = b) w2 (Symbol a n)" using reference_grows [OF 1(4) _ 2(2)] 1(5) by simp
  then have lb: "label_binding w2 ?n = Some b" by (auto simp: label_binding_def reference_ok_def split: option.splits)
  have "instruction_ok (\<lambda>x. P x \<or> x = b) w2 ?n"
    using ref by (auto simp: instruction_ok_def operand_kinds_def opcode_defs operand_ok.simps reference_ok_def split: option.splits)
  then have "code_ok P w2 [?n]" using lb grows_used [OF 2(2) 1(5)] by (simp add: code_ok_def held_def)
  then show "\<exists>ns w'. label alloc (use_binding alloc b) (c, w) = Ret (ns @ c, w') \<and> grows w w' \<and> left k (region_state w') \<and>
      code_ok P w' ns \<and> {b} \<subseteq> set (label_bindings w' ns)"
    using 1(1) 2 lb grows_trans [OF 1(2) 2(2)]
    by (intro exI [of _ "[?n]"] exI [of _ w2])
      (simp add: label_def prepend_made_def making_def asm1_def make_asm1_def add_argument_def lab)
qed

end

end
