(* ===== verification/Generated_Code.thy ===== *)
theory Generated_Code
  imports Emitting
begin

text \<open>
The functions of \<open>x86_64_generator.c\<close> for the constructs emit instructions that the assembler accepts; the region allocator is an object source.
\<close>

context object_source
begin

text \<open>Opcodes and their operands.\<close>

lemma opcode_kinds:
  "map_of operand_kinds (scast (MOVQ_MDB_TO_REG :: 32 word)) = Some [Displacement, Register, Register]"
  "map_of operand_kinds (scast (MOVQ_REG_TO_MDB :: 32 word)) = Some [Register, Displacement, Register]"
  "map_of operand_kinds (scast (LEAQ_MDB_TO_REG :: 32 word)) = Some [Displacement, Register, Register]"
  "map_of operand_kinds (scast (MOVQ_IMM_TO_REG :: 32 word)) = Some [Address, Register]"
  "map_of operand_kinds (scast (MOVQ_REG_TO_REG :: 32 word)) = Some [Register, Register]"
  "map_of operand_kinds (scast (ORQ_REG_TO_REG :: 32 word)) = Some [Register, Register]"
  "map_of operand_kinds (scast (SUBQ_IMM_TO_REG :: 32 word)) = Some [Immediate, Register]"
  "map_of operand_kinds (scast (ADDQ_IMM_TO_REG :: 32 word)) = Some [Immediate, Register]"
  "map_of operand_kinds (scast (JMP_REL :: 32 word)) = Some [Displacement]"
  "map_of operand_kinds (scast (JE_REL :: 32 word)) = Some [Displacement]"
  "map_of operand_kinds (scast (PUSHQ_REG :: 32 word)) = Some [Register]"
  "map_of operand_kinds (scast (POPQ_REG :: 32 word)) = Some [Register]"
  "map_of operand_kinds (scast (JMP_TO_REG :: 32 word)) = Some [Register]"
  "map_of operand_kinds (scast (CALL_REG :: 32 word)) = Some [Register]"
  "map_of operand_kinds (scast (LEAVE :: 32 word)) = Some []"
  "map_of operand_kinds (scast (RET :: 32 word)) = Some []"
  by (simp_all add: operand_kinds_def opcode_defs)

lemma register_bounds:
  "(RAX :: 32 word) < 16" "(RCX :: 32 word) < 16" "(RDX :: 32 word) < 16" "(RBX :: 32 word) < 16" "(RSP :: 32 word) < 16"
  "(RBP :: 32 word) < 16" "(RSI :: 32 word) < 16" "(RDI :: 32 word) < 16" "(R8 :: 32 word) < 16" "(R9 :: 32 word) < 16"
  "(R10 :: 32 word) < 16" "(R11 :: 32 word) < 16" "(R12 :: 32 word) < 16" "(R13 :: 32 word) < 16" "(R14 :: 32 word) < 16"
  "(R15 :: 32 word) < 16"
  by (simp_all add: register_defs)

text \<open>A binding whose storage the code may use.\<close>

definition stored :: "'s world \<Rightarrow> (addr \<Rightarrow> bool) \<Rightarrow> addr \<Rightarrow> bool" where
  "stored w P b \<longleftrightarrow> b \<in> used (region_state w) \<and> (aug_type (augs w b) = absolute_storage \<longrightarrow> P b)"

lemma stored_grows: "stored w P b \<Longrightarrow> grows w w' \<Longrightarrow> stored w' P b"
  by (auto simp: stored_def grows_def)

lemma stored_mono: "stored w P b \<Longrightarrow> (\<And>x. P x \<Longrightarrow> Q x) \<Longrightarrow> stored w Q b"
  by (auto simp: stored_def)

lemma emits_aug:
  assumes "b \<in> used (region_state w0)" "emits w0 P N L (H (augs w0 b))" "\<And>c w. h (c, w) = H (augs w b) (c, w)"
  shows "emits w0 P N L h"
  by (rule emits_cong [OF assms(2)]) (use assms(1,3) in \<open>simp add: grows_def\<close>)

lemmas simple_makers = makes_lit makes_asm0 [OF register_bounds(1)] makes_asm0 [OF register_bounds(5)] makes_asm0 [OF register_bounds(6)]

lemma emits_load:
  assumes b: "stored w0 P b" and d: "operand_ok P w0 Register d" "held w0 d" and s: "operand_ok P w0 Register s" "held w0 s"
  shows "emits w0 P 9 {} (make_load alloc b off d s)"
proof -
  note D = makes_Pair [OF d] and S = makes_Pair [OF s]
  have disp: "makes w0 P 2 Displacement (lit alloc v)" for v by (rule makes_lit) simp
  have f: "emits w0 P (2 + 1 + 0 + 1) {} (prepend_made (asm3 alloc MOVQ_MDB_TO_REG (lit alloc (offset (augs w0 b) + off)) (make_asm0 alloc r) (Pair d)))"
    if "r < 16" for r by (rule emits_asm3 [OF disp makes_asm0 [OF that] D opcode_kinds(1)])
  have a: "emits w0 P (4 + 0 + 1 + (2 + 0 + 0 + 1 + 0)) ({} \<union> ({} \<union> {})) (do_all
      [prepend_made (asm2 alloc MOVQ_IMM_TO_REG (asm2 alloc LNKR_ADD_OFF_TO_REF (use_binding alloc b) (lit alloc off)) (Pair s)),
       prepend_made (asm3 alloc MOVQ_MDB_TO_REG (lit alloc 0) (Pair s) (Pair d))])" if "aug_type (augs w0 b) = absolute_storage"
    using b that
    by (intro emits_all_Cons emits_all_Nil emits_asm2 [OF makes_sum S opcode_kinds(4)] emits_asm3 [OF disp S D opcode_kinds(1)])
      (simp add: stored_def)
  let ?H = "\<lambda>g. case aug_type g of
        frame_relative_storage \<Rightarrow> prepend_made (asm3 alloc MOVQ_MDB_TO_REG (lit alloc (offset g + off)) (make_asm0 alloc RBP) (Pair d))
      | absolute_storage \<Rightarrow> do_all
         [prepend_made (asm2 alloc MOVQ_IMM_TO_REG (asm2 alloc LNKR_ADD_OFF_TO_REF (use_binding alloc b) (lit alloc off)) (Pair s)),
          prepend_made (asm3 alloc MOVQ_MDB_TO_REG (lit alloc 0) (Pair s) (Pair d))]
      | top_relative_storage \<Rightarrow> prepend_made (asm3 alloc MOVQ_MDB_TO_REG (lit alloc (offset g + off)) (make_asm0 alloc RSP) (Pair d))
      | nil_storage \<Rightarrow> Ret"
  have "emits w0 P 9 {} (?H (augs w0 b))"
  proof (cases "aug_type (augs w0 b)")
    case absolute_storage
    show ?thesis unfolding absolute_storage binding_aug_type.case by (rule emits_weaken [OF a [OF absolute_storage]]) simp_all
  next
    case frame_relative_storage
    show ?thesis unfolding frame_relative_storage binding_aug_type.case by (rule emits_weaken [OF f [OF register_bounds(6)]]) simp_all
  next
    case top_relative_storage
    show ?thesis unfolding top_relative_storage binding_aug_type.case by (rule emits_weaken [OF f [OF register_bounds(5)]]) simp_all
  next
    case nil_storage
    show ?thesis unfolding nil_storage binding_aug_type.case by (rule emits_weaken [OF emits_Ret]) simp_all
  qed
  then show ?thesis
    by (rule emits_aug [of b, rotated]) (use b in \<open>simp_all add: stored_def make_load_def split: binding_aug_type.split\<close>)
qed

lemma emits_store:
  assumes b: "stored w0 P b" and d: "operand_ok P w0 Register d" "held w0 d" and s: "operand_ok P w0 Register s" "held w0 s"
  shows "emits w0 P 9 {} (make_store alloc d b off s)"
proof -
  note D = makes_Pair [OF d] and S = makes_Pair [OF s]
  have disp: "makes w0 P 2 Displacement (lit alloc v)" for v by (rule makes_lit) simp
  have f: "emits w0 P (0 + 2 + 1 + 1) {} (prepend_made (asm3 alloc MOVQ_REG_TO_MDB (Pair d) (lit alloc (offset (augs w0 b) + off)) (make_asm0 alloc r)))"
    if "r < 16" for r by (rule emits_asm3 [OF D disp makes_asm0 [OF that] opcode_kinds(2)])
  have a: "emits w0 P (4 + 0 + 1 + (0 + 2 + 0 + 1 + 0)) ({} \<union> ({} \<union> {})) (do_all
      [prepend_made (asm2 alloc MOVQ_IMM_TO_REG (asm2 alloc LNKR_ADD_OFF_TO_REF (use_binding alloc b) (lit alloc off)) (Pair s)),
       prepend_made (asm3 alloc MOVQ_REG_TO_MDB (Pair d) (lit alloc 0) (Pair s))])" if "aug_type (augs w0 b) = absolute_storage"
    using b that
    by (intro emits_all_Cons emits_all_Nil emits_asm2 [OF makes_sum S opcode_kinds(4)] emits_asm3 [OF D disp S opcode_kinds(2)])
      (simp add: stored_def)
  let ?H = "\<lambda>g. case aug_type g of
        frame_relative_storage \<Rightarrow> prepend_made (asm3 alloc MOVQ_REG_TO_MDB (Pair d) (lit alloc (offset g + off)) (make_asm0 alloc RBP))
      | absolute_storage \<Rightarrow> do_all
         [prepend_made (asm2 alloc MOVQ_IMM_TO_REG (asm2 alloc LNKR_ADD_OFF_TO_REF (use_binding alloc b) (lit alloc off)) (Pair s)),
          prepend_made (asm3 alloc MOVQ_REG_TO_MDB (Pair d) (lit alloc 0) (Pair s))]
      | top_relative_storage \<Rightarrow> prepend_made (asm3 alloc MOVQ_REG_TO_MDB (Pair d) (lit alloc (offset g + off)) (make_asm0 alloc RSP))
      | nil_storage \<Rightarrow> Ret"
  have "emits w0 P 9 {} (?H (augs w0 b))"
  proof (cases "aug_type (augs w0 b)")
    case absolute_storage
    show ?thesis unfolding absolute_storage binding_aug_type.case by (rule emits_weaken [OF a [OF absolute_storage]]) simp_all
  next
    case frame_relative_storage
    show ?thesis unfolding frame_relative_storage binding_aug_type.case by (rule emits_weaken [OF f [OF register_bounds(6)]]) simp_all
  next
    case top_relative_storage
    show ?thesis unfolding top_relative_storage binding_aug_type.case by (rule emits_weaken [OF f [OF register_bounds(5)]]) simp_all
  next
    case nil_storage
    show ?thesis unfolding nil_storage binding_aug_type.case by (rule emits_weaken [OF emits_Ret]) simp_all
  qed
  then show ?thesis
    by (rule emits_aug [of b, rotated]) (use b in \<open>simp_all add: stored_def make_store_def split: binding_aug_type.split\<close>)
qed

lemma emits_address:
  assumes b: "stored w0 P b" and d: "operand_ok P w0 Register d" "held w0 d"
  shows "emits w0 P 9 {} (make_load_address alloc b d)"
proof -
  note D = makes_Pair [OF d]
  have disp: "makes w0 P 2 Displacement (lit alloc v)" for v by (rule makes_lit) simp
  have f: "emits w0 P (2 + 1 + 0 + 1) {} (prepend_made (asm3 alloc LEAQ_MDB_TO_REG (lit alloc (offset (augs w0 b))) (make_asm0 alloc r) (Pair d)))"
    if "r < 16" for r by (rule emits_asm3 [OF disp makes_asm0 [OF that] D opcode_kinds(3)])
  have a: "emits w0 P (1 + 0 + 1) {} (prepend_made (asm2 alloc MOVQ_IMM_TO_REG (use_binding alloc b) (Pair d)))"
    if "aug_type (augs w0 b) = absolute_storage"
    by (rule emits_asm2 [OF makes_use D opcode_kinds(4)]) (use b that in \<open>simp_all add: stored_def\<close>)
  let ?H = "\<lambda>g. case aug_type g of
        frame_relative_storage \<Rightarrow> prepend_made (asm3 alloc LEAQ_MDB_TO_REG (lit alloc (offset g)) (make_asm0 alloc RBP) (Pair d))
      | absolute_storage \<Rightarrow> prepend_made (asm2 alloc MOVQ_IMM_TO_REG (use_binding alloc b) (Pair d))
      | top_relative_storage \<Rightarrow> prepend_made (asm3 alloc LEAQ_MDB_TO_REG (lit alloc (offset g)) (make_asm0 alloc RSP) (Pair d))
      | nil_storage \<Rightarrow> Ret"
  have "emits w0 P 9 {} (?H (augs w0 b))"
  proof (cases "aug_type (augs w0 b)")
    case absolute_storage
    show ?thesis unfolding absolute_storage binding_aug_type.case by (rule emits_weaken [OF a [OF absolute_storage]]) simp_all
  next
    case frame_relative_storage
    show ?thesis unfolding frame_relative_storage binding_aug_type.case by (rule emits_weaken [OF f [OF register_bounds(6)]]) simp_all
  next
    case top_relative_storage
    show ?thesis unfolding top_relative_storage binding_aug_type.case by (rule emits_weaken [OF f [OF register_bounds(5)]]) simp_all
  next
    case nil_storage
    show ?thesis unfolding nil_storage binding_aug_type.case by (rule emits_weaken [OF emits_Ret]) simp_all
  qed
  then show ?thesis
    by (rule emits_aug [of b, rotated]) (use b in \<open>simp_all add: stored_def make_load_address_def split: binding_aug_type.split\<close>)
qed

lemma emits_load_reg: "stored w0 P b \<Longrightarrow> d < 16 \<Longrightarrow> s < 16 \<Longrightarrow> emits w0 P 11 {} (load_reg alloc b off d s)"
proof -
  assume b: "stored w0 P b" and d: "d < 16" and s: "s < 16"
  have "emits w0 P (1 + (1 + 9)) {} (load_reg alloc b off d s)" unfolding load_reg_def
    by (rule emits_make [OF makes_asm0 [OF d] emits_make [OF makes_asm0 [OF s] emits_load]];
        (erule (2) operand_grows | erule (1) held_grows | assumption | rule stored_grows [OF b grows_trans]))
  then show ?thesis by simp
qed

lemma emits_store_reg: "stored w0 P b \<Longrightarrow> d < 16 \<Longrightarrow> s < 16 \<Longrightarrow> emits w0 P 11 {} (store_reg alloc d b off s)"
proof -
  assume b: "stored w0 P b" and d: "d < 16" and s: "s < 16"
  have "emits w0 P (1 + (1 + 9)) {} (store_reg alloc d b off s)" unfolding store_reg_def
    by (rule emits_make [OF makes_asm0 [OF d] emits_make [OF makes_asm0 [OF s] emits_store]];
        (erule (2) operand_grows | erule (1) held_grows | assumption | rule stored_grows [OF b grows_trans]))
  then show ?thesis by simp
qed

lemma emits_address_reg: "stored w0 P b \<Longrightarrow> d < 16 \<Longrightarrow> emits w0 P 10 {} (address_reg alloc b d)"
proof -
  assume b: "stored w0 P b" and d: "d < 16"
  have "emits w0 P (1 + 9) {} (address_reg alloc b d)" unfolding address_reg_def
    by (rule emits_make [OF makes_asm0 [OF d] emits_address]) (use b stored_grows in blast)+
  then show ?thesis by simp
qed

section \<open>Sequences\<close>

lemma emits_move_reg: "s < 16 \<Longrightarrow> d < 16 \<Longrightarrow> emits w0 P 3 {} (move_reg alloc s d)"
  using emits_asm2 [OF makes_asm0 makes_asm0 opcode_kinds(5)] by (fastforce simp: move_reg_def numeral_3_eq_3)

lemma emits_or_reg: "emits w0 P 3 {} (prepend_made (asm2 alloc ORQ_REG_TO_REG (make_asm0 alloc RAX) (make_asm0 alloc RAX)))"
  using emits_asm2 [OF makes_asm0 makes_asm0 opcode_kinds(6), OF register_bounds(1,1)] by (simp add: numeral_3_eq_3)

lemma emits_load_mem: "b < 16 \<Longrightarrow> d < 16 \<Longrightarrow> emits w0 P 5 {} (load_mem alloc off b d)"
  unfolding load_mem_def
  by (rule emits_weaken [OF emits_asm3 [OF makes_lit makes_asm0 makes_asm0 opcode_kinds(1)]]) simp_all

lemma emits_store_mem:
  assumes "operand_ok P w0 Register d" "held w0 d"
  shows "emits w0 P 4 {} (prepend_made (asm3 alloc MOVQ_REG_TO_MDB (make_asm0 alloc RAX) (lit alloc off) (Pair d)))"
  by (rule emits_weaken [OF emits_asm3 [OF makes_asm0 [OF register_bounds(1)] makes_lit makes_Pair [OF assms] opcode_kinds(2)]]) simp_all

lemma emits_imm_reg:
  "d < 16 \<Longrightarrow> oc = SUBQ_IMM_TO_REG \<or> oc = ADDQ_IMM_TO_REG \<or> oc = MOVQ_IMM_TO_REG \<Longrightarrow> emits w0 P 4 {} (imm_reg alloc oc v d)"
  unfolding imm_reg_def
  by (elim disjE; hypsubst)
    (rule emits_weaken [OF emits_asm2 [OF makes_lit makes_asm0 opcode_kinds(7)]]
       emits_weaken [OF emits_asm2 [OF makes_lit makes_asm0 opcode_kinds(8)]]
       emits_weaken [OF emits_asm2 [OF makes_lit makes_asm0 opcode_kinds(4)]]; simp)+

lemma emits_push_reg: "d < 16 \<Longrightarrow> emits w0 P 2 {} (push_reg alloc d)"
  unfolding push_reg_def by (rule emits_weaken [OF emits_asm1 [OF makes_asm0 opcode_kinds(11)]]) simp_all

lemma emits_pop_reg: "d < 16 \<Longrightarrow> emits w0 P 2 {} (pop_reg alloc d)"
  unfolding pop_reg_def by (rule emits_weaken [OF emits_asm1 [OF makes_asm0 opcode_kinds(12)]]) simp_all

lemma emits_jump_to_reg: "d < 16 \<Longrightarrow> emits w0 P 2 {} (prepend_made (asm1 alloc JMP_TO_REG (make_asm0 alloc d)))"
  by (rule emits_weaken [OF emits_asm1 [OF makes_asm0 opcode_kinds(13)]]) simp_all

lemma emits_call_reg: "d < 16 \<Longrightarrow> emits w0 P 2 {} (prepend_made (asm1 alloc CALL_REG (make_asm0 alloc d)))"
  by (rule emits_weaken [OF emits_asm1 [OF makes_asm0 opcode_kinds(14)]]) simp_all

lemma emits_jump_rel: "P b \<Longrightarrow> oc = JMP_REL \<or> oc = JE_REL \<Longrightarrow> emits w0 P 3 {} (jump_rel alloc oc b)"
  unfolding jump_rel_def
  by (elim disjE; hypsubst)
    (rule emits_weaken [OF emits_asm1 [OF makes_rip opcode_kinds(9)]] emits_weaken [OF emits_asm1 [OF makes_rip opcode_kinds(10)]]; simp)+

lemmas emits_leave = emits_asm0 [OF opcode_kinds(15)] and emits_ret = emits_asm0 [OF opcode_kinds(16)]

text \<open>A symbol and its binding.\<close>

definition bound :: "'s world \<Rightarrow> expr \<Rightarrow> addr \<Rightarrow> bool" where
  "bound w r b \<longleftrightarrow> (case r of Symbol a n \<Rightarrow> a \<in> used (region_state w) \<and> symbol_aug (nodes w a) = Some b | _ \<Rightarrow> False)"

lemma bound_binding: "bound w0 r b \<Longrightarrow> grows w0 w \<Longrightarrow> binding_of w r = Ret b"
  by (auto simp: bound_def grows_def binding_of_def split: expr.splits)

lemma bound_grows: "bound w r b \<Longrightarrow> grows w w' \<Longrightarrow> bound w' r b"
  by (auto simp: bound_def grows_def split: expr.splits)

lemma emits_read_binding: "bound w0 r b \<Longrightarrow> emits w0 P N L (k b) \<Longrightarrow> emits w0 P N L (reading (\<lambda>w. binding_of w r) k)"
  by (rule emits_reading [where b = b and k = k]) (auto simp: bound_binding)

lemma emits_read_code:
  "a \<in> used (region_state w0) \<Longrightarrow> cont_instr_bndg (nodes w0 a) = Some ci \<Longrightarrow> emits w0 P N L (k ci) \<Longrightarrow>
   emits w0 P N L (reading (\<lambda>w. deref (cont_instr_bndg (nodes w a))) k)"
  by (rule emits_reading [where b = ci and k = k]) (auto simp: grows_def)

lemma emits_read_temp:
  "a \<in> used (region_state w0) \<Longrightarrow> temp_storage_bndg (nodes w0 a) = Some t \<Longrightarrow> emits w0 P N L (k t) \<Longrightarrow>
   emits w0 P N L (reading (temp_bndg a) k)"
  by (rule emits_reading [where b = t and k = k]) (auto simp: grows_def temp_bndg_def)

lemmas emits_regs = emits_load_reg emits_store_reg emits_address_reg emits_move_reg emits_or_reg emits_load_mem emits_imm_reg
  emits_push_reg emits_pop_reg emits_jump_to_reg emits_call_reg emits_jump_rel emits_leave emits_ret emits_label

section \<open>The constructs\<close>

lemma emits_ifs:
  assumes c: "emits w0 P N1 L1 cnd" and t: "emits w0 P N2 L2 con" and f: "emits w0 P N3 L3 alt"
  shows "emits w0 P (N1 + N2 + N3 + 20) (L1 \<union> L2 \<union> L3) (sgenerate_ifs alloc cnd con alt)"
proof -
  have inner: "emits w2 (\<lambda>x. (P x \<or> x = b) \<or> x = e) (3 + (2 + (N3 + (2 + 0)))) (insert e (insert b L3))
      (do_all [jump_rel alloc JMP_REL e, label alloc (use_binding alloc b), alt, label alloc (use_binding alloc e)])"
    if "grows w0 w2" for w2 b e
    by (rule emits_weaken, (rule emits_all_Cons emits_all_Nil emits_regs emits_mono [OF emits_later [OF f that]] | (simp add: register_bounds; fail) | (auto; fail))+)
  have "emits w1 (\<lambda>x. P x \<or> x = b) (3 + (N2 + (1 + (3 + (2 + (N3 + (2 + 0)))) + 0))) (insert b (L2 \<union> L3))
      (do_all [jump_rel alloc JE_REL b, con,
        making (new_label alloc) (\<lambda>e. do_all [jump_rel alloc JMP_REL e, label alloc (use_binding alloc b), alt, label alloc (use_binding alloc e)])])"
    if "grows w0 w1" for w1 b
    by (rule emits_weaken, (rule emits_all_Cons emits_all_Nil emits_regs emits_mono [OF emits_later [OF t that]] emits_new_label
         inner [OF grows_trans [OF that]] | assumption | (simp add: register_bounds; fail) | (auto; fail))+)
  from emits_new_label [OF this]
  show ?thesis unfolding sgenerate_ifs_def
    by - (rule emits_weaken, (rule emits_all_Cons emits_all_Nil emits_regs c | assumption | (simp add: register_bounds; fail) | (auto; fail))+)
qed

lemma emits_store_arguments:
  assumes "\<And>x. x \<in> set xs \<Longrightarrow> emits w0 P (N x) (L x) (f x)" and r: "bound w0 r b" "stored w0 P b"
  shows "emits w0 P (sum_list (map N xs) + 11 * length xs) (\<Union>x \<in> set xs. L x) (store_arguments alloc r (map f xs) off)"
  using assms(1)
proof (induction xs arbitrary: off)
  case (Cons x xs)
  have "emits w0 P 11 {} (reading (\<lambda>w. binding_of w r) (\<lambda>b. store_reg alloc RAX b v R11))" for v
    by (intro emits_read_binding [OF r(1)] emits_store_reg [OF r(2)] register_bounds)
  from emits_all_Cons [OF Cons.prems [of x] emits_all_Cons [OF this emits_all_Cons [OF Cons.IH emits_all_Nil]]] Cons.prems
  show ?case by (simp add: algebra_simps)
qed (simp add: emits_Ret)

lemma emits_storage:
  assumes "\<And>x. x \<in> set xs \<Longrightarrow> emits w0 P (N x) (L x) (f x)" and r: "bound w0 r b" "stored w0 P b"
  shows "emits w0 P (sum_list (map N xs) + 11 * length xs + 10) (\<Union>x \<in> set xs. L x)
    (sgenerate_storage_expressions alloc r (map f xs))"
proof -
  have "emits w0 P 10 {} (reading (\<lambda>w. binding_of w r) (\<lambda>b. address_reg alloc b RAX))"
    by (intro emits_read_binding [OF r(1)] emits_address_reg [OF r(2)] register_bounds)
  from emits_all_Cons [OF emits_store_arguments [OF assms] emits_all_Cons [OF this emits_all_Nil]]
  show ?thesis by (simp add: sgenerate_storage_expressions_def)
qed

lemma emits_symbols:
  assumes b: "bound w0 n b" "stored w0 P b" and t: "aug_expression (augs w0 b) = Some t" "objs t = Some e"
  shows "emits w0 P 11 {} (sgenerate_symbols objs alloc n)"
proof -
  have u: "b \<in> used (region_state w0)" using b(2) by (simp add: stored_def)
  show ?thesis unfolding sgenerate_symbols_def
  proof (rule emits_read_binding [OF b(1)], rule emits_reading [where b = e], rule emits_reading [where b = "is_parameter w0 b e"])
    show "emits w0 P 11 {} (if is_parameter w0 b e then load_reg alloc b 0 RAX R11 else address_reg alloc b RAX)"
      by (cases "is_parameter w0 b e")
        (simp_all add: emits_load_reg [OF b(2) register_bounds(1,12)] emits_weaken [OF emits_address_reg [OF b(2) register_bounds(1)]])
  qed (use u t in \<open>simp_all add: is_parameter_def target_of_def grows_def\<close>)
qed

text \<open>The storage of a construct that a node holds: its temporary buffer, its code.\<close>

lemma emits_store_continuation:
  assumes a: "a \<in> used (region_state w0)" "cont_instr_bndg (nodes w0 a) = Some ci" "stored w0 P ci"
    and r: "bound w0 r b" "stored w0 P b"
  shows "emits w0 P 87 {} (make_store_continuation alloc a r)"
proof -
  show ?thesis unfolding make_store_continuation_def
    by (rule emits_read_binding [OF r(1)], rule emits_weaken,
        (rule emits_all_Cons emits_all_Nil emits_store_reg [OF r(2)] emits_read_code [OF a(1,2)] emits_address_reg [OF a(3)] register_bounds)+)
      simp_all
qed

lemma emits_if:
  assumes "\<And>w. grows w0 w \<Longrightarrow> C w = C w0" "C w0 \<Longrightarrow> emits w0 P N L h" "\<not> C w0 \<Longrightarrow> emits w0 P N L h'"
  shows "emits w0 P N L (\<lambda>(c, w). if C w then h (c, w) else h' (c, w))"
proof (cases "C w0")
  case True
  show ?thesis by (rule emits_cong [OF assms(2) [OF True]]) (simp add: assms(1) True)
next
  case False
  show ?thesis by (rule emits_cong [OF assms(3) [OF False]]) (simp add: assms(1) False)
qed

lemma emits_continuations:
  assumes a: "a \<in> used (region_state w0)" "cont_instr_bndg (nodes w0 a) = Some ci" "stored w0 P ci"
    and r: "escapes (nodes w0 a) \<Longrightarrow> bound w0 r b \<and> stored w0 P b" and ex: "emits w0 P N L ex"
  shows "emits w0 P (N + 110) (insert ci L) (sgenerate_continuations alloc a r ex)"
proof -
  have address: "emits w0 P (10 + (87 + 0)) ({} \<union> ({} \<union> {})) (do_all [reading (\<lambda>w. binding_of w r) (\<lambda>b. address_reg alloc b RAX), make_store_continuation alloc a r])"
    if "escapes (nodes w0 a)"
    using r [OF that]
    by (intro emits_all_Cons emits_all_Nil emits_store_continuation [OF a] emits_read_binding emits_address_reg register_bounds) auto
  have store: "emits w0 P (10 + (87 + 0)) ({} \<union> ({} \<union> {})) (\<lambda>(c, w). if escapes (nodes w a) then do_all
       [reading (\<lambda>w. binding_of w r) (\<lambda>b. address_reg alloc b RAX), make_store_continuation alloc a r] (c, w) else Ret (c, w))"
    by (rule emits_if [OF _ address emits_weaken [OF emits_Ret]]) (use a(1) in \<open>simp_all add: grows_def\<close>)
  have lab: "emits w1 Q 2 {ci} (reading (\<lambda>w. deref (cont_instr_bndg (nodes w a))) (\<lambda>ci. label alloc (use_binding alloc ci)))"
    if "grows w0 w1" for w1 Q
    by (rule emits_reading [OF emits_label]) (use grows_same [OF grows_trans [OF that] a(1)] a(2) in simp)
  have "emits w1 (\<lambda>x. P x \<or> x = e) (3 + (2 + (N + (2 + 0)))) (insert e (insert ci L)) (do_all
       [jump_rel alloc JMP_REL e,
        reading (\<lambda>w. deref (cont_instr_bndg (nodes w a))) (\<lambda>ci. label alloc (use_binding alloc ci)),
        ex,
        label alloc (use_binding alloc e)])" if "grows w0 w1" for w1 e
    by (rule emits_weaken, (rule emits_all_Cons emits_all_Nil emits_jump_rel emits_label lab [OF that] emits_mono [OF emits_later [OF ex that]]
       | (simp add: register_bounds; fail) | (auto; fail))+)
  from emits_all_Cons [OF store emits_all_Cons [OF emits_new_label [OF this] emits_all_Nil]]
  show ?thesis unfolding sgenerate_continuations_def by - (rule emits_weaken, assumption, simp_all)
qed

end

section \<open>The region allocator is an object source\<close>

definition region_left :: "'k mmap_call \<Rightarrow> addr \<Rightarrow> nat \<Rightarrow> 'k gstate \<Rightarrow> bool" where
  "region_left mmap reg k s \<longleftrightarrow> ginv reg s \<and>
     (\<forall>ns. length ns = k \<and> set ns \<subseteq> object_sizes \<longrightarrow> all_served (galloc mmap reg) (gcan mmap reg) ns s)"

definition region_used :: "'k gstate \<Rightarrow> addr set" where
  "region_used s = {a. \<exists>n > 0. (unat a, n) \<in> set (fst (snd s))}"

lemma object_sizes_pos: "n \<in> object_sizes \<Longrightarrow> 0 < unat n"
  by (auto simp: object_sizes_def EXPRESSION_SIZE_def CELL_SIZE_def BINDING_AUG_SIZE_def)

lemma all_served_butlast: "all_served alloc can (ns @ ms) s \<Longrightarrow> all_served alloc can ns s"
  by (induction ns arbitrary: s) auto

interpretation os: object_source "galloc mmap reg" "region_left mmap reg" region_used
  for mmap :: "'k mmap_call" and reg :: addr
proof
  fix k n and s :: "'k gstate"
  have served: "all_served (galloc mmap reg) (gcan mmap reg) ns s"
    if "region_left mmap reg (Suc k) s" "length ns = Suc k" "set ns \<subseteq> object_sizes" for ns
    using that by (simp add: region_left_def)
  have size: "CELL_SIZE \<in> object_sizes" by (simp add: object_sizes_def)
  show "region_left mmap reg k s" if l: "region_left mmap reg (Suc k) s"
    unfolding region_left_def
  proof (intro conjI allI impI)
    show "ginv reg s" using l by (simp add: region_left_def)
    fix ns :: "u64 list"
    assume "length ns = k \<and> set ns \<subseteq> object_sizes"
    then show "all_served (galloc mmap reg) (gcan mmap reg) ns s"
      using served [OF l, of "ns @ [CELL_SIZE]"] size all_served_butlast by auto
  qed
  have can: "gcan mmap reg n s" if "region_left mmap reg (Suc k) s" "n \<in> object_sizes"
    using served [OF that(1), of "n # replicate k CELL_SIZE"] that(2) size by (auto simp: set_replicate_conv_if)
  show "region_left mmap reg k (snd (galloc mmap reg n s))" if l: "region_left mmap reg (Suc k) s" "n \<in> object_sizes"
    unfolding region_left_def
  proof (intro conjI allI impI)
    show "ginv reg (snd (galloc mmap reg n s))" using l can by (auto simp: region_left_def intro: rg.alloc_inv)
    fix ns :: "u64 list"
    assume "length ns = k \<and> set ns \<subseteq> object_sizes"
    then show "all_served (galloc mmap reg) (gcan mmap reg) ns (snd (galloc mmap reg n s))"
      using served [OF l(1), of "n # ns"] l(2) by auto
  qed
  have blocks: "(case s of (cs, bs, st) \<Rightarrow> bs) = fst (snd s)" by (cases s) simp
  show "fst (galloc mmap reg n s) \<notin> region_used s" if l: "region_left mmap reg (Suc k) s" "n \<in> object_sizes"
    using rg.fresh_addr [of reg s mmap n] l can object_sizes_pos [OF l(2)]
    by (auto simp: region_used_def region_left_def blocks)
  have "fst (snd (snd (galloc mmap reg n s))) = (unat (fst (galloc mmap reg n s)), padded (unat n) 8) # fst (snd s)"
    by (cases s) (simp add: galloc_def split: prod.splits)
  moreover have "0 < padded (unat n) 8" if "n \<in> object_sizes"
    using object_sizes_pos [OF that] padded_ge [of 8 "unat n"] by simp
  ultimately show "region_used (snd (galloc mmap reg n s)) = insert (fst (galloc mmap reg n s)) (region_used s)"
    if "n \<in> object_sizes" using that by (auto simp: region_used_def word_unat_eq_iff)
qed

context object_source
begin

section \<open>Withs, jumps, functions and invocations\<close>

lemma emits_withs:
  assumes a: "a \<in> used (region_state w0)" "cont_instr_bndg (nodes w0 a) = Some ci" "stored w0 P ci"
    and r: "escapes (nodes w0 a) \<Longrightarrow> bound w0 r b \<and> stored w0 P b" and ex: "emits w0 P N L ex"
    and p: "bound w0 p pb" "stored w0 P pb"
  shows "emits w0 P (N + 110) (insert ci L) (sgenerate_withs alloc a r ex (p # ps))"
proof -
  have store: "emits w0 P 87 {} (\<lambda>(c, w). if escapes (nodes w a) then make_store_continuation alloc a r (c, w) else Ret (c, w))"
    by (rule emits_if [OF _ emits_store_continuation [OF a conjunct1 [OF r] conjunct2 [OF r]] emits_weaken [OF emits_Ret]]) (use a(1) in \<open>simp_all add: grows_def\<close>)
  have later: "a \<in> used (region_state w1)" "cont_instr_bndg (nodes w1 a) = Some ci" "stored w1 Q pb" "bound w1 p pb"
    if "grows w0 w1" "\<And>x. P x \<Longrightarrow> Q x" for w1 Q
    using that a(1,2) grows_used [OF that(1)] grows_same [OF that(1)] stored_mono [OF stored_grows [OF p(2) that(1)] that(2)]
      bound_grows [OF p(1) that(1)] by auto
  have "emits w1 (\<lambda>x. P x \<or> x = e) (3 + (2 + (11 + (2 + 0)))) (insert e {ci}) (do_all
       [jump_rel alloc JMP_REL e,
        reading (\<lambda>w. deref (cont_instr_bndg (nodes w a))) (\<lambda>ci. label alloc (use_binding alloc ci)),
        reading (\<lambda>w. case p # ps of [] \<Rightarrow> Undef | p # _ \<Rightarrow> binding_of w p) (\<lambda>b. load_reg alloc b 0 RAX R10),
        label alloc (use_binding alloc e)])" if g: "grows w0 w1" for w1 e
  proof -
    note l = later [OF g, of "\<lambda>x. P x \<or> x = e", OF disjI1]
    show ?thesis unfolding list.case
      by (rule emits_weaken, (rule emits_all_Cons emits_all_Nil emits_jump_rel emits_label emits_read_code [OF l(1,2)]
         emits_read_binding [OF l(4)] emits_load_reg [OF l(3)] register_bounds
         | assumption | (simp; fail) | (auto; fail))+)
  qed
  from emits_all_Cons [OF store emits_all_Cons [OF ex emits_all_Cons [OF emits_new_label [OF this] emits_all_Nil]]]
  show ?thesis unfolding sgenerate_withs_def by - (rule emits_weaken, assumption, simp_all)
qed

lemma emits_args_to_buffer:
  assumes "\<And>x. x \<in> set xs \<Longrightarrow> emits w0 P (N x) (L x) (f x)"
    and a: "a \<in> used (region_state w0)" "temp_storage_bndg (nodes w0 a) = Some t" "stored w0 P t"
  shows "emits w0 P (sum_list (map N xs) + 11 * length xs) (\<Union>x \<in> set xs. L x) (generate_args_to_buffer alloc a (map f xs) off)"
  using assms(1)
proof (induction xs arbitrary: off)
  case (Cons x xs)
  have "emits w0 P 11 {} (reading (temp_bndg a) (\<lambda>b. store_reg alloc RAX b v R10))" for v
    by (intro emits_read_temp [OF a(1,2)] emits_store_reg [OF a(3)] register_bounds)
  from emits_all_Cons [OF Cons.prems [of x] emits_all_Cons [OF this emits_all_Cons [OF Cons.IH emits_all_Nil]]] Cons.prems
  show ?case by (simp add: algebra_simps)
qed (simp add: emits_Ret)

lemma emits_buffer_to_dest:
  assumes a: "a \<in> used (region_state w0)" "temp_storage_bndg (nodes w0 a) = Some t" "stored w0 P t"
    and d: "operand_ok P w0 Register d" "held w0 d"
  shows "emits w0 P (15 * k) {} (generate_buffer_to_dest alloc a k d tmp off)"
proof (induction k arbitrary: tmp off)
  case (Suc k)
  show ?case unfolding generate_buffer_to_dest.simps
    by (rule emits_weaken, (rule emits_all_Cons emits_all_Nil emits_read_temp [OF a(1,2)] emits_load_reg [OF a(3)] register_bounds
        emits_store_mem [OF d] Suc.IH)+) simp_all
qed (simp add: emits_Ret)

lemma emits_to_dest:
  assumes a: "a \<in> used (region_state w0)" "temp_storage_bndg (nodes w0 a) = Some t" "stored w0 P t"
  shows "emits w0 P (1 + 15 * k) {} (making (make_asm0 alloc R11) (\<lambda>d. generate_buffer_to_dest alloc a k d tmp off))"
proof (rule emits_make [OF makes_asm0 [OF register_bounds(12)]])
  fix e w1
  assume g: "grows w0 w1" "operand_ok P w1 Register e" "held w1 e"
  show "emits w1 P (15 * k) {} (generate_buffer_to_dest alloc a k e tmp off)"
    by (rule emits_buffer_to_dest [OF grows_used [OF g(1) a(1)] _ stored_grows [OF a(3) g(1)] g(2,3)])
      (use grows_same [OF g(1) a(1)] a(2) in simp)
qed

lemma emits_relative:
  assumes a: "a \<in> used (region_state w0)" "temp_storage_bndg (nodes w0 a) = Some t" "stored w0 P t"
  shows "emits w0 P 4 {} (cond_push_relative_storage alloc a k)" "emits w0 P 4 {} (cond_pop_relative_storage alloc a k)"
proof -
  have t: "t \<in> used (region_state w0)" using a(3) by (simp add: stored_def)
  show "emits w0 P 4 {} (cond_push_relative_storage alloc a k)" unfolding cond_push_relative_storage_def
    by (rule emits_read_temp [OF a(1,2)], rule emits_if [OF _ emits_imm_reg [OF register_bounds(5)] emits_weaken [OF emits_Ret]])
      (use t in \<open>simp_all add: grows_def\<close>)
  show "emits w0 P 4 {} (cond_pop_relative_storage alloc a k)" unfolding cond_pop_relative_storage_def
    by (rule emits_read_temp [OF a(1,2)], rule emits_if [OF _ emits_imm_reg [OF register_bounds(5)] emits_weaken [OF emits_Ret]])
      (use t in \<open>simp_all add: grows_def\<close>)
qed

lemma emits_short_jump:
  assumes xs: "\<And>x. x \<in> set xs \<Longrightarrow> emits w0 P (N x) (L x) (f x)"
    and a: "a \<in> used (region_state w0)" "temp_storage_bndg (nodes w0 a) = Some t" "stored w0 P t"
    and ref: "type_of r = continuation_t \<Longrightarrow> emits w0 P M K ref" "type_of r \<noteq> continuation_t \<Longrightarrow> K = {}"
    and e: "objs target = Some e" "address e \<in> used (region_state w0)" "cont_instr_bndg (nodes w0 (address e)) = Some ci" "P ci"
    and p: "parameters e \<noteq> [] \<Longrightarrow> bound w0 (hd (parameters e)) pb \<and> stored w0 P pb"
    and as: "parameters e = [] \<Longrightarrow> (\<Union>x \<in> set xs. L x) = {}"
  shows "emits w0 P (M + sum_list (map N xs) + 26 * length xs + 40) (K \<union> (\<Union>x \<in> set xs. L x)) (short_jump objs alloc target a r ref (map f xs))"
proof -
  have 1: "emits w0 P M K (if type_of r = continuation_t then ref else Ret)"
    using ref emits_weaken [OF emits_Ret, of M] by auto
  have 2: "emits w0 P (4 + (sum_list (map N xs) + 11 * length xs + (10 + (1 + 15 * length xs + (4 + 0))))) (\<Union>x \<in> set xs. L x)
     (case parameters e of [] \<Rightarrow> Ret
        | p # _ \<Rightarrow> do_all
          [cond_push_relative_storage alloc a (length (map f xs)),
           generate_args_to_buffer alloc a (map f xs) 0,
           reading (\<lambda>w. binding_of w p) (\<lambda>b. address_reg alloc b R11),
           making (make_asm0 alloc R11) (\<lambda>d. generate_buffer_to_dest alloc a (length (map f xs)) d 0 0),
           cond_pop_relative_storage alloc a (length (map f xs))])"
  proof (cases "parameters e")
    case Nil
    show ?thesis unfolding Nil list.case by (rule emits_weaken [OF emits_Ret]) (use as Nil in auto)
  next
    case (Cons q qs)
    then have q: "bound w0 q pb" "stored w0 P pb" using p by auto
    show ?thesis unfolding Cons list.case length_map
      by (rule emits_weaken, (rule emits_all_Cons emits_all_Nil emits_relative [OF a] emits_args_to_buffer [OF xs a] emits_to_dest [OF a]
          emits_read_binding [OF q(1)] emits_address_reg [OF q(2)] register_bounds | assumption)+) simp_all
  qed
  have 3: "emits w0 P 3 {} (reading (\<lambda>w. deref (cont_instr_bndg (nodes w (address e)))) (jump_rel alloc JMP_REL))"
    by (rule emits_read_code [OF e(2,3)], rule emits_jump_rel [where P = P, OF e(4)]) simp
  show ?thesis unfolding short_jump_def
    by (rule emits_reading [where b = e], rule emits_weaken, (rule emits_all_Cons emits_all_Nil 1 2 3)+) (use e(1) in auto)
qed

lemma emits_long_jump:
  assumes xs: "\<And>x. x \<in> set xs \<Longrightarrow> emits w0 P (N x) (L x) (f x)"
    and a: "a \<in> used (region_state w0)" "temp_storage_bndg (nodes w0 a) = Some t" "stored w0 P t"
    and ref: "emits w0 P M K ref"
  shows "emits w0 P (M + sum_list (map N xs) + 26 * length xs + 60) (K \<union> (\<Union>x \<in> set xs. L x)) (long_jump alloc a ref (map f xs))"
  unfolding long_jump_def length_map
  by (rule emits_weaken, (rule emits_all_Cons emits_all_Nil emits_relative [OF a] emits_args_to_buffer [OF xs a] emits_to_dest [OF a]
      ref emits_move_reg emits_load_mem emits_jump_to_reg register_bounds | assumption)+) auto

lemma emits_functions:
  assumes r: "bound w0 r b" "stored w0 P b" "P b" and ex: "emits w0 P N L ex"
    and fas: "a \<in> used (region_state w0)" "function_augs (nodes w0 a) = Some bs" "set bs \<subseteq> used (region_state w0)"
  shows "emits w0 P (N + 60) (insert b L) (sgenerate_functions alloc a r ex)"
proof -
  obtain s n where s: "r = Symbol s n" using r(1) by (auto simp: bound_def split: expr.splits)
  obtain v where v: "(get_current_offset a w0 :: ('e, _) outcome) = Ret v"
    using fas(2) by (cases bs) (simp_all add: get_current_offset_def)
  have off: "get_current_offset a w = Ret v" if "grows w0 w" for w
  proof (cases bs)
    case Nil
    then show ?thesis using v fas that by (simp add: get_current_offset_def grows_def)
  next
    case (Cons x xs)
    then show ?thesis using v fas that by (simp add: get_current_offset_def grows_def)
  qed
  have lab: "emits w1 Q 2 {b} (label alloc (Pair r))" if g: "grows w0 w1" for w1 Q
    unfolding emits_def
  proof (intro allI impI, elim conjE)
    fix c w k
    assume w: "grows w1 w" "left (2 + k) (region_state w)"
    then have l: "left (Suc (Suc k)) (region_state w)" by simp
    obtain a2 w2 where 2: "make_asm0 alloc LABEL w = (Assembly a2 (scast (LABEL :: 32 word)) [], w2)"
        "grows w w2" "left (Suc k) (region_state w2)" by (rule asm_facts [OF l, where oc = LABEL])
    have lab: "scast (LABEL :: 32 word) = (LABEL :: u64)" by (simp add: opcode_defs)
    let ?n = "Assembly a2 LABEL [r]"
    have b: "bound w2 r b" using bound_grows [OF r(1)] grows_trans [OF g grows_trans [OF w(1) 2(2)]] by simp
    then have lb: "label_binding w2 ?n = Some b" by (simp add: label_binding_def bound_def s)
    have "instruction_ok (\<lambda>x. Q x \<or> x = b) w2 ?n"
      using b by (simp add: instruction_ok_def operand_kinds_def opcode_defs operand_ok.simps reference_ok_def bound_def s)
    then have "code_ok Q w2 [?n]" using lb b by (simp add: code_ok_def held_def bound_def s)
    then show "\<exists>ns w'. label alloc (Pair r) (c, w) = Ret (ns @ c, w') \<and> grows w w' \<and> left k (region_state w') \<and>
        code_ok Q w' ns \<and> {b} \<subseteq> set (label_bindings w' ns)"
      using 2 lb left_Suc [OF 2(3)]
      by (intro exI [of _ "[?n]"] exI [of _ w2])
        (simp add: label_def prepend_made_def making_def asm1_def make_asm1_def add_argument_def lab)
  qed
  have addr: "emits w0 P 10 {} (reading (\<lambda>w. binding_of w r) (\<lambda>b. address_reg alloc b RAX))"
    by (intro emits_read_binding [OF r(1)] emits_address_reg [OF r(2)] register_bounds)
  have res: "emits w1 Q 4 {} (reading (get_current_offset a) (\<lambda>off. imm_reg alloc SUBQ_IMM_TO_REG (scast (- off)) RSP))"
    if "grows w0 w1" for w1 Q
    by (rule emits_reading [where b = v, OF emits_imm_reg [OF register_bounds(5)]]) (use off grows_trans [OF that] in auto)
  have "emits w1 (\<lambda>x. P x \<or> x = e) (3 + (2 + (2 + (2 + (2 + (2 + (2 + (2 + (2 + (2 + (2 + (3 + (4 + (N + (1 + (2 + (4 + (2 + (1 + (2 + 0))))))))))))))))))))
      (insert e (insert b L)) (do_all
       [jump_rel alloc JMP_REL e,
        label alloc (Pair r),
        pop_reg alloc R11,
        push_reg alloc R9, push_reg alloc R8, push_reg alloc RCX,
        push_reg alloc RDX, push_reg alloc RSI, push_reg alloc RDI,
        push_reg alloc R11,
        push_reg alloc RBP,
        move_reg alloc RSP RBP,
        reading (get_current_offset a) (\<lambda>off. imm_reg alloc SUBQ_IMM_TO_REG (scast (- off)) RSP),
        ex,
        prepend_made (make_asm0 alloc LEAVE),
        pop_reg alloc R11,
        imm_reg alloc ADDQ_IMM_TO_REG (6 * WORD_SIZE) RSP,
        push_reg alloc R11,
        prepend_made (make_asm0 alloc RET),
        label alloc (use_binding alloc e)])" if "grows w0 w1" for w1 e
    by (rule emits_weaken, (rule emits_all_Cons emits_all_Nil emits_jump_rel emits_label lab [OF that] emits_pop_reg emits_push_reg
        emits_move_reg res [OF that] emits_mono [OF emits_later [OF ex that]] emits_leave emits_ret emits_imm_reg register_bounds
       | (simp; fail) | (auto; fail))+)
  from emits_all_Cons [OF addr emits_all_Cons [OF emits_new_label [OF this] emits_all_Nil]]
  show ?thesis unfolding sgenerate_functions_def by - (rule emits_weaken, assumption, simp_all)
qed

lemma emits_push_arguments:
  assumes a: "a \<in> used (region_state w0)" "temp_storage_bndg (nodes w0 a) = Some t" "stored w0 P t"
  shows "emits w0 P (13 * k) {} (push_arguments alloc a k)"
proof (induction k)
  case (Suc k)
  show ?case unfolding push_arguments.simps
    by (rule emits_weaken, (rule emits_all_Cons emits_all_Nil emits_read_temp [OF a(1,2)] emits_load_reg [OF a(3)] register_bounds
        emits_push_reg Suc.IH)+) simp_all
qed (simp add: emits_Ret)

lemma emits_when: "emits w0 P N {} h \<Longrightarrow> emits w0 P N {} (if c then h else Ret)"
  by (cases c) (simp_all add: emits_weaken [OF emits_Ret])

lemma emits_invokes:
  assumes xs: "\<And>x. x \<in> set xs \<Longrightarrow> emits w0 P (N x) (L x) (f x)"
    and a: "a \<in> used (region_state w0)" "temp_storage_bndg (nodes w0 a) = Some t" "stored w0 P t"
    and ref: "emits w0 P M K ref"
  shows "emits w0 P (M + sum_list (map N xs) + 24 * length xs + 40) (K \<union> (\<Union>x \<in> set xs. L x)) (sgenerate_invokes alloc a ref (map f xs))"
proof -
  have push: "emits w0 P (13 * length xs) {} (\<lambda>(c, w). if contains_flag (nodes w a) = CONTAINS_WITH
      then push_arguments alloc a (length xs) (c, w) else Ret (c, w))"
    by (rule emits_if [OF _ emits_push_arguments [OF a] emits_weaken [OF emits_Ret]]) (use a(1) in \<open>simp_all add: grows_def\<close>)
  show ?thesis unfolding sgenerate_invokes_def length_map
    by (rule emits_weaken, (rule emits_all_Cons emits_all_Nil emits_relative [OF a] emits_args_to_buffer [OF xs a] push ref
      emits_move_reg emits_when emits_pop_reg emits_imm_reg emits_call_reg register_bounds | assumption | (simp; fail) | (auto; fail))+)
qed

end

end
