(* ===== verification/Linked_Code.thy ===== *)
theory Linked_Code
  imports Generated_Code Scoping
begin

text \<open>
  Generated programs as input of the assembler: expressions that the passes have prepared are generated
  without an undefined step, and what is generated meets the conditions of the theories of the assembler
  and the object writer.
\<close>

section \<open>Expressions that can be generated\<close>

text \<open>
  What the passes before leave for the generator, where \<open>U\<close> are the addresses of objects: symbols have
  bindings, and absolute ones are of a kind \<open>P\<close>; constructs have the places that the code needs.
\<close>

definition symbol_ok :: "addr set \<Rightarrow> (addr \<Rightarrow> bool) \<Rightarrow> 's world \<Rightarrow> expr \<Rightarrow> bool" where
  "symbol_ok U P w r = (case r of
      Symbol a n \<Rightarrow> a \<in> U \<and> (case symbol_aug (nodes w a) of None \<Rightarrow> False
        | Some b \<Rightarrow> b \<in> U \<and> (aug_type (augs w b) = absolute_storage \<longrightarrow> P b))
    | _ \<Rightarrow> False)"

definition buffer_ok :: "addr set \<Rightarrow> (addr \<Rightarrow> bool) \<Rightarrow> 's world \<Rightarrow> addr \<Rightarrow> bool" where
  "buffer_ok U P w a = (a \<in> U \<and> (case temp_storage_bndg (nodes w a) of None \<Rightarrow> False
     | Some t \<Rightarrow> t \<in> U \<and> (aug_type (augs w t) = absolute_storage \<longrightarrow> P t)))"

definition place_ok :: "addr set \<Rightarrow> (addr \<Rightarrow> bool) \<Rightarrow> 's world \<Rightarrow> addr \<Rightarrow> bool" where
  "place_ok U P w a = (a \<in> U \<and> (case cont_instr_bndg (nodes w a) of None \<Rightarrow> False | Some ci \<Rightarrow> ci \<in> U \<and> P ci))"

definition target_ok :: "objects \<Rightarrow> addr set \<Rightarrow> (addr \<Rightarrow> bool) \<Rightarrow> 's world \<Rightarrow> addr \<Rightarrow> expr \<Rightarrow> expr list \<Rightarrow> bool" where
  "target_ok objs U P w target r as = (case objs target of None \<Rightarrow> False | Some e \<Rightarrow>
     place_ok U P w (address e) \<and> (type_of r = symbol_t \<or> type_of r = continuation_t) \<and>
     (case parameters e of [] \<Rightarrow> as = [] | p # _ \<Rightarrow> symbol_ok U P w p))"

fun gen_ok :: "objects \<Rightarrow> addr set \<Rightarrow> (addr \<Rightarrow> bool) \<Rightarrow> 's world \<Rightarrow> expr \<Rightarrow> bool" where
  "gen_ok objs U P w (Continuation a r b ps) \<longleftrightarrow>
     place_ok U P w a \<and> (escapes (nodes w a) \<longrightarrow> symbol_ok U P w r) \<and> gen_ok objs U P w b"
| "gen_ok objs U P w (With a r b ps) \<longleftrightarrow>
     place_ok U P w a \<and> (escapes (nodes w a) \<longrightarrow> symbol_ok U P w r) \<and> gen_ok objs U P w b \<and>
     ps \<noteq> [] \<and> symbol_ok U P w (hd ps)"
| "gen_ok objs U P w (Jump a r as) \<longleftrightarrow>
     buffer_ok U P w a \<and> list_all (gen_ok objs U P w) as \<and>
     (case short_circuit (nodes w a) of None \<Rightarrow> gen_ok objs U P w r
      | Some target \<Rightarrow> target_ok objs U P w target r as \<and> (type_of r = continuation_t \<longrightarrow> gen_ok objs U P w r))"
| "gen_ok objs U P w (Invoke a r as) \<longleftrightarrow> buffer_ok U P w a \<and> list_all (gen_ok objs U P w) as \<and> gen_ok objs U P w r"
| "gen_ok objs U P w (Symbol a n) \<longleftrightarrow> symbol_ok U P w (Symbol a n) \<and>
     (case aug_expression (augs w (the (symbol_aug (nodes w a)))) of None \<Rightarrow> False | Some t \<Rightarrow> objs t \<noteq> None)"
| "gen_ok objs U P w (Storage a r as) \<longleftrightarrow> symbol_ok U P w r \<and> list_all (gen_ok objs U P w) as"
| "gen_ok objs U P w (If a c t e) \<longleftrightarrow> gen_ok objs U P w c \<and> gen_ok objs U P w t \<and> gen_ok objs U P w e"
| "gen_ok objs U P w (Function a r b ps) \<longleftrightarrow> symbol_ok U P w r \<and> P (declared w r) \<and> a \<in> U \<and>
     (case function_augs (nodes w a) of None \<Rightarrow> False | Some bs \<Rightarrow> set bs \<subseteq> U) \<and> gen_ok objs U P w b"
| "gen_ok objs U P w (Constrain a r b) \<longleftrightarrow> gen_ok objs U P w b"
| "gen_ok objs U P w e \<longleftrightarrow> True"

text \<open>The bindings of functions and continuations, whose labels the code places.\<close>

fun placed :: "'s world \<Rightarrow> expr \<Rightarrow> addr set" where
  "placed w (Continuation a r b ps) = insert (the (cont_instr_bndg (nodes w a))) (placed w b)"
| "placed w (With a r b ps) = insert (the (cont_instr_bndg (nodes w a))) (placed w b)"
| "placed w (Jump a r as) = placed w r \<union> (\<Union>x \<in> set as. placed w x)"
| "placed w (Invoke a r as) = placed w r \<union> (\<Union>x \<in> set as. placed w x)"
| "placed w (Storage a r as) = (\<Union>x \<in> set as. placed w x)"
| "placed w (If a c t e) = placed w c \<union> placed w t \<union> placed w e"
| "placed w (Function a r b ps) = insert (declared w r) (placed w b)"
| "placed w (Constrain a r b) = placed w b"
| "placed w e = {}"

text \<open>A bound for the number of objects that the code of an expression takes.\<close>

fun budget :: "expr \<Rightarrow> nat" where
  "budget (Continuation a r b ps) = budget b + 110"
| "budget (With a r b ps) = budget b + 110"
| "budget (Jump a r as) = budget r + sum_list (map budget as) + 26 * length as + 60"
| "budget (Invoke a r as) = budget r + sum_list (map budget as) + 24 * length as + 40"
| "budget (Storage a r as) = sum_list (map budget as) + 11 * length as + 10"
| "budget (If a c t e) = budget c + budget t + budget e + 20"
| "budget (Function a r b ps) = budget b + 60"
| "budget (Constrain a r b) = budget b"
| "budget (Symbol a n) = 11"
| "budget (Literal a n) = 4"
| "budget e = 0"

lemma symbol_not_placed: "type_of r = symbol_t \<Longrightarrow> placed w r = {}"
  by (cases r) simp_all

context object_source
begin

lemma symbol_okE:
  assumes "symbol_ok (used (region_state w)) P w r"
  obtains b where "bound w r b" "stored w P b" "declared w r = b"
  using assms by (auto simp: symbol_ok_def bound_def stored_def declared_def split: expr.splits option.splits)

lemma buffer_okE:
  assumes "buffer_ok (used (region_state w)) P w a"
  obtains t where "a \<in> used (region_state w)" "temp_storage_bndg (nodes w a) = Some t" "stored w P t"
  using assms by (auto simp: buffer_ok_def stored_def split: option.splits)

lemma place_okE:
  assumes "place_ok (used (region_state w)) P w a"
  obtains ci where "a \<in> used (region_state w)" "cont_instr_bndg (nodes w a) = Some ci" "stored w P ci" "P ci"
  using assms by (auto simp: place_ok_def stored_def split: option.splits)

lemma emits_short:
  assumes xs: "\<And>x. x \<in> set as \<Longrightarrow> emits w0 P (budget x) (placed w0 x) (f x)"
    and a: "buffer_ok (used (region_state w0)) P w0 a"
    and ref: "type_of r = continuation_t \<Longrightarrow> emits w0 P (budget r) (placed w0 r) ref"
    and t: "target_ok objs (used (region_state w0)) P w0 target r as"
  shows "emits w0 P (budget (Jump a r as)) (placed w0 (Jump a r as)) (short_jump objs alloc target a r ref (map f as))"
proof -
  obtain e where e: "objs target = Some e" "place_ok (used (region_state w0)) P w0 (address e)"
      "type_of r = symbol_t \<or> type_of r = continuation_t"
      "case parameters e of [] \<Rightarrow> as = [] | p # _ \<Rightarrow> symbol_ok (used (region_state w0)) P w0 p"
    using t by (auto simp: target_ok_def split: option.splits)
  obtain tb where tb: "a \<in> used (region_state w0)" "temp_storage_bndg (nodes w0 a) = Some tb" "stored w0 P tb"
    using a by (rule buffer_okE)
  obtain ci where ci: "address e \<in> used (region_state w0)" "cont_instr_bndg (nodes w0 (address e)) = Some ci" "P ci"
    using e(2) by (rule place_okE)
  obtain pb where pb: "parameters e \<noteq> [] \<Longrightarrow> bound w0 (hd (parameters e)) pb \<and> stored w0 P pb"
  proof (cases "parameters e")
    case (Cons p ps)
    then obtain b where "bound w0 p b" "stored w0 P b" using e(4) symbol_okE by (metis list.simps(5))
    then show thesis using that [of b] Cons by simp
  qed (auto intro: that)
  show ?thesis
  proof (rule emits_weaken, rule emits_short_jump [where N = budget and L = "placed w0" and M = "budget r" and K = "placed w0 r"
        and t = tb and e = e and ci = ci and pb = pb])
    show "type_of r \<noteq> continuation_t \<Longrightarrow> placed w0 r = {}" using e(3) symbol_not_placed by auto
    show "parameters e = [] \<Longrightarrow> (\<Union>x \<in> set as. placed w0 x) = {}" using e(4) by simp
  qed (simp_all add: xs tb ref e(1) ci pb)
qed

lemma gen_as_steps:
  "generate_expressions objs alloc (Continuation a r b ps) = sgenerate_continuations alloc a r (generate_expressions objs alloc b)"
  "generate_expressions objs alloc (With a r b ps) = sgenerate_withs alloc a r (generate_expressions objs alloc b) ps"
  "generate_expressions objs alloc (Jump a r as) =
     sgenerate_jumps objs alloc a r (generate_expressions objs alloc r) (map (generate_expressions objs alloc) as)"
  "generate_expressions objs alloc (Symbol a n) = sgenerate_symbols objs alloc (Symbol a n)"
  "generate_expressions objs alloc (Storage a r as) =
     sgenerate_storage_expressions alloc r (map (generate_expressions objs alloc) as)"
  "generate_expressions objs alloc (If a c t f) =
     sgenerate_ifs alloc (generate_expressions objs alloc c) (generate_expressions objs alloc t) (generate_expressions objs alloc f)"
  "generate_expressions objs alloc (Literal a v) = sgenerate_literals alloc v"
  "generate_expressions objs alloc (Function a r b ps) = sgenerate_functions alloc a r (generate_expressions objs alloc b)"
  "generate_expressions objs alloc (Invoke a r as) =
     sgenerate_invokes alloc a (generate_expressions objs alloc r) (map (generate_expressions objs alloc) as)"
  "generate_expressions objs alloc (Constrain a r b) = generate_expressions objs alloc b"
  "generate_expressions objs alloc (Assembly a oc as) = Ret"
  "generate_expressions objs alloc (Meta a r) = Ret"
  by (rule ext, simp add: sgenerate_constrains_def)+

lemma gen_emits:
  "gen_ok objs (used (region_state w0)) P w0 e \<Longrightarrow> emits w0 P (budget e) (placed w0 e) (generate_expressions objs alloc e)"
proof (induction e)
  case (Continuation a r b ps)
  obtain ci where ci: "a \<in> used (region_state w0)" "cont_instr_bndg (nodes w0 a) = Some ci" "stored w0 P ci" "P ci"
    using Continuation.prems by (auto elim: place_okE)
  obtain rb where rb: "escapes (nodes w0 a) \<Longrightarrow> bound w0 r rb \<and> stored w0 P rb"
    using Continuation.prems by (cases "escapes (nodes w0 a)") (auto elim: symbol_okE)
  show ?case unfolding gen_as_steps budget.simps placed.simps ci(2) option.sel
    by (rule emits_continuations [OF ci(1-3) rb Continuation.IH(2)]) (use Continuation.prems in auto)
next
  case (With a r b ps)
  obtain ci where ci: "a \<in> used (region_state w0)" "cont_instr_bndg (nodes w0 a) = Some ci" "stored w0 P ci" "P ci"
    using With.prems by (auto elim: place_okE)
  obtain rb where rb: "escapes (nodes w0 a) \<Longrightarrow> bound w0 r rb \<and> stored w0 P rb"
    using With.prems by (cases "escapes (nodes w0 a)") (auto elim: symbol_okE)
  obtain p qs where ps: "ps = p # qs" using With.prems by (cases ps) auto
  obtain pb where pb: "bound w0 p pb" "stored w0 P pb" using With.prems ps by (auto elim: symbol_okE)
  show ?case unfolding gen_as_steps budget.simps placed.simps ci(2) option.sel ps
    by (rule emits_withs [OF ci(1-3) rb With.IH(2) pb]) (use With.prems in auto)
next
  case (Function a r b ps)
  obtain fb where fb: "bound w0 r fb" "stored w0 P fb" "declared w0 r = fb" using Function.prems by (auto elim: symbol_okE)
  obtain bs where bs: "function_augs (nodes w0 a) = Some bs" "set bs \<subseteq> used (region_state w0)"
    using Function.prems by (auto split: option.splits)
  show ?case unfolding gen_as_steps budget.simps placed.simps fb(3)
    by (rule emits_functions [OF fb(1,2) _ Function.IH(2) _ bs]) (use Function.prems fb(3) in auto)
next
  case (Symbol a n)
  obtain b where b: "bound w0 (Symbol a n) b" "stored w0 P b" using Symbol.prems by (auto elim: symbol_okE)
  then have "symbol_aug (nodes w0 a) = Some b" by (simp add: bound_def)
  then obtain t e where "aug_expression (augs w0 b) = Some t" "objs t = Some e"
    using Symbol.prems by (auto split: option.splits)
  from emits_symbols [where objs = objs, OF b this] show ?case by (simp add: gen_as_steps)
next
  case (Storage a r as)
  obtain rb where rb: "bound w0 r rb" "stored w0 P rb" using Storage.prems by (auto elim: symbol_okE)
  show ?case unfolding gen_as_steps budget.simps placed.simps
    by (rule emits_storage [where N = budget and L = "placed w0", OF _ rb]) (use Storage in \<open>auto simp: list_all_iff\<close>)
next
  case (If a c t e)
  show ?case unfolding gen_as_steps budget.simps placed.simps
    by (rule emits_ifs [OF If.IH]) (use If.prems in auto)
next
  case (Invoke a r as)
  obtain tb where tb: "a \<in> used (region_state w0)" "temp_storage_bndg (nodes w0 a) = Some tb" "stored w0 P tb"
    using Invoke.prems by (auto elim: buffer_okE)
  show ?case unfolding gen_as_steps budget.simps placed.simps
    by (rule emits_invokes [where N = budget and L = "placed w0", OF _ tb Invoke.IH(1)]) (use Invoke in \<open>auto simp: list_all_iff\<close>)
next
  case (Constrain a r b)
  then show ?case by (simp add: gen_as_steps)
next
  case (Literal a v)
  show ?case unfolding gen_as_steps budget.simps placed.simps sgenerate_literals_def
    by (rule emits_imm_reg [OF register_bounds(1)]) simp
next
  case (Jump a r as)
  have a: "a \<in> used (region_state w0)" using Jump.prems by (auto simp: buffer_ok_def)
  show ?case
  proof (cases "short_circuit (nodes w0 a)")
    case None
    obtain tb where tb: "a \<in> used (region_state w0)" "temp_storage_bndg (nodes w0 a) = Some tb" "stored w0 P tb"
      using Jump.prems by (auto elim: buffer_okE)
    show ?thesis unfolding gen_as_steps sgenerate_jumps_def
    proof (rule emits_reading [where b = None], unfold option.case budget.simps placed.simps,
        rule emits_long_jump [where N = budget and L = "placed w0", OF _ tb Jump.IH(1)])
      show "gen_ok objs (used (region_state w0)) P w0 r" using Jump.prems None by simp
    qed (use Jump a None in \<open>auto simp: list_all_iff grows_def\<close>)
  next
    case (Some target)
    show ?thesis unfolding gen_as_steps sgenerate_jumps_def
    proof (rule emits_reading [where b = "Some target"], unfold option.case, rule emits_short [OF _ _ Jump.IH(1)])
      show "target_ok objs (used (region_state w0)) P w0 target r as" using Jump.prems Some by simp
    qed (use Jump a Some in \<open>auto simp: list_all_iff grows_def\<close>)
  qed
qed (simp_all add: gen_as_steps emits_Ret)

lemma emits_each:
  assumes "\<And>x. x \<in> set xs \<Longrightarrow> emits w0 P (N x) (L x) (f x)"
  shows "emits w0 P (sum_list (map N xs)) (\<Union>x \<in> set xs. L x) (for_each f xs)"
  using assms
proof (induction xs)
  case Nil
  have "for_each f [] = Ret" by (rule ext) simp
  then show ?case by (simp add: emits_Ret)
next
  case (Cons x xs)
  have "for_each f (x # xs) = (\<lambda>g. bindO (f x g) (for_each f xs))" by (rule ext) simp
  then show ?case using emits_bind [OF Cons.prems [of x] Cons.IH] Cons.prems by simp
qed

lemma label_bindings_rev: "set (label_bindings w (rev ns)) = set (label_bindings w ns)"
  by (auto simp: label_bindings_def)

lemma generate_program_emits:
  assumes "list_all (gen_ok objs (used (region_state w)) P w) exprs" "left (sum_list (map budget exprs)) (region_state w)"
  shows "\<exists>ns w'. (generate_program objs alloc exprs w :: ('e, 's code) outcome) = Ret (ns, w') \<and> grows w w' \<and>
    list_all (instruction_ok (\<lambda>b. P b \<or> b \<in> set (label_bindings w' ns)) w') ns \<and>
    (\<Union>e \<in> set exprs. placed w e) \<subseteq> set (label_bindings w' ns)"
proof -
  have e: "emits w P (sum_list (map budget exprs)) (\<Union>e \<in> set exprs. placed w e)
      (for_each (generate_expressions objs alloc) exprs :: ('e, 's) generator)"
    by (rule emits_each) (rule gen_emits, insert assms(1), simp add: list_all_iff)
  have l: "left (sum_list (map budget exprs) + 0) (region_state w)" using assms(2) by simp
  from emitsD [OF e grows_refl l, of "[]"] obtain ns w' where
    1: "(for_each (generate_expressions objs alloc) exprs ([], w) :: ('e, 's code) outcome) = Ret (ns @ [], w')" "grows w w'"
       "code_ok P w' ns" "(\<Union>e \<in> set exprs. placed w e) \<subseteq> set (label_bindings w' ns)" .
  then show ?thesis
    by (intro exI [of _ "rev ns"] exI [of _ w']) (auto simp: generate_program_def code_ok_def list_all_iff label_bindings_rev)
qed

end

section \<open>Regions with room\<close>

text \<open>A region whose current chunk has the room serves the requests.\<close>

definition chunk_room :: "addr \<Rightarrow> nat \<Rightarrow> 'k gstate \<Rightarrow> bool" where
  "chunk_room reg k s = (case s of (cs, bs, st) \<Rightarrow>
     (let h = headers st (cur_chunk (headers st reg)) in unat (free_ptr h) + 88 * k \<le> unat (chunk_end h)))"

lemma object_sizes_padded: "n \<in> object_sizes \<Longrightarrow> pad_size n ALIGNMENT = n \<and> unat n \<le> 88"
  by (auto simp: object_sizes_def EXPRESSION_SIZE_def CELL_SIZE_def BINDING_AUG_SIZE_def pad_size_def ALIGNMENT_def Let_def)

lemma chunk_room_step:
  assumes r: "chunk_room reg (Suc k) s" and n: "n \<in> object_sizes"
  shows "gcan mmap reg n s \<and> chunk_room reg k (snd (galloc mmap reg n s))"
proof -
  obtain cs bs st where s: "s = (cs, bs, st)" by (cases s)
  let ?h = "headers st (cur_chunk (headers st reg))"
  note p = object_sizes_padded [OF n]
  have fits: "unat (free_ptr ?h) + 88 + 88 * k \<le> unat (chunk_end ?h)"
    using r by (simp add: chunk_room_def s Let_def)
  have "unat (free_ptr ?h) + unat n \<le> unat (chunk_end ?h)" using fits p by linarith
  also have "\<dots> < 2 ^ LENGTH(64)" by (rule unsigned_less)
  finally have u: "unat (free_ptr ?h + n) = unat (free_ptr ?h) + unat n" by (rule unat_add_small)
  have stay: "\<not> must_grow reg n st"
    using u fits p by (simp add: must_grow_def Let_def word_less_nat_alt)
  show ?thesis
    using p u fits by (auto simp: s gcan_def can_alloc_def stay galloc_def region_alloc_alt chunk_room_def Let_def upd_header_def)
qed

lemma chunk_room_served:
  "chunk_room reg (length ns) s \<Longrightarrow> set ns \<subseteq> object_sizes \<Longrightarrow> all_served (galloc mmap reg) (gcan mmap reg) ns s"
proof (induction ns arbitrary: s)
  case (Cons n ns)
  then show ?case using chunk_room_step [of reg "length ns" s n mmap] by simp
qed simp

lemma chunk_room_left: "ginv reg s \<Longrightarrow> chunk_room reg k s \<Longrightarrow> region_left mmap reg k s"
  by (auto simp: region_left_def chunk_room_served)

text \<open>A function of the name \<open>f\<close> with a conditional for its body, in objects from a region.\<close>

definition fun_region :: "u64 gstate" where
  "fun_region = snd (alloc_all (galloc bump_mmap 0x10000) [EXPRESSION_SIZE, EXPRESSION_SIZE, BINDING_AUG_SIZE]
     ([0x10000], [], snd (create_region bump_mmap 0x10000 boot_state)))"

definition fun_program :: "expr list" where
  "fun_program = [Function 0x10028 (Symbol 0x10080 (Some ''f'')) (If 1 (Literal 2 1) (Literal 3 5) (Literal 4 6)) []]"

definition fun_world :: "u64 gstate world" where
  "fun_world = \<lparr>nodes = (\<lambda>_. zero_node)(0x10080 := zero_node\<lparr>symbol_aug := Some 0x100D8\<rparr>,
       0x10028 := zero_node\<lparr>function_augs := Some []\<rparr>),
     augs = \<lambda>_. \<lparr>aug_name = Some ''f'', offset = 0, aug_size = 0, aug_type = absolute_storage, scope = global_scope,
       state = defined_state, aug_symbol = None, aug_expression = None\<rparr>,
     sigs = Var, region_state = fun_region\<rparr>"

lemma fun_region_left: "region_left bump_mmap 0x10000 92 fun_region"
proof (rule chunk_room_left)
  let ?s = "([0x10000], [], snd (create_region bump_mmap 0x10000 boot_state))"
  have "region_inv 0x10000 [0x10000] [] (snd (create_region bump_mmap 0x10000 boot_state))"
    by (rule create_region_inv [where mmap = bump_mmap and st = boot_state and min_capacity = "0x10000"]) (simp_all add: region_eval)
  then have i: "ginv 0x10000 ?s" by (simp add: ginv_def)
  have r: "chunk_room 0x10000 95 ?s" by (simp add: chunk_room_def region_eval)
  have sv: "all_served (galloc bump_mmap 0x10000) (gcan bump_mmap 0x10000) [EXPRESSION_SIZE, EXPRESSION_SIZE, BINDING_AUG_SIZE] ?s"
    by (simp add: region_eval EXPRESSION_SIZE_def BINDING_AUG_SIZE_def)
  show "ginv 0x10000 fun_region"
    unfolding fun_region_def using rg.alloc_all_correct [OF i sv] by (metis prod.collapse)
  show "chunk_room 0x10000 92 fun_region"
    by (simp add: fun_region_def chunk_room_def region_eval EXPRESSION_SIZE_def BINDING_AUG_SIZE_def)
qed

lemma fun_region_used: "region_used fun_region = {0x10028, 0x10080, 0x100D8}"
  by (auto simp: fun_region_def region_used_def region_eval EXPRESSION_SIZE_def BINDING_AUG_SIZE_def padded_def word_unat_eq_iff)

section \<open>Generated programs\<close>

text \<open>C32. For expressions that the passes have prepared, over a region with room,
\<open>generate_program\<close> returns, and \<open>assemble\<close> accepts every instruction:
its operands are of the kinds that it takes, and each symbol that it refers to is undefined,
static, or has a label in the generated code. With sizes below the bound of the writer the
result is a linked program, which is what the properties of the object file start from.\<close>

lemma generated_program_linked:
  fixes w :: "'k gstate world"
  assumes ok: "list_all (gen_ok objs (region_used (region_state w))
      (\<lambda>b. b \<in> set ub \<or> b \<in> set sb \<or> b \<in> (\<Union>e \<in> set exprs. placed w e)) w) exprs"
    and room: "region_left mmap reg (sum_list (map budget exprs)) (region_state w)"
    and sb: "set sb \<union> set ub \<subseteq> region_used (region_state w)" "list_all (\<lambda>b. is_local (augs w b) \<or> is_global_defined (augs w b)) sb"
    and ub: "list_all (\<lambda>b. scope (augs w b) = global_scope \<and> state (augs w b) = undefined_state) ub"
  shows "\<exists>ns w'. (generate_program objs (galloc mmap reg) exprs w :: ('e, _) outcome) = Ret (ns, w') \<and>
    list_all (instruction_ok (\<lambda>b. b \<in> set ub \<or> b \<in> set sb \<or> b \<in> set (label_bindings w' ns)) w') ns \<and>
    (1024 + MAX_INSTR_LEN * length ns + measure_strtab w' ns ub sb + ELF64_SYM * measure_symtab ns ub sb +
       ELF64_RELA * MAX_INSTR_FIELDS * length ns < 2 ^ 31 \<longrightarrow> linked_program ns ub sb w')"
proof -
  obtain ns w' where 1: "(generate_program objs (galloc mmap reg) exprs w :: ('e, _) outcome) = Ret (ns, w')" "os.grows w w'"
      "list_all (instruction_ok (\<lambda>b. (b \<in> set ub \<or> b \<in> set sb \<or> b \<in> (\<Union>e \<in> set exprs. placed w e)) \<or>
         b \<in> set (label_bindings w' ns)) w') ns"
      "(\<Union>e \<in> set exprs. placed w e) \<subseteq> set (label_bindings w' ns)"
    using os.generate_program_emits [OF ok room] by blast
  have "instruction_ok (\<lambda>b. b \<in> set ub \<or> b \<in> set sb \<or> b \<in> set (label_bindings w' ns)) w' n" if "n \<in> set ns" for n
    by (rule instruction_ok_mono [of "\<lambda>b. (b \<in> set ub \<or> b \<in> set sb \<or> b \<in> (\<Union>e \<in> set exprs. placed w e)) \<or>
         b \<in> set (label_bindings w' ns)"]) (use 1(3,4) that in \<open>auto simp: list_all_iff\<close>)
  moreover have "augs w' b = augs w b" if "b \<in> set sb \<union> set ub" for b
    using 1(2) sb(1) that by (auto simp: os.grows_def)
  ultimately show ?thesis using 1(1) sb(2) ub
    by (intro exI [of _ ns] exI [of _ w']) (auto simp: linked_program_def list_all_iff)
qed

lemma fun_program_ok:
  "list_all (gen_ok (\<lambda>_. None) (region_used (region_state fun_world))
     (\<lambda>b. b \<in> set [] \<or> b \<in> set [] \<or> b \<in> (\<Union>e \<in> set fun_program. placed fun_world e)) fun_world) fun_program"
  by (simp add: fun_program_def fun_world_def fun_region_used symbol_ok_def declared_def)

lemma generated_program_linked_witness:
  "\<exists>ns w'. (generate_program (\<lambda>_. None) (galloc bump_mmap 0x10000) fun_program fun_world :: (nat, _) outcome) = Ret (ns, w') \<and>
    list_all (instruction_ok (\<lambda>b. b \<in> set (label_bindings w' ns)) w') ns"
proof -
  have "region_left bump_mmap 0x10000 (sum_list (map budget fun_program)) (region_state fun_world)"
    by (simp add: fun_program_def fun_world_def fun_region_left)
  from generated_program_linked [OF fun_program_ok this, where ?'e = nat] show ?thesis by auto
qed

end
