(* ===== verification/Spec2Isabelle.thy ===== *)
theory Spec2Isabelle
  imports Signature_Copies Expression_Syntax Lexer Linked_Addresses Containment Escapes Scoping Frames Linked_Code
begin

text \<open>
  Verification library for the bootstrap compiler of L2, the C program under \<open>src/bootstrap\<close>.

  \<^bold>\<open>The program.\<close> The compiler reads source files into fragments (lists of lists of characters, the
  S-expressions of L2), builds expressions from fragments, analyses and links the expressions,
  generates x86-64 instructions for them, assembles the instructions into an ELF-64 object file,
  loads the object into its own memory, and binds its symbols. All memory comes from regions
  (chunked arenas over \<open>mmap\<close>), errors leave by a long jump with an error object.

  \<^bold>\<open>How the code is modelled.\<close> A call of a C function returns a value of type \<open>outcome\<close> (theory
  \<open>L2_Prelude\<close>): it returns (\<open>Ret\<close>), leaves by a long jump with an error object (\<open>Throw\<close>), does
  something that C leaves undefined, such as an access outside of an array (\<open>Undef\<close>), or runs out of
  the fuel that the model gives to loops and recursions that are not structural (\<open>NoFuel\<close>). Machine
  integers are words of their width, with their wrap-around. State is passed explicitly. Memory is
  modelled at the level that the claims need: bytes for strings and loaded objects (\<open>mem\<close>), linked
  cells for the list library (\<open>Cells\<close>), headers of chunks for regions; fragments and expressions are
  trees whose nodes carry the address of their object, with what the passes write into the objects
  in the records \<open>node\<close> and \<open>binding_aug\<close> of a \<open>world\<close>, and the values of signature variables in a
  store.

  \<^bold>\<open>Theories and the code they model.\<close>
  \<^item> \<open>L2_Prelude\<close>: outcomes, fuel, blocks of addresses, words.
  \<^item> \<open>C_Strings\<close>, \<open>Memory_Runs\<close>: string, memory and number functions of
    \<open>x86_64_linux_interface.c\<close> on bytes; reads and writes of runs of bytes.
  \<^item> \<open>Regions\<close>: \<open>create_region\<close>, \<open>region_alloc\<close>, \<open>check_region_integrity\<close> and \<open>destroy_region\<close>. The locale
    \<open>allocator\<close> is what the clients of a region rely on; it is interpreted on \<open>region_alloc\<close>.
  \<^item> \<open>Cells\<close>: \<open>list.c\<close> on cells in memory, over an allocator.
  \<^item> \<open>Fragments\<close>, \<open>L2_Errors\<close>, \<open>Lexer\<close>: \<open>lexer.c\<close> and \<open>errors.c\<close>. The reader is a recursion with fuel; fuel
    of a bound on the rest of the source is enough (\<open>read_fragment_total\<close>).
  \<^item> \<open>Unify\<close>, \<open>Signature_Copies\<close>: unification (\<open>analysis.c\<close>) and copies of signatures (\<open>lexer.c\<close>).
  \<^item> \<open>Expressions\<close>, \<open>Expression_Syntax\<close>: \<open>expressions.c\<close>, and the syntax of the language as a relation.
  \<^item> \<open>Elf\<close>: the structures and macros of \<open>elf.c\<close>, with the locale \<open>codec\<close> for records and their bytes.
  \<^item> \<open>Opcodes\<close>, \<open>Assembler\<close>, \<open>Machine_Code\<close>, \<open>Assembler_Correct\<close>: the first half of
    \<open>x86_64_assembler.c\<close>, and a decoder of the machine code that it writes.
  \<^item> \<open>Elf_Writer\<close>, \<open>Elf_Writer_Correct\<close>: \<open>write_elf\<close> and what it measures and writes.
  \<^item> \<open>Objects\<close>, \<open>Objects_Correct\<close>, \<open>Loading\<close>: \<open>x86_64_object.c\<close>.
  \<^item> \<open>Object_Files\<close>, \<open>Linked_Addresses\<close>: the writer and the loader together, and
    \<open>binding_aug_offsets_to_addresses\<close>.
  \<^item> \<open>Visitors\<close>, \<open>Containment\<close>, \<open>Binding_Passes\<close>, \<open>Escapes\<close>, \<open>Scoping\<close>: the passes of \<open>analysis.c\<close> that
    \<open>compile_program\<close> runs: visitors, multiple definitions, containment flags, classification of bindings,
    linking of symbols, escape analysis.
  \<^item> \<open>Generator\<close>, \<open>Frames\<close>, \<open>Emitting\<close>, \<open>Generated_Code\<close>, \<open>Linked_Code\<close>: \<open>x86_64_generator.c\<close>, the layout of
    frames, and what makes generated instructions acceptable to the assembler. The locale \<open>object_source\<close> is what the
    generator relies on when it allocates objects; it is interpreted on \<open>region_alloc\<close>.

  \<^bold>\<open>What the lemmas show.\<close> Strings, numbers and lists: functional behaviour on every branch. Regions: blocks
  are aligned and disjoint. Reader: total, sound for the grammar of the comment in \<open>lexer.c\<close>, inverse to the printer.
  Unification: most general, and both sides have the same value afterwards. Builder: agrees with the syntax as a
  relation, errors included. Passes: the error for multiple definitions is thrown exactly when there is one; flags
  allow the ways evaluation may end; every escaping continuation is marked; linking is lexical scoping. Frames: slots
  are disjoint and the parameters of continuations are where jumps store arguments. Assembler and object file: the
  bytes decode to the instructions, relocations patch zero fields, labels are where they were placed, nothing is written
  out of bounds. Generator: from prepared expressions it makes a linked program, from which the claims about the object file
  start. Loader: the image is the file with its relocations applied, and relinking forgets earlier ones.

  \<^bold>\<open>Fuel and bounds.\<close> Only recursions that are not structural have fuel: the reader (enough fuel is a bound on
  the rest of the source), unification (enough exists on acyclic stores), \<open>pre_visit_expressions\<close>, whose visitor may return
  larger expressions. Sizes of files are below \<open>2 ^ 31\<close>, as the code keeps them in \<open>int\<close>; frames are at most \<open>2 ^ 31\<close> bytes.

  \<^bold>\<open>Not modelled.\<close> System calls and timers of \<open>x86_64_linux_interface.c\<close>, which only pass their arguments on; the
  assembly stubs; the parts of \<open>elf.c\<close> that no code uses; \<open>construct_sccs\<close> and \<open>infer_types\<close> and the functions of
  \<open>analysis.c\<close> for metaprograms, which run code that was generated; the driver \<open>compile.c\<close>; the compiler in L2 itself.
\<close>

end
